(* ===== verification/Prelude.thy ===== *)
theory Prelude
  imports Main "HOL-Library.Word"
begin

unbundle bit_operations_syntax

section \<open>Shared vocabulary of the file-transfer development\<close>

text \<open>
  What every component theory uses: the machine types of the platform the build targets
  (x86-64 Linux, LP64, little-endian), the ways a C++ function can end other than by
  returning, the results of system calls, raw memory as byte lists, and three interfaces:
  a transition system with an invariant, a tiling of a byte range, and a fixed-width codec.
\<close>

subsection \<open>Machine types\<close>

type_synonym byte = "8 word"
type_synonym u16 = "16 word" \<comment> \<open>\<open>unsigned short\<close>, \<open>uint16_t\<close>; also the bits of a \<open>short\<close>\<close>
type_synonym u32 = "32 word" \<comment> \<open>\<open>unsigned int\<close>, \<open>uint32_t\<close>\<close>
type_synonym s32 = "32 word" \<comment> \<open>\<open>int\<close>: the same bits, read with \<open>sint\<close>\<close>
type_synonym u64 = "64 word" \<comment> \<open>\<open>size_t\<close>, \<open>unsigned long\<close>\<close>
type_synonym s64 = "64 word" \<comment> \<open>\<open>long\<close>, \<open>ssize_t\<close>, \<open>int64_t\<close>: the same bits, read with \<open>sint\<close>\<close>

text \<open>How a piece of C++ can end without returning: a trap, undefined behaviour on memory, a
  wrong \<open>free\<close>, or an exception of the standard library.\<close>

datatype c_error =
    DivByZero          \<comment> \<open>integer division by zero: SIGFPE\<close>
  | BadMemory          \<comment> \<open>access outside an object, or to memory never written\<close>
  | BadFree            \<comment> \<open>\<open>free\<close> of a pointer \<open>malloc\<close> did not return\<close>
  | UseAfterFree       \<comment> \<open>access to a freed object\<close>
  | NullDeref          \<comment> \<open>access through a null pointer\<close>
  | Out_of_range       \<comment> \<open>\<open>std::out_of_range\<close>\<close>
  | Invalid_argument   \<comment> \<open>\<open>std::invalid_argument\<close>\<close>
  | Length_error       \<comment> \<open>\<open>std::length_error\<close>\<close>
  | Bad_alloc          \<comment> \<open>\<open>std::bad_alloc\<close>, \<open>std::bad_array_new_length\<close>\<close>
  | Int_overflow       \<comment> \<open>overflow of a signed integer\<close>
  | Library_error      \<comment> \<open>an exception for a failed call of a library\<close>

text \<open>\<open>errno\<close> as far as the code tells its values apart.\<close>

datatype errno = EAGAIN | EWOULDBLOCK | EINTR | EOther

text \<open>A system call returns a value, or -1 and sets \<open>errno\<close>.\<close>

datatype 'a sys = Ok 'a | Err errno

text \<open>A run of a function against the answers of its environment: it has returned, it has
  crashed, or the answers are used up and it is still going.\<close>

datatype 'a run = Done 'a | Crash c_error | Running

named_theorems word_conv \<open>conversions between words and naturals\<close>
named_theorems mem_simps \<open>raw memory: reads and writes of byte lists\<close>

text \<open>The bytes of a text of the source.\<close>

definition label :: "string \<Rightarrow> byte list" where
  "label t = map (\<lambda>c. of_nat (of_char c)) t"

subsection \<open>Raw memory\<close>

text \<open>An object of \<open>n\<close> bytes is a list of length \<open>n\<close>; a pointer into it is an offset. Reads
  and writes (\<open>memcpy\<close>) outside the object are \<^term>\<open>BadMemory\<close>.\<close>

definition put_bytes :: "'a list \<Rightarrow> nat \<Rightarrow> 'a list \<Rightarrow> 'a list" where
  "put_bytes mem off src = take off mem @ src @ drop (off + length src) mem"

definition get_bytes :: "'a list \<Rightarrow> nat \<Rightarrow> nat \<Rightarrow> 'a list" where
  "get_bytes mem off n = take n (drop off mem)"

definition mem_write :: "byte list \<Rightarrow> nat \<Rightarrow> byte list \<Rightarrow> c_error + byte list" where
  "mem_write mem off src =
     (if off + length src \<le> length mem then Inr (put_bytes mem off src) else Inl BadMemory)"

definition mem_read :: "byte list \<Rightarrow> nat \<Rightarrow> nat \<Rightarrow> c_error + byte list" where
  "mem_read mem off n =
     (if off + n \<le> length mem then Inr (get_bytes mem off n) else Inl BadMemory)"

lemma length_put_bytes [mem_simps]:
  "off + length src \<le> length mem \<Longrightarrow> length (put_bytes mem off src) = length mem"
  by (simp add: put_bytes_def)

lemma length_get_bytes [mem_simps]:
  "off + n \<le> length mem \<Longrightarrow> length (get_bytes mem off n) = n"
  by (simp add: get_bytes_def)

lemma get_put_same [mem_simps]:
  "off + length src \<le> length mem \<Longrightarrow> get_bytes (put_bytes mem off src) off (length src) = src"
  by (simp add: put_bytes_def get_bytes_def)

lemma nth_put_bytes:
  assumes "off + length src \<le> length mem" and "i < length mem"
  shows "put_bytes mem off src ! i
    = (if off \<le> i \<and> i < off + length src then src ! (i - off) else mem ! i)"
proof -
  consider "i < off" | "off \<le> i" "i < off + length src" | "off + length src \<le> i" by linarith
  then show ?thesis
  proof cases
    case 1
    then show ?thesis using assms by (simp add: put_bytes_def nth_append)
  next
    case 2
    then have "i - off < length src" by simp
    with 2 show ?thesis using assms by (simp add: put_bytes_def nth_append)
  next
    case 3
    then have "\<not> i - off < length src" and "\<not> i < off" by linarith+
    with 3 assms show ?thesis by (simp add: put_bytes_def nth_append add.commute)
  qed
qed

lemma get_bytes_eq_iff:
  assumes "off + n \<le> length a" and "off + n \<le> length b"
  shows "get_bytes a off n = get_bytes b off n \<longleftrightarrow> (\<forall>i. off \<le> i \<and> i < off + n \<longrightarrow> a ! i = b ! i)"
proof
  assume eq: "get_bytes a off n = get_bytes b off n"
  show "\<forall>i. off \<le> i \<and> i < off + n \<longrightarrow> a ! i = b ! i"
  proof (intro allI impI)
    fix i
    assume i: "off \<le> i \<and> i < off + n"
    then have "get_bytes a off n ! (i - off) = get_bytes b off n ! (i - off)" using eq by simp
    moreover have "i - off < n" using i by linarith
    ultimately show "a ! i = b ! i" using i assms by (simp add: get_bytes_def)
  qed
next
  assume "\<forall>i. off \<le> i \<and> i < off + n \<longrightarrow> a ! i = b ! i"
  then show "get_bytes a off n = get_bytes b off n"
    using assms by (intro nth_equalityI) (simp_all add: get_bytes_def)
qed

lemma get_put_other [mem_simps]:
  assumes "off + length src \<le> length mem" and "off' + n \<le> length mem"
    and "off' + n \<le> off \<or> off + length src \<le> off'"
  shows "get_bytes (put_bytes mem off src) off' n = get_bytes mem off' n"
proof -
  have "off' + n \<le> length (put_bytes mem off src)"
    using assms(1,2) by (simp add: length_put_bytes)
  then show ?thesis
    using assms by (subst get_bytes_eq_iff) (auto simp: nth_put_bytes)
qed

lemma get_bytes_append: "get_bytes m off (a + b) = get_bytes m off a @ get_bytes m (off + a) b"
  by (simp add: get_bytes_def take_add add.commute)

lemma get_bytes_all [mem_simps]: "get_bytes m 0 (length m) = m"
  by (simp add: get_bytes_def)

lemma get_bytes_0 [mem_simps]: "get_bytes m off 0 = []"
  by (simp add: get_bytes_def)

lemma get_bytes_get_bytes [mem_simps]:
  "a + n \<le> w \<Longrightarrow> get_bytes (get_bytes m off w) a n = get_bytes m (off + a) n"
  by (simp add: get_bytes_def drop_take min_absorb1 add.commute)

subsection \<open>Words and naturals\<close>

lemma unat_u64_add [word_conv]:
  "unat a + unat b < 2 ^ 64 \<Longrightarrow> unat (a + b) = unat a + unat (b :: u64)"
  by (subst unat_add_lem [THEN iffD1]) simp_all

lemma unat_u64_mult [word_conv]:
  "unat a * unat b < 2 ^ 64 \<Longrightarrow> unat (a * b) = unat a * unat (b :: u64)"
  by (simp add: unat_word_ariths)

lemma unat_u64_of_nat [word_conv]: "n < 2 ^ 64 \<Longrightarrow> unat (of_nat n :: u64) = n"
  by (simp add: unat_of_nat)

lemma of_nat_u64_ne_0 [word_conv]: "0 < n \<Longrightarrow> n < 2 ^ 64 \<Longrightarrow> (of_nat n :: u64) \<noteq> 0"
  using unat_u64_of_nat [of n] by (metis less_irrefl unat_0)

lemma unat_u16_of_nat [word_conv]: "n < 2 ^ 16 \<Longrightarrow> unat (of_nat n :: u16) = n"
  by (simp add: unat_of_nat)

lemma unat_u64_less: "unat (x :: u64) < 2 ^ 64"
  using unsigned_less [of x] by simp

lemma sint_u64_eq_unat [word_conv]:
  assumes "unat (w :: u64) < 2 ^ 63"
  shows "sint w = int (unat w)"
proof -
  have u: "int (unat w) = uint w" by simp
  then have "uint w < 2 ^ 63" using assms by (metis of_nat_less_iff of_nat_numeral of_nat_power)
  moreover have "- (2 ^ 63) \<le> uint w" by (rule order_trans [of _ 0]) simp_all
  ultimately have "signed_take_bit 63 (uint w) = uint w" by (intro signed_take_bit_int_eq_self)
  then show ?thesis using u by (simp add: sint_uint)
qed

lemma unat_scast_s32 [word_conv]:
  assumes "0 \<le> sint (j :: s32)"
  shows "unat (scast j :: u64) = nat (sint j)"
proof -
  have "sint j < 2 ^ 31" using sint_lt [of j] by simp
  then have "uint (word_of_int (sint j) :: u64) = sint j"
    using assms by (subst uint_word_of_int) (simp add: mod_pos_pos_trivial)
  then have "int (unat (scast j :: u64)) = sint j" by simp
  then show ?thesis by linarith
qed

lemma sint_s32_of_nat [word_conv]:
  assumes "j < 2 ^ 31"
  shows "sint (of_nat j :: s32) = int j"
proof -
  have "int j < 2 ^ 31" using assms by (metis of_nat_less_iff of_nat_numeral of_nat_power)
  then show ?thesis by (simp add: signed_of_nat signed_take_bit_int_eq_self)
qed

lemma scast_s32_of_nat [word_conv]: "j < 2 ^ 31 \<Longrightarrow> (scast (of_nat j :: s32) :: u64) = of_nat j"
  using unat_scast_s32 [of "of_nat j"] by (simp add: sint_s32_of_nat word_unat_eq_iff unat_of_nat)

lemma unat_u64_diff [word_conv]: "j \<le> unat x \<Longrightarrow> unat (x - of_nat j :: u64) = unat x - j"
  using unat_u64_less [of x] by (subst unat_sub) (simp_all add: word_le_nat_alt unat_u64_of_nat)

lemma u64_diff_0 [word_conv]: "j \<le> unat x \<Longrightarrow> (x - of_nat j :: u64) = 0 \<longleftrightarrow> j = unat x"
  using unat_u64_diff [of j x] by (simp flip: unat_eq_zero) arith

lemma ucast_of_nat_u32 [word_conv]: "(ucast (of_nat n :: u64) :: u32) = of_nat n"
  by (rule bit_word_eqI) (simp add: bit_simps)

lemma ucast_u32_of_nat [word_conv]:
  "n < 2 ^ 32 \<Longrightarrow> (ucast (of_nat n :: u32) :: u64) = of_nat n"
  by (simp add: word_unat_eq_iff unsigned_ucast_eq unat_of_nat take_bit_nat_eq_self)

lemma Suc_times_le: "i < N div S \<Longrightarrow> Suc i * S \<le> (N :: nat)"
  by (rule le_trans [OF mult_le_mono1 div_times_less_eq_dividend]) simp

subsection \<open>Lists\<close>

lemma sum_list_upd:
  assumes "j < length cs"
  shows "sum_list (map f (cs[j := c])) + f (cs ! j) = (sum_list (map f cs) + f c :: nat)"
proof -
  have "sum_list (map f cs) = sum_list (map f (take j cs)) + f (cs ! j) + sum_list (map f (drop (Suc j) cs))"
    by (subst id_take_nth_drop [OF assms]) (simp add: add.assoc)
  moreover have "sum_list (map f (cs[j := c])) = sum_list (map f (take j cs)) + f c + sum_list (map f (drop (Suc j) cs))"
    by (simp add: upd_conv_take_nth_drop [OF assms] add.assoc)
  ultimately show ?thesis by simp
qed

lemma sum_list_upd_less:
  "j < length cs \<Longrightarrow> f c < f (cs ! j) \<Longrightarrow> sum_list (map f (cs[j := c])) < (sum_list (map f cs) :: nat)"
  using sum_list_upd [of j cs f c] by linarith

lemma set_upd_old: "x \<in> set (cs[j := c]) \<Longrightarrow> x \<noteq> c \<Longrightarrow> x \<in> set cs"
  using set_update_subset_insert [of cs j c] by blast

subsection \<open>Interface: a transition system with an invariant\<close>

locale invariant_system =
  fixes init :: "'s \<Rightarrow> bool"
    and step :: "'s \<Rightarrow> 's \<Rightarrow> bool"
    and inv :: "'s \<Rightarrow> bool"
  assumes init_inv: "init s \<Longrightarrow> inv s"
    and step_inv: "inv s \<Longrightarrow> step s t \<Longrightarrow> inv t"
begin

lemma steps_inv: "rtranclp step s t \<Longrightarrow> inv s \<Longrightarrow> inv t"
  by (induction rule: rtranclp_induct) (auto intro: step_inv)

lemma reach_inv: "init s \<Longrightarrow> rtranclp step s t \<Longrightarrow> inv t"
  by (blast intro: steps_inv init_inv)

end

subsection \<open>Interface: a refinement\<close>

text \<open>Every step of the detailed system is a step of the specification on the abstracted states, or
  none. Then every run of the one is a run of the other.\<close>

locale simulation =
  fixes step :: "'s \<Rightarrow> 's \<Rightarrow> bool" and spec :: "'t \<Rightarrow> 't \<Rightarrow> bool" and abs :: "'s \<Rightarrow> 't"
  assumes simulates: "step s s' \<Longrightarrow> spec (abs s) (abs s') \<or> abs s' = abs s"
begin

lemma run_simulates: "rtranclp step s s' \<Longrightarrow> rtranclp spec (abs s) (abs s')"
proof (induction rule: rtranclp_induct)
  case (step s' s'')
  then show ?case using simulates [of s' s''] by (auto intro: rtranclp.rtrancl_into_rtrancl)
qed simp

end

text \<open>The same for a system that implements its specification in the states of its invariant.\<close>

locale invariant_refinement = invariant_system init step inv
  for init :: "'s \<Rightarrow> bool" and step :: "'s \<Rightarrow> 's \<Rightarrow> bool" and inv :: "'s \<Rightarrow> bool" +
  fixes spec :: "'t \<Rightarrow> 't \<Rightarrow> bool" and abs :: "'s \<Rightarrow> 't"
  assumes refines: "inv s \<Longrightarrow> step s s' \<Longrightarrow> spec (abs s) (abs s') \<or> abs s' = abs s"

sublocale invariant_refinement \<subseteq> simulation "\<lambda>s s'. inv s \<and> step s s'" spec abs
  by unfold_locales (auto dest: refines)

context invariant_refinement
begin

lemma reach_simulates: "init s \<Longrightarrow> rtranclp step s s' \<Longrightarrow> rtranclp spec (abs s) (abs s')"
proof -
  assume i: "init s" and st: "rtranclp step s s'"
  from st have "rtranclp (\<lambda>s s'. inv s \<and> step s s') s s'"
  proof (induction rule: rtranclp_induct)
    case (step t t')
    then show ?case using reach_inv [OF i step(1)] by (auto intro: rtranclp.rtrancl_into_rtrancl)
  qed simp
  then show ?thesis by (rule run_simulates)
qed

end

subsection \<open>Interface: a byte range cut into consecutive pieces\<close>

text \<open>A configuration \<open>c\<close> describes \<open>count c\<close> pieces of a range of \<open>total c\<close> bytes: piece
  \<open>i\<close> starts at \<open>off c i\<close> and has \<open>width c i\<close> bytes. The laws say that the pieces follow each
  other without gap or overlap; the lemmas that the pieces of a file are the file again, both
  when read in order and when written one by one, in any order, into a buffer.\<close>

locale tiling =
  fixes valid :: "'c \<Rightarrow> bool"
    and count :: "'c \<Rightarrow> nat"
    and off :: "'c \<Rightarrow> nat \<Rightarrow> nat"
    and width :: "'c \<Rightarrow> nat \<Rightarrow> nat"
    and total :: "'c \<Rightarrow> nat"
  assumes count_pos: "valid c \<Longrightarrow> 0 < count c"
    and off_first: "valid c \<Longrightarrow> off c 0 = 0"
    and off_next: "valid c \<Longrightarrow> Suc i < count c \<Longrightarrow> off c (Suc i) = off c i + width c i"
    and off_last: "valid c \<Longrightarrow> Suc i = count c \<Longrightarrow> off c i + width c i = total c"
begin

lemma off_mono: "valid c \<Longrightarrow> i < j \<Longrightarrow> j < count c \<Longrightarrow> off c i + width c i \<le> off c j"
proof (induction j)
  case 0
  then show ?case by simp
next
  case (Suc j)
  show ?case
  proof (cases "i = j")
    case True
    with Suc.prems show ?thesis by (simp add: off_next)
  next
    case False
    with Suc have "off c i + width c i \<le> off c j" by simp
    with Suc.prems show ?thesis by (simp add: off_next)
  qed
qed

lemma piece_bound: "valid c \<Longrightarrow> i < count c \<Longrightarrow> off c i + width c i \<le> total c"
proof -
  assume v: "valid c" and i: "i < count c"
  obtain n where n: "count c = Suc n" using i by (cases "count c") auto
  then have last: "off c n + width c n = total c" using v by (simp add: off_last)
  show ?thesis
  proof (cases "i = n")
    case True
    with last show ?thesis by simp
  next
    case False
    with i n v have "off c i + width c i \<le> off c n" by (intro off_mono) simp_all
    with last show ?thesis by simp
  qed
qed

lemma pieces_disjoint:
  "valid c \<Longrightarrow> i < count c \<Longrightarrow> j < count c \<Longrightarrow> i \<noteq> j \<Longrightarrow>
    off c i + width c i \<le> off c j \<or> off c j + width c j \<le> off c i"
  using off_mono [of c i j] off_mono [of c j i] by (cases "i < j") auto

lemma prefix_pieces:
  assumes "valid c" and "k < count c"
  shows "concat (map (\<lambda>i. get_bytes f (off c i) (width c i)) [0..<Suc k])
    = get_bytes f 0 (off c k + width c k)"
  using assms(2)
proof (induction k)
  case 0
  then show ?case using assms(1) by (simp add: off_first)
next
  case (Suc k)
  then have "off c (Suc k) = off c k + width c k" using assms(1) by (simp add: off_next)
  with Suc show ?case by (simp add: get_bytes_append [of f 0 "off c k + width c k"])
qed

lemma concat_pieces:
  assumes "valid c" and "length f = total c"
  shows "concat (map (\<lambda>i. get_bytes f (off c i) (width c i)) [0..<count c]) = f"
proof -
  obtain n where n: "count c = Suc n" using count_pos [OF assms(1)] by (cases "count c") auto
  then have "off c n + width c n = length f" using assms by (simp add: off_last)
  with prefix_pieces [OF assms(1), of n f] n show ?thesis by (simp add: mem_simps)
qed

lemma pieces_determine:
  assumes "valid c" and "length f = total c" and "length g = total c"
    and "\<And>i. i < count c \<Longrightarrow> get_bytes g (off c i) (width c i) = get_bytes f (off c i) (width c i)"
  shows "g = f"
proof -
  have "map (\<lambda>i. get_bytes g (off c i) (width c i)) [0..<count c]
      = map (\<lambda>i. get_bytes f (off c i) (width c i)) [0..<count c]"
    using assms(4) by simp
  then show ?thesis using concat_pieces [OF assms(1,2)] concat_pieces [OF assms(1,3)] by metis
qed

lemma write_piece:
  assumes "valid c" and "length f = total c" and "length g = total c" and "i < count c"
    and "g' = put_bytes g (off c i) (get_bytes f (off c i) (width c i))"
  shows "length g' = total c"
    and "get_bytes g' (off c i) (width c i) = get_bytes f (off c i) (width c i)"
    and "j < count c \<Longrightarrow> j \<noteq> i \<Longrightarrow> get_bytes g' (off c j) (width c j) = get_bytes g (off c j) (width c j)"
proof -
  let ?src = "get_bytes f (off c i) (width c i)"
  have bnd: "off c i + width c i \<le> length f" using assms piece_bound by simp
  then have len: "length ?src = width c i" by (simp add: mem_simps)
  then have fit: "off c i + length ?src \<le> length g" using bnd assms(2,3) by simp
  show "length g' = total c" using fit assms(3,5) by (simp add: mem_simps)
  show "get_bytes g' (off c i) (width c i) = ?src"
    using get_put_same [OF fit] assms(5) len by simp
  assume j: "j < count c" and ne: "j \<noteq> i"
  have "off c j + width c j \<le> length g" using j assms piece_bound by simp
  then show "get_bytes g' (off c j) (width c j) = get_bytes g (off c j) (width c j)"
    using pieces_disjoint [OF assms(1) j assms(4) ne] fit len assms(5) by (simp add: get_put_other)
qed

lemma write_pieces:
  assumes "valid c" and "length f = total c" and "set is \<subseteq> {0..<count c}" and "length g = total c"
    and w: "w = (\<lambda>i m. put_bytes m (off c i) (get_bytes f (off c i) (width c i)))"
  shows "length (fold w is g) = total c
    \<and> (\<forall>j < count c. (j \<in> set is \<or> get_bytes g (off c j) (width c j) = get_bytes f (off c j) (width c j)) \<longrightarrow>
        get_bytes (fold w is g) (off c j) (width c j) = get_bytes f (off c j) (width c j))"
  using assms(3,4)
proof (induction "is" arbitrary: g)
  case Nil
  then show ?case by simp
next
  case (Cons i js)
  have i: "i < count c" and js: "set js \<subseteq> {0..<count c}" using Cons.prems(1) by simp_all
  have wi: "w i g = put_bytes g (off c i) (get_bytes f (off c i) (width c i))" by (simp add: w)
  note wp = write_piece [OF assms(1,2) Cons.prems(2) i wi]
  from Cons.IH [OF js wp(1)] show ?case using wp(2,3) by (simp, metis)
qed

lemma write_all_pieces:
  assumes "valid c" and "length f = total c" and "length g = total c"
    and "set is = {0..<count c}"
  shows "fold (\<lambda>i m. put_bytes m (off c i) (get_bytes f (off c i) (width c i))) is g = f"
  using write_pieces [OF assms(1,2) _ assms(3) refl, of "is"] assms
  by (intro pieces_determine [of c f]) simp_all

end

end
