(* ===== verification/Net_Order.thy ===== *)
theory Net_Order
  imports Prelude
begin

unbundle bit_operations_syntax

section \<open>Byte order\<close>

text \<open>
  The integers of the slice header travel in network order: \<open>htons\<close>/\<open>htonl\<close> before a
  \<open>memcpy\<close> out of an integer variable, a \<open>memcpy\<close> into one and \<open>ntohs\<close>/\<open>ntohl\<close> on the
  other side. The host is little-endian, so the conversions of the C library swap the bytes and
  the object representation of an integer lists its low byte first. Both widths are instances
  of one interface, a fixed-width codec.
\<close>

subsection \<open>Interface: a codec of fixed width\<close>

locale fixed_codec =
  fixes enc :: "'a \<Rightarrow> byte list"
    and dec :: "byte list \<Rightarrow> 'a"
    and width :: nat
  assumes dec_enc: "dec (enc x) = x"
    and length_enc: "length (enc x) = width"
begin

lemma enc_inj: "enc x = enc y \<Longrightarrow> x = y"
  by (metis dec_enc)

lemma dec_field: "dec (get_bytes (pre @ enc x @ post) (length pre) width) = x"
  by (simp add: get_bytes_def dec_enc flip: length_enc [of x])

lemma field_put:
  "off + width \<le> length mem \<Longrightarrow> dec (get_bytes (put_bytes mem off (enc x)) off width) = x"
  using get_put_same [of off "enc x" mem] by (simp add: length_enc dec_enc)

end

subsection \<open>Object representation on the little-endian host\<close>

definition bytes_of_u16 :: "u16 \<Rightarrow> byte list" where
  "bytes_of_u16 x = [ucast x, ucast (drop_bit 8 x)]"

definition u16_of_bytes :: "byte list \<Rightarrow> u16" where
  "u16_of_bytes bs = ucast (bs ! 0) OR push_bit 8 (ucast (bs ! 1))"

definition bytes_of_u32 :: "u32 \<Rightarrow> byte list" where
  "bytes_of_u32 x = [ucast x, ucast (drop_bit 8 x), ucast (drop_bit 16 x), ucast (drop_bit 24 x)]"

definition u32_of_bytes :: "byte list \<Rightarrow> u32" where
  "u32_of_bytes bs = ucast (bs ! 0) OR push_bit 8 (ucast (bs ! 1))
     OR push_bit 16 (ucast (bs ! 2)) OR push_bit 24 (ucast (bs ! 3))"

subsection \<open>Host and network order\<close>

definition htons :: "u16 \<Rightarrow> u16" where
  "htons x = push_bit 8 x OR drop_bit 8 x"

definition ntohs :: "u16 \<Rightarrow> u16" where
  "ntohs x = push_bit 8 x OR drop_bit 8 x"

definition htonl :: "u32 \<Rightarrow> u32" where
  "htonl x = push_bit 24 (take_bit 8 x) OR push_bit 16 (take_bit 8 (drop_bit 8 x))
     OR push_bit 8 (take_bit 8 (drop_bit 16 x)) OR take_bit 8 (drop_bit 24 x)"

definition ntohl :: "u32 \<Rightarrow> u32" where
  "ntohl x = push_bit 24 (take_bit 8 x) OR push_bit 16 (take_bit 8 (drop_bit 8 x))
     OR push_bit 8 (take_bit 8 (drop_bit 16 x)) OR take_bit 8 (drop_bit 24 x)"

lemma length_bytes_of [simp]: "length (bytes_of_u16 x) = 2" "length (bytes_of_u32 y) = 4"
  by (simp_all add: bytes_of_u16_def bytes_of_u32_def)

lemma u16_of_bytes_of: "u16_of_bytes (bytes_of_u16 x) = x"
  by (rule bit_word_eqI) (auto simp: u16_of_bytes_def bytes_of_u16_def bit_simps)

text \<open>A bit of a 32-bit word by the byte it is in.\<close>

lemma byte_of_bit32:
  assumes "n < LENGTH(32)"
  obtains k where "k < 8" and "n = k \<or> n = 8 + k \<or> n = 16 + k \<or> n = 24 + k"
proof
  show "n mod 8 < 8" by simp
  have "n div 8 < 4" using assms by (simp add: less_mult_imp_div_less)
  then have "n div 8 = 0 \<or> n div 8 = 1 \<or> n div 8 = 2 \<or> n div 8 = 3" by linarith
  moreover have "n = 8 * (n div 8) + n mod 8" by simp
  ultimately show "n = n mod 8 \<or> n = 8 + n mod 8 \<or> n = 16 + n mod 8 \<or> n = 24 + n mod 8" by linarith
qed

lemma u32_of_bytes_of: "u32_of_bytes (bytes_of_u32 x) = x"
proof (rule bit_word_eqI)
  fix n
  assume "n < LENGTH(32)"
  then obtain k where "k < 8" and "n = k \<or> n = 8 + k \<or> n = 16 + k \<or> n = 24 + k"
    by (rule byte_of_bit32)
  then show "bit (u32_of_bytes (bytes_of_u32 x)) n = bit x n"
    by (elim disjE) (simp_all add: u32_of_bytes_def bytes_of_u32_def bit_simps)
qed

lemma ntohs_htons: "ntohs (htons x) = x"
  by (rule bit_word_eqI) (auto simp: ntohs_def htons_def bit_simps)

lemma bit_htonl:
  assumes "k < 8"
  shows "bit (htonl x) k = bit x (24 + k)" and "bit (htonl x) (8 + k) = bit x (16 + k)"
    and "bit (htonl x) (16 + k) = bit x (8 + k)" and "bit (htonl x) (24 + k) = bit x k"
  using assms by (simp_all add: htonl_def bit_simps)

lemma ntohl_eq_htonl: "ntohl = htonl"
  by (simp add: fun_eq_iff ntohl_def htonl_def)

lemma ntohl_htonl: "ntohl (htonl x) = x"
proof (rule bit_word_eqI)
  fix n
  assume "n < LENGTH(32)"
  then obtain k where k: "k < 8" and "n = k \<or> n = 8 + k \<or> n = 16 + k \<or> n = 24 + k"
    by (rule byte_of_bit32)
  then show "bit (ntohl (htonl x)) n = bit x n"
    by (elim disjE) (simp_all add: ntohl_eq_htonl bit_htonl [OF k])
qed

subsection \<open>The wire format of integers\<close>

text \<open>What the sender's \<open>htons\<close> and \<open>memcpy\<close> put into a buffer, and what the receiver's
  \<open>memcpy\<close> and \<open>ntohs\<close> make of it.\<close>

definition put_u16 :: "u16 \<Rightarrow> byte list" where
  "put_u16 x = bytes_of_u16 (htons x)"

definition get_u16 :: "byte list \<Rightarrow> u16" where
  "get_u16 bs = ntohs (u16_of_bytes bs)"

definition put_u32 :: "u32 \<Rightarrow> byte list" where
  "put_u32 x = bytes_of_u32 (htonl x)"

definition get_u32 :: "byte list \<Rightarrow> u32" where
  "get_u32 bs = ntohl (u32_of_bytes bs)"

interpretation wire16: fixed_codec put_u16 get_u16 2
  by unfold_locales (simp_all add: put_u16_def get_u16_def u16_of_bytes_of ntohs_htons)

interpretation wire32: fixed_codec put_u32 get_u32 4
  by unfold_locales (simp_all add: put_u32_def get_u32_def u32_of_bytes_of ntohl_htonl)

text \<open>The wire order is big-endian: the most significant byte comes first.\<close>

lemma put_u16_big_endian: "put_u16 x = [ucast (drop_bit 8 x), ucast x]"
  by (auto simp: put_u16_def bytes_of_u16_def htons_def bit_eq_iff bit_simps)

end
