(* ===== verification/Sock_IO.thy ===== *)
theory Sock_IO
  imports Net_Order
begin

unbundle bit_operations_syntax

section \<open>Sockets (util/sock_factory.h and the socket helpers of util/recv_flow.h)\<close>

text \<open>
  The helpers that set sockets up, and the three loops that move bytes: the read loop that both
  the receiver's \<open>Recv\<close> and the sender's \<open>Supervise\<close> contain, and the two write loops of the
  sender. The kernel is the environment: a loop runs over a script, the list of results of its
  successive system calls. The result \<open>Ok n\<close> of a \<open>write\<close> or \<open>read\<close> that asks for \<open>req\<close> bytes
  moves \<open>min n req\<close> bytes (and no more than are there), so every script is a possible behaviour
  of the kernel and every behaviour has a script. A script that ends before the loop does is a
  loop still running.
\<close>

subsection \<open>Error classification and flags\<close>

definition IsSocketError :: "'a sys \<Rightarrow> bool" where
  "IsSocketError r =
     (case r of Ok _ \<Rightarrow> False | Err e \<Rightarrow> e \<noteq> EAGAIN \<and> e \<noteq> EWOULDBLOCK \<and> e \<noteq> EINTR)"

definition O_NONBLOCK :: s32 where
  "O_NONBLOCK = 2048"

text \<open>The two \<open>fcntl\<close> calls are arguments: what \<open>F_GETFL\<close> returns, and what \<open>F_SETFL\<close>
  returns for the flags it is given.\<close>

definition SetNonBlocking :: "s32 sys \<Rightarrow> (s32 \<Rightarrow> s32 sys) \<Rightarrow> int" where
  "SetNonBlocking f_getfl f_setfl =
     (case f_getfl of
        Err _ \<Rightarrow> -1
      | Ok opts \<Rightarrow>
          (if sint opts < 0 then -1
           else (case f_setfl (opts OR O_NONBLOCK) of
                   Err _ \<Rightarrow> -1
                 | Ok r \<Rightarrow> if sint r < 0 then -1 else 0)))"

subsection \<open>Addresses\<close>

record sockaddr_in =
  sin_family :: nat
  sin_addr :: u32
  sin_port :: u16

definition AF_INET :: nat where
  "AF_INET = 2"

text \<open>The static members of \<open>SockFactory\<close>: \<open>remote_addr_\<close>, and \<open>p_remote_addr_\<close>, which is null
  or points to it.\<close>

record sock_factory =
  p_remote_set :: bool
  remote_addr :: sockaddr_in

definition sock_factory_init :: sock_factory where
  "sock_factory_init = \<lparr>p_remote_set = False,
     remote_addr = \<lparr>sin_family = 0, sin_addr = 0, sin_port = 0\<rparr>\<rparr>"

text \<open>\<open>inet_pton\<close> leaves the zeroed address alone when the text is no address.\<close>

definition GetRemoteAddr ::
    "(string \<Rightarrow> u32 option) \<Rightarrow> sock_factory \<Rightarrow> string \<Rightarrow> s32 \<Rightarrow> sockaddr_in \<times> sock_factory" where
  "GetRemoteAddr inet_pton st ip port =
     (if p_remote_set st then (remote_addr st, st)
      else
        (let a = \<lparr>sin_family = AF_INET,
                  sin_addr = (case inet_pton ip of None \<Rightarrow> 0 | Some x \<Rightarrow> x),
                  sin_port = htons (ucast port)\<rparr>
         in (a, \<lparr>p_remote_set = True, remote_addr = a\<rparr>)))"

definition kBeginPort :: int where
  "kBeginPort = 10001"

text \<open>\<open>MakeSockets\<close> opens one socket per job; the result is the list of the sockets, each with
  the port (in network order) it is bound to. \<open>new_socket\<close> is what the \<open>i\<close>-th \<open>socket\<close> call
  returns.\<close>

definition MakeSockets :: "(nat \<Rightarrow> int) \<Rightarrow> int \<Rightarrow> (int \<times> u16) list" where
  "MakeSockets new_socket jobs_num =
     map (\<lambda>k. (new_socket k, htons (word_of_int (kBeginPort + int k)))) [0..<nat jobs_num]"

subsection \<open>Listening sockets\<close>

text \<open>What the kernel answers to the calls of \<open>BindSocket\<close>. The results of \<open>bind\<close> and
  \<open>listen\<close> are not looked at, so they are not here.\<close>

record bind_env =
  be_socket :: int
  be_epoll_create1 :: int
  be_epoll_ctl :: int
  be_getfl :: "s32 sys"
  be_setfl :: "s32 \<Rightarrow> s32 sys"

text \<open>The calls made, in order; the order matters because the epoll registration comes before the
  socket listens.\<close>

datatype net_call = CSocket | CBind int u16 | CEpollCreate | CEpollAdd int int | CFcntl int | CListen int int

definition kMaxEvents :: int where
  "kMaxEvents = 128"

definition BindSocket :: "bind_env \<Rightarrow> s32 \<Rightarrow> (int \<times> int) \<times> net_call list" where
  "BindSocket env listen_port =
     (let listen_fd = be_socket env;
          epoll_fd = be_epoll_create1 env;
          t1 = [CSocket, CBind listen_fd (htons (ucast listen_port)), CEpollCreate]
      in if epoll_fd = -1 then ((-1, -1), t1)
         else
           (let t2 = t1 @ [CEpollAdd epoll_fd listen_fd]
            in if be_epoll_ctl env = -1 then ((-1, -1), t2)
               else
                 (let t3 = t2 @ [CFcntl listen_fd]
                  in if SetNonBlocking (be_getfl env) (be_setfl env) \<noteq> 0 then ((-1, -1), t3)
                     else ((listen_fd, epoll_fd), t3 @ [CListen listen_fd kMaxEvents]))))"

subsection \<open>The read loop\<close>

text \<open>\<open>pending\<close> is what the peer has sent and the program has not read yet; \<open>acc\<close> is what this
  loop has read, so \<open>read_index\<close> is its length.\<close>

datatype read_result =
    ReadDone "byte list" "byte list" "nat sys list" \<comment> \<open>bytes read, still pending, rest of the script\<close>
  | ReadError "byte list" \<comment> \<open>a socket error; what is still pending\<close>
  | ReadMore \<comment> \<open>the loop has not ended yet\<close>

fun read_loop :: "nat \<Rightarrow> byte list \<Rightarrow> byte list \<Rightarrow> nat sys list \<Rightarrow> read_result" where
  "read_loop n_left pending acc [] = ReadMore"
| "read_loop n_left pending acc (r # rs) =
     (case r of
        Err e \<Rightarrow>
          (if IsSocketError r then ReadError pending
           else if e = EINTR then
             (if n_left - length acc > 0 then read_loop n_left pending acc rs
              else ReadDone acc pending rs)
           else ReadDone acc pending rs)
      | Ok n \<Rightarrow>
          (let got = take (min n (n_left - length acc)) pending;
               pending' = drop (min n (n_left - length acc)) pending;
               acc' = acc @ got
           in if n_left - length acc' > 0 \<and> got \<noteq> [] then read_loop n_left pending' acc' rs
              else ReadDone acc' pending' rs))"

lemma read_loop_conserves:
  "read_loop n_left pending acc rs = ReadDone acc' pending' rs' \<Longrightarrow>
    acc' @ pending' = acc @ pending \<and> (\<exists>more. acc' = acc @ more)"
proof (induction n_left pending acc rs rule: read_loop.induct)
  case (2 n_left pending acc r rs)
  show ?case
  proof (cases r)
    case (Err e)
    with 2 show ?thesis by (auto split: if_splits)
  next
    case (Ok n)
    let ?k = "min n (n_left - length acc)"
    show ?thesis
    proof (cases "n_left - length (acc @ take ?k pending) > 0 \<and> take ?k pending \<noteq> []")
      case True
      with 2(1) [OF Ok refl refl refl True] 2(3) Ok show ?thesis
        by (auto simp: Let_def)
    next
      case False
      with 2(3) Ok show ?thesis by (auto simp: Let_def simp del: length_append split: if_splits)
    qed
  qed
qed simp

lemma read_loop_bounded:
  "read_loop n_left pending acc rs = ReadDone acc' pending' rs' \<Longrightarrow> length acc \<le> n_left \<Longrightarrow>
    length acc' \<le> n_left"
proof (induction n_left pending acc rs rule: read_loop.induct)
  case (2 n_left pending acc r rs)
  then show ?case by (cases r) (auto simp: Let_def split: if_splits)
qed simp

text \<open>Reads that bring what is pending in pieces of any size.\<close>

lemma read_loop_pieces:
  "list_all ((<) 0) ks \<Longrightarrow> length pending \<le> sum_list ks \<Longrightarrow> length acc + length pending \<le> n \<Longrightarrow>
    \<exists>rs'. read_loop n pending acc (map Ok ks @ [Err EAGAIN]) = ReadDone (acc @ pending) [] rs'"
proof (induction ks arbitrary: pending acc)
  case Nil
  then show ?case by (simp add: IsSocketError_def)
next
  case (Cons k ks)
  show ?case
  proof (cases "n - length acc > length pending \<and> k < length pending")
    case True
    then have "take (min k (n - length acc)) pending \<noteq> []" using Cons.prems(1) by auto
    moreover from Cons.prems True have "\<exists>rs'. read_loop n (drop k pending) (acc @ take k pending) (map Ok ks @ [Err EAGAIN])
        = ReadDone ((acc @ take k pending) @ drop k pending) [] rs'"
      by (intro Cons.IH) auto
    ultimately show ?thesis using True by (auto simp: Let_def min_absorb1)
  next
    case False
    show ?thesis
    proof (cases "k < length pending")
      case True
      with False Cons.prems(3) have n: "n = length acc + length pending" by simp
      from Cons.prems True have "\<exists>rs'. read_loop n (drop k pending) (acc @ take k pending) (map Ok ks @ [Err EAGAIN])
          = ReadDone ((acc @ take k pending) @ drop k pending) [] rs'"
        by (intro Cons.IH) auto
      then show ?thesis using True n Cons.prems(1) by (auto simp: Let_def)
    next
      case False
      then have t: "take (min k (n - length acc)) pending = pending" "drop (min k (n - length acc)) pending = []"
        using Cons.prems(3) by auto
      show ?thesis
      proof (cases "n - length (acc @ pending) > 0 \<and> pending \<noteq> []")
        case True
        have "\<exists>rs'. read_loop n [] (acc @ pending) (map Ok ks @ [Err EAGAIN]) = ReadDone ((acc @ pending) @ []) [] rs'"
          using Cons.prems by (intro Cons.IH) auto
        then show ?thesis using True t by (auto simp: Let_def)
      qed (use t in \<open>auto simp: Let_def\<close>)
    qed
  qed
qed

end
