(* ===== verification/Decimal.thy ===== *)
theory Decimal
  imports Prelude
begin

section \<open>Decimal numbers in text\<close>

text \<open>
  The file header is text: the sender prints two unsigned integers with an
  \<open>ostringstream\<close>, the receiver reads them back with \<open>std::stoul\<close>. Text is a list of bytes,
  the ASCII codes.
\<close>

subsection \<open>Printing\<close>

fun print_nat :: "nat \<Rightarrow> byte list" where
  "print_nat n = (if n < 10 then [of_nat (48 + n)] else print_nat (n div 10) @ [of_nat (48 + n mod 10)])"

declare print_nat.simps [simp del]

subsection \<open>\<open>std::stoul\<close>\<close>

definition is_digit :: "byte \<Rightarrow> bool" where
  "is_digit b = (48 \<le> unat b \<and> unat b < 58)"

definition is_space :: "byte \<Rightarrow> bool" where
  "is_space b = (unat b = 32 \<or> (9 \<le> unat b \<and> unat b \<le> 13))"

definition digits_value :: "byte list \<Rightarrow> nat" where
  "digits_value ds = foldl (\<lambda>v d. v * 10 + (unat d - 48)) 0 ds"

text \<open>\<open>strtoul\<close> in base 10: white space, an optional sign, the longest run of digits. No digit
  is \<open>std::invalid_argument\<close>, a magnitude past \<open>ULONG_MAX\<close> is \<open>std::out_of_range\<close>, and a minus
  sign negates the value modulo \<open>2 ^ 64\<close>.\<close>

definition stoul :: "byte list \<Rightarrow> c_error + u64" where
  "stoul s =
     (let t = dropWhile is_space s;
          neg = (t \<noteq> [] \<and> hd t = 45);
          u = (if t \<noteq> [] \<and> (hd t = 45 \<or> hd t = 43) then tl t else t);
          ds = takeWhile is_digit u
      in if ds = [] then Inl Invalid_argument
         else if digits_value ds \<ge> 2 ^ 64 then Inl Out_of_range
         else Inr (if neg then - of_nat (digits_value ds) else of_nat (digits_value ds)))"

subsection \<open>Reading back what was printed\<close>

lemma unat_digit: "d < 10 \<Longrightarrow> unat (of_nat (48 + d) :: byte) = 48 + d"
  by (subst unat_of_nat) simp

lemma print_nat_digits: "list_all is_digit (print_nat n)"
proof (induction n rule: print_nat.induct)
  case (1 n)
  have "n < 10 \<Longrightarrow> is_digit (of_nat (48 + n))" and "is_digit (of_nat (48 + n mod 10))"
    using unat_digit [of n] unat_digit [of "n mod 10"] by (simp_all only: is_digit_def) simp_all
  with 1 show ?case by (subst print_nat.simps) simp
qed

lemma print_nat_ne: "print_nat n \<noteq> []"
  by (subst print_nat.simps) simp

lemma digits_value_snoc: "digits_value (ds @ [d]) = digits_value ds * 10 + (unat d - 48)"
  by (simp add: digits_value_def)

lemma digits_value_print: "digits_value (print_nat n) = n"
proof (induction n rule: print_nat.induct)
  case (1 n)
  show ?case
  proof (cases "n < 10")
    case True
    have "digits_value [of_nat (48 + n)] = n"
      using unat_digit [OF True] by (simp only: digits_value_def foldl.simps)
    with True show ?thesis by (subst print_nat.simps) simp
  next
    case False
    have "unat (of_nat (48 + n mod 10) :: byte) - 48 = n mod 10"
      using unat_digit [of "n mod 10"] by (simp del: of_nat_add)
    moreover have "digits_value (print_nat (n div 10)) = n div 10" using 1 False by simp
    ultimately have "digits_value (print_nat (n div 10) @ [of_nat (48 + n mod 10)]) = n"
      by (simp only: digits_value_snoc) simp
    with False show ?thesis by (subst print_nat.simps) (simp only: if_False)
  qed
qed

lemma digit_no_space: "is_digit b \<Longrightarrow> \<not> is_space b \<and> b \<noteq> 45 \<and> b \<noteq> 43"
  by (auto simp: is_digit_def is_space_def)

lemma takeWhile_digits_print:
  assumes "rest = [] \<or> \<not> is_digit (hd rest)"
  shows "takeWhile is_digit (print_nat n @ rest) = print_nat n"
  using print_nat_digits [of n] assms
  by (cases rest) (auto simp: takeWhile_append list_all_iff)

lemma stoul_digits:
  assumes "ds \<noteq> []" and "list_all is_digit ds" and "rest = [] \<or> \<not> is_digit (hd rest)"
    and "digits_value ds < 2 ^ 64"
  shows "stoul (ds @ rest) = Inr (of_nat (digits_value ds))"
proof -
  obtain d ds' where ds: "ds = d # ds'" using assms(1) by (cases ds) auto
  then have d: "\<not> is_space d \<and> d \<noteq> 45 \<and> d \<noteq> 43" using assms(2) by (simp add: digit_no_space)
  have "takeWhile is_digit (ds @ rest) = ds"
    using assms(2,3) by (cases rest) (auto simp: takeWhile_append list_all_iff)
  then show ?thesis using assms(1,4) d ds by (simp add: stoul_def Let_def)
qed

lemma stoul_print:
  "n < 2 ^ 64 \<Longrightarrow> rest = [] \<or> \<not> is_digit (hd rest) \<Longrightarrow> stoul (print_nat n @ rest) = Inr (of_nat n)"
  using stoul_digits [OF print_nat_ne print_nat_digits, of rest n] by (simp add: digits_value_print)

text \<open>The number of digits.\<close>

lemma length_print_nat_le: "n < 10 ^ k \<Longrightarrow> 0 < k \<Longrightarrow> length (print_nat n) \<le> k"
proof (induction n arbitrary: k rule: print_nat.induct)
  case (1 n)
  show ?case
  proof (cases "n < 10")
    case True
    then show ?thesis using 1 by (subst print_nat.simps) simp
  next
    case False
    then obtain j where k: "k = Suc j" "0 < j" using 1(2,3) by (cases k; cases "k - 1") auto
    then have "n div 10 < 10 ^ j" using 1(2) by (simp add: less_mult_imp_div_less mult.commute)
    with 1(1) [OF False] k have "length (print_nat (n div 10)) \<le> j" by simp
    with False k show ?thesis by (subst print_nat.simps) simp
  qed
qed

text \<open>More digits, more value.\<close>

lemma digits_value_append: "digits_value es \<le> digits_value (es @ zs)"
proof (induction zs rule: rev_induct)
  case (snoc z zs)
  have "digits_value (es @ zs @ [z]) = digits_value (es @ zs) * 10 + (unat z - 48)"
    using digits_value_snoc [of "es @ zs" z] by simp
  then show ?case using snoc by simp
qed simp

end
