(* ===== verification/File_Slice.thy ===== *)
theory File_Slice
  imports Net_Order
begin

section \<open>File slices (util/file_slice.h)\<close>

text \<open>
  A \<open>FileSlice\<close> names a range of the mapped input file and owns the list of compressed chunks
  made from it, the first of which is the 10-byte slice header. \<open>SplitFile\<close> cuts the file into
  slices and may change the command-line flags while doing so.
\<close>

subsection \<open>Data\<close>

text \<open>A chunk: the bytes its buffer holds and its length. A chunk never uses the part of its
  buffer past \<open>len_\<close>, so \<open>c_mem\<close> holds just the used bytes.\<close>

record chunk =
  c_mem :: "byte list"
  c_size :: u64

text \<open>\<open>slice_\<close> points to the start of the mapped file; the model keeps the mapped bytes.\<close>

record file_slice =
  fs_slice :: "byte list"
  fs_index :: u16
  fs_len :: u64
  fs_split_len :: u64
  fs_c_len :: u64
  fs_compress_buf :: "chunk list"

text \<open>The two command-line flags that \<open>SplitFile\<close> reads and writes.\<close>

record flags =
  segment_size :: s64
  jobs :: s32

subsection \<open>Operations\<close>

definition FileSlice :: "byte list \<Rightarrow> u16 \<Rightarrow> u64 \<Rightarrow> u64 \<Rightarrow> file_slice" where
  "FileSlice buf index len split_len =
     \<lparr>fs_slice = buf, fs_index = index, fs_len = len, fs_split_len = split_len, fs_c_len = 0,
      fs_compress_buf = []\<rparr>"

text \<open>\<open>GetBuf\<close> returns a pointer into the mapped file; here, its offset. The index is promoted
  to \<open>int\<close> and then converted to \<open>size_t\<close>, and the product wraps at 64 bits.\<close>

definition GetBuf :: "file_slice \<Rightarrow> u64" where
  "GetBuf f = ucast (fs_index f) * fs_split_len f"

definition slice_header_len :: nat where
  "slice_header_len = 2 + 2 * 4"

text \<open>The first chunk linked makes the header chunk: index and length are filled in, the
  compressed length stays zero until \<open>SetChunkLinksHeader\<close>.\<close>

definition link_header :: "file_slice \<Rightarrow> chunk" where
  "link_header f =
     (let b = replicate slice_header_len (0 :: byte);
          b = put_bytes b 0 (put_u16 (fs_index f));
          b = put_bytes b 2 (put_u32 (ucast (fs_len f)))
      in \<lparr>c_mem = b, c_size = of_nat slice_header_len\<rparr>)"

definition LinkCompressChunk :: "file_slice \<Rightarrow> chunk \<Rightarrow> file_slice" where
  "LinkCompressChunk f c =
     (let buf = (if fs_compress_buf f = [] then [link_header f] else fs_compress_buf f)
      in f\<lparr>fs_compress_buf := buf @ [c]\<rparr>)"

text \<open>With no chunk linked yet, \<open>begin()\<close> is \<open>end()\<close> and the \<open>memcpy\<close> is out of bounds.\<close>

definition SetChunkLinksHeader :: "file_slice \<Rightarrow> u64 \<Rightarrow> c_error + file_slice" where
  "SetChunkLinksHeader f compressed_size =
     (case fs_compress_buf f of
        [] \<Rightarrow> Inl BadMemory
      | h # cs \<Rightarrow>
          (case mem_write (c_mem h) 6 (put_u32 (ucast compressed_size)) of
             Inl e \<Rightarrow> Inl e
           | Inr m \<Rightarrow> Inr (f\<lparr>fs_c_len := compressed_size,
                             fs_compress_buf := h\<lparr>c_mem := m\<rparr> # cs\<rparr>)))"

subsection \<open>Splitting the file\<close>

definition int_max :: int where
  "int_max = 2147483647"

text \<open>The do-while loop. \<open>None\<close> would mean that it never ends.\<close>

partial_function (option) split_loop ::
    "byte list \<Rightarrow> u64 \<Rightarrow> u64 \<Rightarrow> u64 \<Rightarrow> u16 \<Rightarrow> u64 \<Rightarrow> file_slice list \<Rightarrow> file_slice list option" where
  "split_loop buf buf_size seg rest index f_index res =
     (let slice_size = (if f_index + seg + rest = buf_size then seg + rest else seg);
          res' = res @ [FileSlice buf index slice_size seg];
          f_index' = f_index + slice_size
      in if f_index' < buf_size then split_loop buf buf_size seg rest (index + 1) f_index' res'
         else Some res')"

text \<open>The flags after the two assignments at the top of \<open>SplitFile\<close>. \<open>FLAGS_jobs\<close> is
  sign-extended to \<open>size_t\<close> for the division, the clamp compares signed values, and the new
  number of jobs is truncated to \<open>int\<close>.\<close>

definition split_flags :: "flags \<Rightarrow> u64 \<Rightarrow> c_error + flags" where
  "split_flags fl buf_size =
     (case (if segment_size fl = 0
            then (if jobs fl = 0 then Inl DivByZero
                  else Inr (fl\<lparr>segment_size := buf_size div scast (jobs fl)\<rparr>))
            else Inr fl) of
        Inl e \<Rightarrow> Inl e
      | Inr fl1 \<Rightarrow>
          Inr (if sint (segment_size fl1) > int_max
               then fl1\<lparr>segment_size := word_of_int int_max,
                        jobs := ucast (buf_size div word_of_int int_max)\<rparr>
               else fl1))"

text \<open>The whole function: \<open>Some (Inl _)\<close> when it traps, \<open>Some (Inr _)\<close> when it returns the
  slices and the flags it leaves.\<close>

definition SplitFile ::
    "flags \<Rightarrow> byte list \<Rightarrow> u64 \<Rightarrow> (c_error + file_slice list \<times> flags) option" where
  "SplitFile fl buf buf_size =
     (case split_flags fl buf_size of
        Inl e \<Rightarrow> Some (Inl e)
      | Inr fl' \<Rightarrow>
          (if segment_size fl' = 0 then Some (Inl DivByZero)
           else map_option (\<lambda>res. Inr (res, fl'))
             (split_loop buf buf_size (segment_size fl') (buf_size mod segment_size fl') 0 0 [])))"

subsection \<open>What the loop produces\<close>

text \<open>Slice \<open>i\<close> of a file of \<open>buf_size\<close> bytes cut into segments of \<open>seg\<close> bytes: the last
  slice also takes the rest.\<close>

definition nth_slice :: "byte list \<Rightarrow> u64 \<Rightarrow> u64 \<Rightarrow> nat \<Rightarrow> file_slice" where
  "nth_slice buf buf_size seg i =
     FileSlice buf (of_nat i)
       (if Suc i = unat buf_size div unat seg then seg + buf_size mod seg else seg) seg"

lemma of_nat_u64_eq_iff: "a < 2 ^ 64 \<Longrightarrow> b < 2 ^ 64 \<Longrightarrow> (of_nat a :: u64) = of_nat b \<longleftrightarrow> a = b"
  by (metis unat_u64_of_nat)

lemma of_nat_u64_less_iff: "a < 2 ^ 64 \<Longrightarrow> b < 2 ^ 64 \<Longrightarrow> (of_nat a :: u64) < of_nat b \<longleftrightarrow> a < b"
  by (simp add: word_less_nat_alt unat_u64_of_nat)

lemma of_nat_mod_u64: "(of_nat (unat a mod unat b) :: u64) = a mod b"
  by (metis unat_mod_distrib of_nat_unat ucast_id)

lemma split_loop_from:
  assumes seg: "0 < unat seg" "k < unat buf_size div unat seg"
  shows "split_loop buf buf_size seg (buf_size mod seg) (of_nat k) (of_nat (k * unat seg)) res
    = Some (res @ map (nth_slice buf buf_size seg) [k..<unat buf_size div unat seg])"
  using seg(2)
proof (induction "unat buf_size div unat seg - Suc k" arbitrary: k res)
  case (0 k)
  let ?N = "unat buf_size" and ?S = "unat seg"
  have n: "Suc k = ?N div ?S" using 0 by simp
  then have NS: "k * ?S + ?S + ?N mod ?S = ?N"
    using div_mult_mod_eq [of ?N ?S] by (metis mult_Suc add.commute)
  have w: "(of_nat (k * ?S) :: u64) + seg + buf_size mod seg = buf_size"
    using arg_cong [OF NS, of "of_nat :: nat \<Rightarrow> u64"] by (simp add: of_nat_mod_u64)
  then have "of_nat (k * ?S) + (seg + buf_size mod seg) = buf_size" by (simp add: add.assoc)
  then show ?case using w n
    by (subst split_loop.simps) (simp add: Let_def nth_slice_def flip: n)
next
  case (Suc x k)
  let ?N = "unat buf_size" and ?S = "unat seg"
  have k: "Suc k < ?N div ?S" using Suc.hyps(2) by simp
  then have le: "Suc k * ?S + ?S \<le> ?N" using Suc_times_le [of "Suc k" ?N ?S] by simp
  have mod: "?N mod ?S < ?S" using seg(1) by simp
  have lt: "?N < 2 ^ 64" by (rule unat_u64_less)
  have "k * ?S + ?S + ?N mod ?S < ?N" using le mod by simp
  then have "(of_nat (k * ?S + ?S + ?N mod ?S) :: u64) \<noteq> of_nat ?N"
    using lt by (subst of_nat_u64_eq_iff) simp_all
  then have ne: "(of_nat (k * ?S) :: u64) + seg + buf_size mod seg \<noteq> buf_size"
    by (simp add: of_nat_mod_u64)
  have "(of_nat (Suc k * ?S) :: u64) < of_nat ?N"
    using le lt seg(1) by (subst of_nat_u64_less_iff) simp_all
  then have less: "(of_nat (k * ?S) :: u64) + seg < buf_size" by (simp add: add.commute)
  have nxt: "(of_nat (k * ?S) :: u64) + seg = of_nat (Suc k * ?S)" by (simp add: add.commute)
  have "split_loop buf buf_size seg (buf_size mod seg) (of_nat k) (of_nat (k * ?S)) res
      = split_loop buf buf_size seg (buf_size mod seg) (of_nat (Suc k)) (of_nat (Suc k * ?S))
          (res @ [nth_slice buf buf_size seg k])"
    using ne less k nxt by (subst split_loop.simps) (simp add: Let_def nth_slice_def add.commute)
  also have "\<dots> = Some ((res @ [nth_slice buf buf_size seg k])
      @ map (nth_slice buf buf_size seg) [Suc k..<?N div ?S])"
    using Suc.hyps(2) k by (intro Suc.hyps(1)) simp_all
  finally show ?case using k by (simp add: upt_conv_Cons)
qed

lemma split_loop_tiles:
  assumes "seg \<noteq> 0" and "seg \<le> buf_size"
  shows "split_loop buf buf_size seg (buf_size mod seg) 0 0 []
    = Some (map (nth_slice buf buf_size seg) [0..<unat buf_size div unat seg])"
proof -
  have S: "0 < unat seg" using assms(1) by (simp add: unat_gt_0)
  have "unat seg \<le> unat buf_size" using assms(2) by (simp add: word_le_nat_alt)
  then have "0 < unat buf_size div unat seg" using S by (simp add: div_greater_zero_iff)
  with split_loop_from [OF S, of 0] show ?thesis by simp
qed

text \<open>A segment size above the file size: one slice, longer than the file.\<close>

lemma split_loop_oversize:
  assumes "buf_size < seg"
  shows "split_loop buf buf_size seg (buf_size mod seg) 0 0 [] = Some [FileSlice buf 0 seg seg]"
proof -
  have "seg \<noteq> 0" using assms by auto
  moreover have "buf_size mod seg = buf_size"
    using assms by (simp add: word_less_nat_alt word_unat_eq_iff unat_mod)
  ultimately show ?thesis using assms by (subst split_loop.simps) (simp add: Let_def less_not_sym)
qed

lemma split_loop_returns:
  "seg \<noteq> 0 \<Longrightarrow> \<exists>res. split_loop buf buf_size seg (buf_size mod seg) 0 0 [] = Some res"
  using split_loop_tiles [of seg buf_size] split_loop_oversize [of buf_size seg] by fastforce

subsection \<open>The slices of a file\<close>

definition split_slices :: "flags \<Rightarrow> byte list \<Rightarrow> file_slice list" where
  "split_slices fl data =
     (case SplitFile fl data (of_nat (length data)) of Some (Inr (fs, _)) \<Rightarrow> fs | _ \<Rightarrow> [])"

definition slice_bytes :: "file_slice \<Rightarrow> byte list" where
  "slice_bytes f = get_bytes (fs_slice f) (unat (GetBuf f)) (unat (fs_len f))"

text \<open>The condition under which the split is sound: the file size fits \<open>size_t\<close>, the segment
  size that \<open>SplitFile\<close> settles on is neither zero nor above the file size, and the slices can
  be numbered with 16 bits.\<close>

definition split_ok :: "flags \<times> byte list \<Rightarrow> bool" where
  "split_ok c = (case c of (fl, data) \<Rightarrow>
     length data < 2 ^ 64 \<and>
     (case split_flags fl (of_nat (length data)) of
        Inl _ \<Rightarrow> False
      | Inr fl' \<Rightarrow> segment_size fl' \<noteq> 0 \<and> unat (segment_size fl') \<le> length data \<and>
                  length data div unat (segment_size fl') \<le> 2 ^ 16))"

lemma split_okE:
  assumes "split_ok (fl, data)"
  obtains fl' where "length data < 2 ^ 64" and "split_flags fl (of_nat (length data)) = Inr fl'"
    and "0 < unat (segment_size fl')" and "unat (segment_size fl') \<le> length data"
    and "length data div unat (segment_size fl') \<le> 2 ^ 16"
    and "SplitFile fl data (of_nat (length data)) = Some (Inr (map (nth_slice data (of_nat (length data))
      (segment_size fl')) [0..<length data div unat (segment_size fl')], fl'))"
proof -
  obtain fl' where fl': "split_flags fl (of_nat (length data)) = Inr fl'"
    and len: "length data < 2 ^ 64" and s0: "segment_size fl' \<noteq> 0"
    and s: "unat (segment_size fl') \<le> length data"
    and n: "length data div unat (segment_size fl') \<le> 2 ^ 16"
    using assms by (auto simp: split_ok_def split: sum.splits)
  have u: "unat (of_nat (length data) :: u64) = length data" using len by (rule unat_u64_of_nat)
  have "segment_size fl' \<le> of_nat (length data)" using s u by (simp add: word_le_nat_alt)
  note t = split_loop_tiles [OF s0 this, of data]
  have "SplitFile fl data (of_nat (length data)) = Some (Inr (map (nth_slice data (of_nat (length data))
      (segment_size fl')) [0..<length data div unat (segment_size fl')], fl'))"
    using t fl' s0 u by (simp add: SplitFile_def)
  moreover have "0 < unat (segment_size fl')" using s0 by (simp add: unat_gt_0)
  ultimately show ?thesis using that fl' len s n by blast
qed

lemma nth_slice_layout:
  assumes "0 < unat seg" and "i < unat sz div unat seg" and "unat sz div unat seg \<le> 2 ^ 16"
  shows "unat (GetBuf (nth_slice f sz seg i)) = i * unat seg"
    and "unat (fs_len (nth_slice f sz seg i))
      = (if Suc i = unat sz div unat seg then unat seg + unat sz mod unat seg else unat seg)"
proof -
  let ?S = "unat seg" and ?N = "unat sz"
  have le: "Suc i * ?S \<le> ?N"
    using assms(2) by (rule Suc_times_le)
  have i16: "i < 2 ^ 16" using assms(2,3) by linarith
  have uc: "unat (ucast (of_nat i :: u16) :: u64) = i"
    using i16 by (simp add: unsigned_ucast_eq unat_u16_of_nat take_bit_nat_eq_self)
  have "i * ?S \<le> ?N" using le by simp
  then have "i * ?S < 2 ^ 64" using unat_u64_less [of sz] by linarith
  then show "unat (GetBuf (nth_slice f sz seg i)) = i * ?S"
    by (simp add: GetBuf_def nth_slice_def FileSlice_def unat_u64_mult uc)
  have "?S + ?N mod ?S \<le> ?N" if "Suc i = ?N div ?S"
  proof -
    have "Suc i * ?S + ?N mod ?S = ?N" using that by simp
    then show ?thesis by (simp add: add.commute)
  qed
  then have "unat (seg + sz mod seg) = ?S + ?N mod ?S" if "Suc i = ?N div ?S"
    using that unat_u64_less [of sz] by (simp add: unat_u64_add unat_mod_distrib)
  then show "unat (fs_len (nth_slice f sz seg i))
      = (if Suc i = ?N div ?S then ?S + ?N mod ?S else ?S)"
    by (simp add: nth_slice_def FileSlice_def)
qed

lemma split_slices_nth:
  assumes "split_ok (fl, data)"
  obtains S where "0 < S" and "S \<le> length data" and "length (split_slices fl data) = length data div S"
    and "length data div S \<le> 2 ^ 16"
    and "\<And>i. i < length data div S \<Longrightarrow> fs_slice (split_slices fl data ! i) = data
      \<and> fs_index (split_slices fl data ! i) = of_nat i
      \<and> unat (fs_split_len (split_slices fl data ! i)) = S
      \<and> fs_compress_buf (split_slices fl data ! i) = []
      \<and> unat (GetBuf (split_slices fl data ! i)) = i * S
      \<and> unat (fs_len (split_slices fl data ! i))
          = (if Suc i = length data div S then S + length data mod S else S)"
proof -
  from assms obtain fl' where len: "length data < 2 ^ 64" and S0: "0 < unat (segment_size fl')"
    and S: "unat (segment_size fl') \<le> length data"
    and n: "length data div unat (segment_size fl') \<le> 2 ^ 16"
    and sf: "SplitFile fl data (of_nat (length data)) = Some (Inr (map (nth_slice data (of_nat (length data))
      (segment_size fl')) [0..<length data div unat (segment_size fl')], fl'))"
    by (rule split_okE)
  have u: "unat (of_nat (length data) :: u64) = length data" using len by (rule unat_u64_of_nat)
  have sl: "split_slices fl data = map (nth_slice data (of_nat (length data)) (segment_size fl'))
      [0..<length data div unat (segment_size fl')]"
    using sf by (simp add: split_slices_def)
  show ?thesis
  proof (rule that [OF S0 S _ n])
    show "length (split_slices fl data) = length data div unat (segment_size fl')" by (simp add: sl)
    fix i
    assume i: "i < length data div unat (segment_size fl')"
    then have eq: "split_slices fl data ! i = nth_slice data (of_nat (length data)) (segment_size fl') i"
      by (simp add: sl)
    show "fs_slice (split_slices fl data ! i) = data
      \<and> fs_index (split_slices fl data ! i) = of_nat i
      \<and> unat (fs_split_len (split_slices fl data ! i)) = unat (segment_size fl')
      \<and> fs_compress_buf (split_slices fl data ! i) = []
      \<and> unat (GetBuf (split_slices fl data ! i)) = i * unat (segment_size fl')
      \<and> unat (fs_len (split_slices fl data ! i)) = (if Suc i = length data div unat (segment_size fl')
          then unat (segment_size fl') + length data mod unat (segment_size fl')
          else unat (segment_size fl'))"
      using nth_slice_layout [OF S0, of i "of_nat (length data)"] i n u eq
      by (simp add: nth_slice_def FileSlice_def)
  qed
qed

text \<open>The slices tile the file: the contract of the byte-range interface.\<close>

interpretation slices: tiling split_ok "\<lambda>(fl, data). length (split_slices fl data)"
  "\<lambda>(fl, data) i. unat (GetBuf (split_slices fl data ! i))"
  "\<lambda>(fl, data) i. unat (fs_len (split_slices fl data ! i))" "\<lambda>(fl, data). length data"
proof (unfold_locales, goal_cases)
  case (1 c)
  obtain fl data where c: "c = (fl, data)" by fastforce
  with 1 obtain S where "length (split_slices fl data) = length data div S" "0 < S" "S \<le> length data"
    by (auto elim!: split_slices_nth)
  with c show ?case using div_greater_zero_iff [of "length data" S] by simp
next
  case (2 c)
  obtain fl data where c: "c = (fl, data)" by fastforce
  with 2 show ?case by (auto simp: div_greater_zero_iff elim!: split_slices_nth)
next
  case (3 c i)
  obtain fl data where c: "c = (fl, data)" by fastforce
  with 3 show ?case by (auto elim!: split_slices_nth)
next
  case (4 c i)
  obtain fl data where c: "c = (fl, data)" by fastforce
  from 4(1) c obtain S where "length (split_slices fl data) = length data div S"
    and "i < length data div S \<Longrightarrow> unat (GetBuf (split_slices fl data ! i)) = i * S
      \<and> unat (fs_len (split_slices fl data ! i))
          = (if Suc i = length data div S then S + length data mod S else S)"
    by (auto elim!: split_slices_nth)
  moreover have "i * S + (S + length data mod S) = length data" if "Suc i = length data div S"
    using that by (metis add.assoc add.commute div_mult_mod_eq mult_Suc)
  ultimately show ?case using 4(2) c by simp
qed

subsection \<open>The header chunk\<close>

text \<open>The ten bytes of a slice header.\<close>

definition slice_header :: "u16 \<Rightarrow> u32 \<Rightarrow> u32 \<Rightarrow> byte list" where
  "slice_header index len c_len = put_u16 index @ put_u32 len @ put_u32 c_len"

lemma length_slice_header [simp]: "length (slice_header i l c) = 10"
  by (simp add: slice_header_def wire16.length_enc wire32.length_enc)

lemma put_u32_0: "put_u32 0 = replicate 4 0"
  by (simp add: put_u32_def htonl_def bytes_of_u32_def eval_nat_numeral)

lemma link_header_bytes: "c_mem (link_header f) = slice_header (fs_index f) (ucast (fs_len f)) 0"
  by (simp add: link_header_def slice_header_len_def slice_header_def put_bytes_def Let_def
      wire16.length_enc wire32.length_enc put_u32_0 numeral_eq_Suc)

lemma put_c_len:
  "put_bytes (slice_header i l c) 6 (put_u32 c') = slice_header i l c'"
  by (simp add: slice_header_def put_bytes_def wire16.length_enc wire32.length_enc)

text \<open>What a slice holds once chunks with payload \<open>ps\<close> are linked and the header is set.\<close>

definition linked :: "file_slice \<Rightarrow> byte list list \<Rightarrow> file_slice" where
  "linked f ps = fold (\<lambda>p f. LinkCompressChunk f \<lparr>c_mem = p, c_size = of_nat (length p)\<rparr>) ps f"

lemma linked_fields [simp]:
  "fs_slice (linked f ps) = fs_slice f" "fs_index (linked f ps) = fs_index f"
  "fs_len (linked f ps) = fs_len f" "fs_split_len (linked f ps) = fs_split_len f"
  "fs_c_len (linked f ps) = fs_c_len f"
  by (induction ps arbitrary: f) (simp_all add: linked_def LinkCompressChunk_def Let_def)

lemma linked_snoc:
  "linked f (ps @ [p]) = LinkCompressChunk (linked f ps) \<lparr>c_mem = p, c_size = of_nat (length p)\<rparr>"
  by (simp add: linked_def)

lemma linked_chunks:
  assumes "fs_compress_buf f = []"
  shows "fs_compress_buf (linked f ps)
    = (if ps = [] then [] else link_header f # map (\<lambda>p. \<lparr>c_mem = p, c_size = of_nat (length p)\<rparr>) ps)"
proof (induction ps rule: rev_induct)
  case Nil
  then show ?case using assms by (simp add: linked_def)
next
  case (snoc p ps)
  then show ?case
    by (auto simp: linked_snoc LinkCompressChunk_def Let_def link_header_def)
qed

lemma header_after_links:
  assumes "fs_compress_buf f = []" and "ps \<noteq> []"
  shows "SetChunkLinksHeader (linked f ps) n = Inr ((linked f ps)\<lparr>fs_c_len := n,
    fs_compress_buf := \<lparr>c_mem = slice_header (fs_index f) (ucast (fs_len f)) (ucast n), c_size = 10\<rparr>
      # map (\<lambda>p. \<lparr>c_mem = p, c_size = of_nat (length p)\<rparr>) ps\<rparr>)"
proof -
  have "link_header f = \<lparr>c_mem = slice_header (fs_index f) (ucast (fs_len f)) 0, c_size = 10\<rparr>"
    using link_header_bytes [of f] by (simp add: link_header_def slice_header_len_def Let_def)
  then show ?thesis
    using assms by (simp add: SetChunkLinksHeader_def linked_chunks mem_write_def put_c_len wire32.length_enc)
qed

subsection \<open>Segment sizes the two sides agree on\<close>

text \<open>The receiver is not told the segment size: it divides the file size by the number of
  slices. The quotient is the segment size only when the rest is smaller than that number.\<close>

lemma split_len_agree:
  assumes "0 < S" and "S \<le> (N :: nat)"
  shows "N div (N div S) = S \<longleftrightarrow> N mod S < N div S"
proof -
  have n: "0 < N div S" using assms by (simp add: div_greater_zero_iff)
  have "N mod S + S * (N div S) = N" by simp
  moreover have "(N mod S + S * (N div S)) div (N div S) = S + N mod S div (N div S)"
    using n by (intro div_mult_self1) simp
  ultimately have "N div (N div S) = S + N mod S div (N div S)" by metis
  then show ?thesis using n assms by (simp add: div_eq_0_iff not_less)
qed

lemma default_rest_small:
  assumes "0 < j" and "j \<le> (N :: nat)"
  shows "N mod (N div j) < N div (N div j)"
proof -
  have q: "0 < N div j" using assms by (simp add: div_greater_zero_iff)
  have "j * (N div j) \<le> N" by (simp add: mult.commute)
  then have jn: "j \<le> N div (N div j)" using q by (simp add: less_eq_div_iff_mult_less_eq)
  have r: "N mod j < j" using assms(1) by simp
  have "N mod (N div j) = N mod j mod (N div j)" by (metis mod_mult_self4 div_mult_mod_eq mult.commute mod_add_left_eq mod_mult_self2_is_0 add_0)
  also have "\<dots> \<le> N mod j" by simp
  finally show ?thesis using r jn by simp
qed

lemma default_count_bound:
  assumes "0 < j" and "j \<le> (N :: nat)"
  shows "N div (N div j) < 2 * j"
proof -
  have q: "0 < N div j" using assms by (simp add: div_greater_zero_iff)
  have "N = j * (N div j) + N mod j" by simp
  moreover have "N mod j < j" using assms(1) by simp
  moreover have "j \<le> j * (N div j)" using q by simp
  ultimately have "N < 2 * j * (N div j)" by linarith
  then show ?thesis using q by (simp add: div_less_iff_less_mult)
qed

text \<open>The flags of a run that leaves the segment size to the program.\<close>

lemma split_flags_default:
  assumes "segment_size fl = 0" and "0 < sint (jobs fl)"
    and "unat buf_size div nat (sint (jobs fl)) \<le> 2147483647"
  shows "split_flags fl buf_size = Inr (fl\<lparr>segment_size := buf_size div scast (jobs fl)\<rparr>)"
    and "unat (buf_size div scast (jobs fl) :: u64) = unat buf_size div nat (sint (jobs fl))"
proof -
  have j: "unat (scast (jobs fl) :: u64) = nat (sint (jobs fl))"
    using assms(2) by (simp add: unat_scast_s32)
  show u: "unat (buf_size div scast (jobs fl) :: u64) = unat buf_size div nat (sint (jobs fl))"
    by (simp add: unat_div_distrib j)
  have jn: "jobs fl \<noteq> 0" using assms(2) by auto
  have "sint (buf_size div scast (jobs fl) :: u64) \<le> int_max"
  proof -
    let ?w = "buf_size div scast (jobs fl) :: u64"
    have "unat ?w < 2 ^ 63" using u assms(3) by simp
    then have "sint ?w = int (unat ?w)" by (rule sint_u64_eq_unat)
    then show ?thesis using u assms(3) by (simp add: int_max_def)
  qed
  then show "split_flags fl buf_size = Inr (fl\<lparr>segment_size := buf_size div scast (jobs fl)\<rparr>)"
    using assms(1) jn by (simp add: split_flags_def)
qed

subsection \<open>Properties\<close>

text \<open>(C31) \<open>SplitFile\<close> ends on every input: whatever the flags and the file size, it returns a
  list of slices or stops at a division by zero; its loop never runs forever.\<close>

theorem SplitFile_returns: "\<exists>r. SplitFile fl buf buf_size = Some r"
  using split_loop_returns [of _ buf buf_size]
  by (auto simp: SplitFile_def split: sum.splits)

text \<open>(C8) The slices of a sound split are the file: every slice lies inside the mapped file,
  and reading the slices in the order of the list gives the bytes of the file back.\<close>

theorem SplitFile_partition:
  assumes "split_ok (fl, data)"
  shows "concat (map slice_bytes (split_slices fl data)) = data \<and>
    list_all (\<lambda>f. fs_slice f = data \<and> unat (GetBuf f) + unat (fs_len f) \<le> length data) (split_slices fl data)"
proof
  have sl: "fs_slice (split_slices fl data ! i) = data" if "i < length (split_slices fl data)" for i
    using assms that by (auto elim!: split_slices_nth)
  then have "map slice_bytes (split_slices fl data) = map (\<lambda>i. get_bytes data
      (unat (GetBuf (split_slices fl data ! i))) (unat (fs_len (split_slices fl data ! i))))
      [0..<length (split_slices fl data)]"
    by (intro nth_equalityI) (simp_all add: slice_bytes_def)
  then show "concat (map slice_bytes (split_slices fl data)) = data"
    using slices.concat_pieces [OF assms, of data] by simp
  show "list_all (\<lambda>f. fs_slice f = data \<and> unat (GetBuf f) + unat (fs_len f) \<le> length data) (split_slices fl data)"
    using slices.piece_bound [OF assms] sl by (auto simp: list_all_length)
qed

theorem SplitFile_partition_witness:
  "concat (map slice_bytes (split_slices \<lparr>segment_size = 0, jobs = 3\<rparr> [1, 2, 3, 4, 5, 6, 7, 8]))
    = [1, 2, 3, 4, 5, 6, 7, 8]"
  by (rule SplitFile_partition [THEN conjunct1]) (simp add: split_ok_def split_flags_def int_max_def)

text \<open>The slices can be written back in any order: starting from any buffer as long as the
  file, writing every slice at its own offset, in whatever order and even repeatedly, leaves
  exactly the file.\<close>

theorem SplitFile_any_order:
  assumes "split_ok (fl, data)" and "length out = length data"
    and "set order = {0..<length (split_slices fl data)}"
  shows "fold (\<lambda>i m. put_bytes m (unat (GetBuf (split_slices fl data ! i)))
      (slice_bytes (split_slices fl data ! i))) order out = data"
proof -
  have "slice_bytes (split_slices fl data ! i) = get_bytes data
      (unat (GetBuf (split_slices fl data ! i))) (unat (fs_len (split_slices fl data ! i)))"
    if "i \<in> set order" for i
    using assms(1,3) that by (auto simp: slice_bytes_def elim!: split_slices_nth)
  then have "fold (\<lambda>i m. put_bytes m (unat (GetBuf (split_slices fl data ! i)))
        (slice_bytes (split_slices fl data ! i))) order out
      = fold (\<lambda>i m. put_bytes m (unat (GetBuf (split_slices fl data ! i))) (get_bytes data
        (unat (GetBuf (split_slices fl data ! i))) (unat (fs_len (split_slices fl data ! i))))) order out"
    by (intro fold_cong) simp_all
  then show ?thesis
    using slices.write_all_pieces [OF assms(1), of data out order] assms(2,3) by simp
qed

theorem SplitFile_any_order_witness:
  "fold (\<lambda>i m. put_bytes m (unat (GetBuf (split_slices \<lparr>segment_size = 4, jobs = 1\<rparr> [1, 2, 3, 4, 5, 6, 7, 8, 9] ! i)))
      (slice_bytes (split_slices \<lparr>segment_size = 4, jobs = 1\<rparr> [1, 2, 3, 4, 5, 6, 7, 8, 9] ! i)))
      [1, 0] (replicate 9 0) = [1, 2, 3, 4, 5, 6, 7, 8, 9]"
proof (rule SplitFile_any_order)
  show ok: "split_ok (\<lparr>segment_size = 4, jobs = 1\<rparr>, [1, 2, 3, 4, 5, 6, 7, 8, 9])"
    by (simp add: split_ok_def split_flags_def int_max_def)
  show "set [1, 0] = {0..<length (split_slices \<lparr>segment_size = 4, jobs = 1\<rparr> [1, 2, 3, 4, 5, 6, 7, 8, 9])}"
    by (auto simp: split_slices_def SplitFile_def split_flags_def int_max_def split_loop.simps)
qed simp

text \<open>Left to itself (no segment size given), with at most 32768 jobs, no more jobs than
  bytes and slices of at most \<open>INT_MAX\<close> bytes, the split is sound and the receiver's split
  length is the sender's for every slice.\<close>

theorem SplitFile_default:
  assumes "segment_size fl = 0" and "0 < sint (jobs fl)" and "sint (jobs fl) \<le> 32768"
    and "nat (sint (jobs fl)) \<le> length data" and "length data < 2 ^ 64"
    and "length data div nat (sint (jobs fl)) \<le> 2147483647"
  shows "split_ok (fl, data) \<and>
    list_all (\<lambda>f. unat (fs_split_len f) = length data div length (split_slices fl data)) (split_slices fl data)"
proof -
  let ?j = "nat (sint (jobs fl))" and ?N = "length data" and ?b = "of_nat (length data) :: u64"
  have u: "unat ?b = ?N" using assms(5) by (rule unat_u64_of_nat)
  note fl = split_flags_default [OF assms(1,2), of ?b, unfolded u, OF assms(6)]
  have j: "0 < ?j" and j15: "?j \<le> 32768" using assms(2,3) by simp_all
  have q: "0 < ?N div ?j" using j assms(4) by (simp add: div_greater_zero_iff)
  have ok: "split_ok (fl, data)"
    using fl q default_count_bound [OF j assms(4)] j15 assms(5)
    by (auto simp: split_ok_def simp flip: unat_gt_0)
  have "unat (fs_split_len f) = ?N div length (split_slices fl data)"
    if f: "f \<in> set (split_slices fl data)" for f
  proof -
    from ok obtain fl' where fl': "split_flags fl ?b = Inr fl'"
      and sf: "SplitFile fl data ?b = Some (Inr (map (nth_slice data ?b
        (segment_size fl')) [0..<?N div unat (segment_size fl')], fl'))"
      by (rule split_okE)
    have "unat (segment_size fl') = ?N div ?j" using fl fl' by simp
    then have "unat (fs_split_len f) = ?N div ?j" and "length (split_slices fl data) = ?N div (?N div ?j)"
      using sf f by (auto simp: split_slices_def nth_slice_def FileSlice_def)
    then show ?thesis
      using split_len_agree [OF q, of ?N] default_rest_small [OF j assms(4)] by simp
  qed
  with ok show ?thesis by (simp add: list_all_iff)
qed

theorem SplitFile_default_witness:
  "split_ok (\<lparr>segment_size = 0, jobs = 4\<rparr>, replicate 10 0)"
  by (rule SplitFile_default [THEN conjunct1]) simp_all

text \<open>(C35) A file with fewer bytes than jobs: the segment size comes out as zero and the split
  dies of a division by zero instead of sending the file.\<close>

theorem SplitFile_small_file_traps:
  assumes "segment_size fl = 0" and "int (length data) < sint (jobs fl)"
  shows "SplitFile fl data (of_nat (length data)) = Some (Inl DivByZero)"
proof -
  let ?b = "of_nat (length data) :: u64"
  have "sint (jobs fl) < 2 ^ 31" using sint_lt [of "jobs fl"] by simp
  then have "length data < 2 ^ 64" using assms(2) by simp
  then have u: "unat ?b = length data" by (rule unat_u64_of_nat)
  have j: "0 < sint (jobs fl)" using assms(2) by simp
  have z: "length data div nat (sint (jobs fl)) = 0" using assms(2) by simp
  note fl = split_flags_default [OF assms(1) j, of ?b, unfolded u z, OF le0]
  then show ?thesis by (simp add: SplitFile_def unat_eq_zero)
qed

theorem SplitFile_small_file_traps_witness:
  "SplitFile \<lparr>segment_size = 0, jobs = 8\<rparr> [1, 2, 3] (of_nat (length [1, 2, 3 :: byte])) = Some (Inl DivByZero)"
  by (rule SplitFile_small_file_traps) simp_all

text \<open>A segment size above the file size: the only slice is longer than the file, so
  reading it runs past the end of the mapped file.\<close>

theorem SplitFile_oversize_slice:
  assumes "0 < sint (segment_size fl)" and "sint (segment_size fl) \<le> int_max"
    and "length data < unat (segment_size fl)"
  shows "split_slices fl data = [FileSlice data 0 (segment_size fl) (segment_size fl)]
    \<and> length data < unat (fs_len (split_slices fl data ! 0))"
proof -
  have "length data < 2 ^ 64" using assms(3) unat_u64_less [of "segment_size fl"] by linarith
  then have lt: "of_nat (length data) < segment_size fl"
    using assms(3) by (simp add: word_less_nat_alt unat_u64_of_nat)
  moreover have "segment_size fl \<noteq> 0" using assms(1) by auto
  ultimately have "split_slices fl data = [FileSlice data 0 (segment_size fl) (segment_size fl)]"
    using assms(2) split_loop_oversize [OF lt]
    by (simp add: split_slices_def SplitFile_def split_flags_def)
  with assms(3) show ?thesis by (simp add: FileSlice_def)
qed

theorem SplitFile_oversize_slice_witness:
  "split_slices \<lparr>segment_size = 100, jobs = 1\<rparr> [1, 2, 3] = [FileSlice [1, 2, 3] 0 100 100]"
  by (rule SplitFile_oversize_slice [THEN conjunct1, of "\<lparr>segment_size = 100, jobs = 1\<rparr>", simplified])
    (simp_all add: int_max_def)

end
