(* ===== verification/Zstd_Compress.thy ===== *)
theory Zstd_Compress
  imports File_Slice
begin

section \<open>Compressing a slice (util/zstd_compress.h)\<close>

text \<open>
  \<open>ZSTDCompressUtil::Compress\<close> feeds a slice to the streaming compressor of libzstd piece by
  piece and links every output buffer to the slice. The library is not part of the repository:
  its functions are a parameter of the model, a record of type \<open>zstd_c\<close>, and what the code
  relies on is stated as two predicates on that record, \<open>compressor_contract\<close> and
  \<open>compressor_progress\<close>.
\<close>

subsection \<open>The library as a parameter\<close>

datatype ZSTD_EndDirective = ZSTD_e_continue | ZSTD_e_end
datatype ZSTD_cParameter = ZSTD_c_compressionLevel | ZSTD_c_checksumFlag

text \<open>\<open>None\<close> is a null context or an error code. \<open>ZSTD_compressStream2\<close> is given the capacity of
  the output buffer, the input from \<open>input.pos\<close> on and the mode; it returns the new context, how
  far it advanced \<open>input.pos\<close>, the bytes it put into the output buffer and \<open>remaining\<close>.\<close>

record 'c zstd_c =
  ZSTD_createCCtx :: "'c option"
  ZSTD_CCtx_setParameter :: "'c \<Rightarrow> ZSTD_cParameter \<Rightarrow> int \<Rightarrow> 'c option"
  ZSTD_compressStream2 :: "'c \<Rightarrow> nat \<Rightarrow> byte list \<Rightarrow> ZSTD_EndDirective \<Rightarrow> ('c \<times> nat \<times> byte list \<times> nat) option"
  ZSTD_CStreamInSize :: u64
  ZSTD_CStreamOutSize :: u64

subsection \<open>Static state, Init and Destory\<close>

record compress_args =
  c_level :: int

text \<open>\<open>args_\<close> is null before \<open>Init\<close> and dangling after \<open>Destory\<close>; \<open>None\<close> is both.\<close>

record zstd_util =
  args :: "compress_args option"
  zstd_thread_num :: int

definition zstd_util_start :: zstd_util where
  "zstd_util_start = \<lparr>args = None, zstd_thread_num = 0\<rparr>"

definition ZSTDCompressUtil_Init :: "zstd_util \<Rightarrow> int \<times> zstd_util" where
  "ZSTDCompressUtil_Init u = (0, u\<lparr>args := Some \<lparr>c_level = 1\<rparr>, zstd_thread_num := 2\<rparr>)"

definition ZSTDCompressUtil_Destory :: "zstd_util \<Rightarrow> int \<times> zstd_util" where
  "ZSTDCompressUtil_Destory u = (0, u\<lparr>args := None\<rparr>)"

subsection \<open>The compression loops\<close>

text \<open>The inner do-while: one piece of input, of which \<open>pos\<close> bytes are consumed. \<open>None\<close> is a loop
  that does not end, \<open>Some None\<close> the error return of the library.\<close>

partial_function (option) compress_piece ::
    "'c zstd_c \<Rightarrow> u64 \<Rightarrow> bool \<Rightarrow> byte list \<Rightarrow> 'c \<Rightarrow> nat \<Rightarrow> file_slice \<Rightarrow> u64 \<Rightarrow>
     ('c \<times> file_slice \<times> u64) option option" where
  "compress_piece z buff_out_size last_chunk input cctx pos fs compressed_size =
     (case ZSTD_compressStream2 z cctx (unat buff_out_size) (drop pos input)
             (if last_chunk then ZSTD_e_end else ZSTD_e_continue) of
        None \<Rightarrow> Some None
      | Some (cctx', consumed, out, remaining) \<Rightarrow>
          (let pos' = pos + consumed;
               fs' = LinkCompressChunk fs \<lparr>c_mem = out, c_size = of_nat (length out)\<rparr>;
               compressed_size' = compressed_size + of_nat (length out);
               finished = (if last_chunk then remaining = 0 else pos' = length input)
           in if finished then Some (Some (cctx', fs', compressed_size'))
              else compress_piece z buff_out_size last_chunk input cctx' pos' fs' compressed_size'))"

text \<open>The outer loop over the pieces of the slice. A piece that is not inside the mapped file is a
  bad memory access.\<close>

partial_function (option) compress_loop ::
    "'c zstd_c \<Rightarrow> u64 \<Rightarrow> u64 \<Rightarrow> 'c \<Rightarrow> u64 \<Rightarrow> file_slice \<Rightarrow> u64 \<Rightarrow> (c_error + file_slice option) option" where
  "compress_loop z buff_in_size buff_out_size cctx index fs compressed_size =
     (let slice_len = fs_len fs;
          last_chunk = (index + buff_in_size \<ge> slice_len);
          act_buff_in_size = (if last_chunk then slice_len - index else buff_in_size)
      in case mem_read (fs_slice fs) (unat (GetBuf fs) + unat index) (unat act_buff_in_size) of
           Inl e \<Rightarrow> Some (Inl e)
         | Inr input \<Rightarrow>
             Option.bind (compress_piece z buff_out_size last_chunk input cctx 0 fs compressed_size)
               (\<lambda>r. case r of
                  None \<Rightarrow> Some (Inr None)
                | Some (cctx', fs', compressed_size') \<Rightarrow>
                    (if last_chunk
                     then Some (map_sum id Some (SetChunkLinksHeader fs' compressed_size'))
                     else compress_loop z buff_in_size buff_out_size cctx' (index + act_buff_in_size)
                            fs' compressed_size')))"

text \<open>\<open>Compress\<close>: \<open>Inr None\<close> is the null pointer it returns on failure, \<open>Inr (Some f)\<close> a non-null
  pointer with the slice as it is left. The level is read through \<open>args_\<close>.\<close>

definition Compress :: "'c zstd_c \<Rightarrow> zstd_util \<Rightarrow> file_slice \<Rightarrow> (c_error + file_slice option) option" where
  "Compress z u fs =
     (let small = fs_len fs < 1024 * 1024;
          buff_in_size = (if small then ZSTD_CStreamInSize z else 6815744);
          buff_out_size = (if small then ZSTD_CStreamOutSize z else 4 * 1024 * 1024)
      in case ZSTD_createCCtx z of
           None \<Rightarrow> Some (Inr None)
         | Some cctx \<Rightarrow>
             (case args u of
                None \<Rightarrow> Some (Inl UseAfterFree)
              | Some a \<Rightarrow>
                  (case ZSTD_CCtx_setParameter z cctx ZSTD_c_compressionLevel (c_level a) of
                     None \<Rightarrow> Some (Inr None)
                   | Some cctx1 \<Rightarrow>
                       (case ZSTD_CCtx_setParameter z cctx1 ZSTD_c_checksumFlag 0 of
                          None \<Rightarrow> Some (Inr None)
                        | Some cctx2 \<Rightarrow>
                            compress_loop z buff_in_size buff_out_size cctx2 0 fs 0))))"

subsection \<open>What the code relies on\<close>

text \<open>\<open>taken c\<close> and \<open>given c\<close> are the bytes a context has consumed and produced, and
  \<open>frame x y\<close> says that \<open>y\<close> is a complete frame for the content \<open>x\<close>. Documented for
  \<open>ZSTD_compressStream2\<close>: it stays inside both buffers, and with \<open>ZSTD_e_end\<close> a result of zero
  means that all input is consumed and the frame is complete and flushed. The recommended buffer
  sizes are small positive constants.\<close>

definition compressor_contract ::
    "'c zstd_c \<Rightarrow> ('c \<Rightarrow> byte list) \<Rightarrow> ('c \<Rightarrow> byte list) \<Rightarrow> (byte list \<Rightarrow> byte list \<Rightarrow> bool) \<Rightarrow> bool" where
  "compressor_contract z taken given frame \<longleftrightarrow>
     0 < ZSTD_CStreamInSize z \<and> ZSTD_CStreamInSize z \<le> 2 ^ 32 \<and> 0 < ZSTD_CStreamOutSize z \<and>
     ZSTD_CStreamOutSize z \<le> 2 ^ 30 \<and>
     (\<forall>c. ZSTD_createCCtx z = Some c \<longrightarrow> taken c = [] \<and> given c = []) \<and>
     (\<forall>c p v c'. ZSTD_CCtx_setParameter z c p v = Some c' \<longrightarrow> taken c' = taken c \<and> given c' = given c) \<and>
     (\<forall>c cap inp m c' k out rem. ZSTD_compressStream2 z c cap inp m = Some (c', k, out, rem) \<longrightarrow>
        k \<le> length inp \<and> length out \<le> cap \<and> taken c' = taken c @ take k inp \<and> given c' = given c @ out \<and>
        (m = ZSTD_e_end \<and> rem = 0 \<longrightarrow> k = length inp \<and> frame (taken c') (given c')))"

text \<open>Documented too: each call makes progress, by consuming input or by flushing some of the
  \<open>pending\<close> output the context holds; here also that no call fails.\<close>

definition compressor_progress :: "'c zstd_c \<Rightarrow> ('c \<Rightarrow> nat) \<Rightarrow> bool" where
  "compressor_progress z pending \<longleftrightarrow>
     (\<exists>c. ZSTD_createCCtx z = Some c) \<and>
     (\<forall>c p v. \<exists>c'. ZSTD_CCtx_setParameter z c p v = Some c') \<and>
     (\<forall>c cap inp m. 0 < cap \<longrightarrow> (\<exists>c' k out rem. ZSTD_compressStream2 z c cap inp m = Some (c', k, out, rem) \<and>
        k \<le> length inp \<and>
        (m = ZSTD_e_continue \<and> inp \<noteq> [] \<or> m = ZSTD_e_end \<and> rem \<noteq> 0 \<longrightarrow> 0 < k \<or> pending c' < pending c)))"

lemma compressor_step:
  assumes "compressor_contract z taken given frame" and "ZSTD_compressStream2 z c cap inp m = Some (c', k, out, rem)"
  shows "k \<le> length inp" and "length out \<le> cap" and "taken c' = taken c @ take k inp"
    and "given c' = given c @ out" and "m = ZSTD_e_end \<Longrightarrow> rem = 0 \<Longrightarrow> k = length inp"
    and "m = ZSTD_e_end \<Longrightarrow> rem = 0 \<Longrightarrow> frame (taken c') (given c')"
  using assms unfolding compressor_contract_def by blast+

subsection \<open>What the loops compute\<close>

lemma drop_take_drop: "k \<le> length (drop pos xs) \<Longrightarrow> take k (drop pos xs) @ drop (pos + k) xs = drop pos xs"
  by (metis add.commute append_take_drop_id drop_drop)

text \<open>The inner loop as a contract: started on a slice that has the payloads \<open>ps\<close> linked, it links
  at least one more, has the library take the rest of the piece, and on the last piece ends the
  frame.\<close>

definition piece_post where
  "piece_post taken given frame (osz :: u64) fs0 lst input cctx pos fs cs r \<longleftrightarrow>
     (\<forall>ps c' fs' cs'. fs = linked fs0 ps \<and> given cctx = concat ps \<and> cs = of_nat (length (concat ps)) \<and>
        pos \<le> length input \<and> r = Some (c', fs', cs') \<longrightarrow>
        (\<exists>qs. qs \<noteq> [] \<and> list_all (\<lambda>q. length q \<le> unat osz) qs \<and>
           fs' = linked fs0 (ps @ qs) \<and> given c' = concat (ps @ qs) \<and>
           cs' = (of_nat (length (concat (ps @ qs))) :: u64) \<and> taken c' = taken cctx @ drop pos input \<and>
           (lst \<longrightarrow> frame (taken c') (given c'))))"

lemma piece_post_done:
  assumes "compressor_contract z taken given frame"
    and "ZSTD_compressStream2 z cctx (unat osz) (drop pos input) (if lst then ZSTD_e_end else ZSTD_e_continue)
      = Some (c1, k, out, rem)"
    and "if lst then rem = 0 else pos + k = length input"
  shows "piece_post taken given frame osz fs0 lst input cctx pos fs cs
    (Some (c1, LinkCompressChunk fs \<lparr>c_mem = out, c_size = of_nat (length out)\<rparr>, cs + of_nat (length out)))"
proof -
  note st = compressor_step [OF assms(1,2)]
  have "k = length (drop pos input)" using assms(3) st(5) by (cases lst) auto
  then show ?thesis
    unfolding piece_post_def using st(2,3,4,6) assms(3)
    by (auto intro!: exI [of _ "[out]"] simp: linked_snoc)
qed

lemma piece_post_step:
  assumes "compressor_contract z taken given frame"
    and "ZSTD_compressStream2 z cctx (unat osz) (drop pos input) m = Some (c1, k, out, rem)"
    and "piece_post taken given frame osz fs0 lst input c1 (pos + k)
      (LinkCompressChunk fs \<lparr>c_mem = out, c_size = of_nat (length out)\<rparr>) (cs + of_nat (length out)) r"
  shows "piece_post taken given frame osz fs0 lst input cctx pos fs cs r"
  unfolding piece_post_def
proof (intro allI impI, elim conjE)
  fix ps c' fs' cs'
  assume fs: "fs = linked fs0 ps" "given cctx = concat ps" "cs = of_nat (length (concat ps))"
    "pos \<le> length input" "r = Some (c', fs', cs')"
  note st = compressor_step [OF assms(1,2)]
  have "LinkCompressChunk fs \<lparr>c_mem = out, c_size = of_nat (length out)\<rparr> = linked fs0 (ps @ [out])"
    "given c1 = concat (ps @ [out])" "cs + of_nat (length out) = of_nat (length (concat (ps @ [out])))"
    "pos + k \<le> length input"
    using st fs by (simp_all add: linked_snoc)
  with assms(3) fs(5) obtain qs where "list_all (\<lambda>q. length q \<le> unat osz) qs" "fs' = linked fs0 ((ps @ [out]) @ qs)"
    "given c' = concat ((ps @ [out]) @ qs)" "cs' = of_nat (length (concat ((ps @ [out]) @ qs)))"
    "taken c' = taken c1 @ drop (pos + k) input" "lst \<longrightarrow> frame (taken c') (given c')"
    unfolding piece_post_def by blast
  then show "\<exists>qs. qs \<noteq> [] \<and> list_all (\<lambda>q. length q \<le> unat osz) qs \<and> fs' = linked fs0 (ps @ qs) \<and> given c' = concat (ps @ qs) \<and>
      cs' = of_nat (length (concat (ps @ qs))) \<and> taken c' = taken cctx @ drop pos input \<and>
      (lst \<longrightarrow> frame (taken c') (given c'))"
    using st(2,3) drop_take_drop [OF st(1)] by (intro exI [of _ "out # qs"]) auto
qed

lemma compress_piece_content:
  assumes ct: "compressor_contract z taken given frame"
    and ret: "compress_piece z osz lst input cctx pos fs cs = Some r"
  shows "piece_post taken given frame osz fs0 lst input cctx pos fs cs r"
proof -
  have "compressor_contract z taken given frame \<longrightarrow> piece_post taken given frame osz fs0 lst input cctx pos fs cs r"
    by (rule compress_piece.raw_induct [where P = "\<lambda>z osz lst input cctx pos fs cs r.
        compressor_contract z taken given frame \<longrightarrow> piece_post taken given frame osz fs0 lst input cctx pos fs cs r",
        OF _ ret])
      (auto simp: Let_def piece_post_def [where r = None] split: option.splits prod.splits if_splits
        intro: piece_post_step piece_post_done)
  with ct show ?thesis by blast
qed

text \<open>The outer loop as a contract, from the position \<open>index\<close> in the slice on.\<close>

definition loop_post where
  "loop_post taken given frame osz fs0 (insz :: u64) cctx (index :: u64) fs cs r \<longleftrightarrow>
     (\<forall>ps f'. fs = linked fs0 ps \<and> given cctx = concat ps \<and> cs = (of_nat (length (concat ps)) :: u64) \<and>
        taken cctx = get_bytes (fs_slice fs0) (unat (GetBuf fs0)) (unat index) \<and>
        unat index \<le> unat (fs_len fs0) \<and> unat (fs_len fs0) + unat insz < 2 ^ 64 \<and> r = Inr (Some f') \<longrightarrow>
        (\<exists>qs. qs \<noteq> [] \<and> list_all (\<lambda>q. length q \<le> unat osz) qs \<and> frame (slice_bytes fs0) (concat (ps @ qs)) \<and>
           SetChunkLinksHeader (linked fs0 (ps @ qs)) (of_nat (length (concat (ps @ qs)))) = Inr f'))"

lemma GetBuf_linked [simp]: "GetBuf (linked f ps) = GetBuf f"
  by (simp add: GetBuf_def)

lemma loop_post_step:
  assumes ct: "compressor_contract z taken given frame"
    and "lst \<longleftrightarrow> index + insz \<ge> fs_len fs" and "act = (if lst then fs_len fs - index else insz)"
    and rd: "mem_read (fs_slice fs) (unat (GetBuf fs) + unat index) (unat act) = Inr input"
    and pc: "compress_piece z osz lst input cctx 0 fs cs = Some (Some (c1, fs1, cs1))"
    and nxt: "if lst then r = map_sum id Some (SetChunkLinksHeader fs1 cs1)
      else loop_post taken given frame osz fs0 insz c1 (index + act) fs1 cs1 r"
  shows "loop_post taken given frame osz fs0 insz cctx index fs cs r"
  unfolding loop_post_def
proof (intro allI impI, elim conjE)
  fix ps f'
  assume fs: "fs = linked fs0 ps" "given cctx = concat ps" "cs = of_nat (length (concat ps))"
    and tk: "taken cctx = get_bytes (fs_slice fs0) (unat (GetBuf fs0)) (unat index)"
    and bd: "unat index \<le> unat (fs_len fs0)" "unat (fs_len fs0) + unat insz < 2 ^ 64"
    and r: "r = Inr (Some f')"
  from compress_piece_content [OF ct pc, of fs0, unfolded piece_post_def, rule_format, of ps c1 fs1 cs1] fs
  obtain qs where qs: "qs \<noteq> []"
    "fs1 = linked fs0 (ps @ qs)" "given c1 = concat (ps @ qs)" "cs1 = of_nat (length (concat (ps @ qs)))"
    "taken c1 = taken cctx @ input" "lst \<longrightarrow> frame (taken c1) (given c1)"
    "list_all (\<lambda>q. length q \<le> unat osz) qs"
    by auto
  have sum: "unat (index + insz) = unat index + unat insz"
    using bd by (intro unat_u64_add) linarith
  have lst: "lst \<longleftrightarrow> unat (fs_len fs0) \<le> unat index + unat insz"
    using assms(2) fs(1) sum by (simp add: word_le_nat_alt)
  have act: "unat index + unat act = (if lst then unat (fs_len fs0) else unat index + unat insz)"
    using assms(3) fs(1) bd(1) by (simp add: unat_sub word_le_nat_alt)
  have inp: "input = get_bytes (fs_slice fs0) (unat (GetBuf fs0) + unat index) (unat act)"
    using rd fs(1) by (auto simp: mem_read_def split: if_splits)
  have tk1: "taken c1 = get_bytes (fs_slice fs0) (unat (GetBuf fs0)) (unat index + unat act)"
    using qs(5) tk inp by (simp add: get_bytes_append)
  show "\<exists>qs. qs \<noteq> [] \<and> list_all (\<lambda>q. length q \<le> unat osz) qs \<and> frame (slice_bytes fs0) (concat (ps @ qs)) \<and>
      SetChunkLinksHeader (linked fs0 (ps @ qs)) (of_nat (length (concat (ps @ qs)))) = Inr f'"
  proof (cases lst)
    case True
    then have "SetChunkLinksHeader fs1 cs1 = Inr f'"
      using nxt r by (cases "SetChunkLinksHeader fs1 cs1") auto
    then show ?thesis using True qs tk1 act by (intro exI [of _ qs]) (simp add: slice_bytes_def)
  next
    case False
    have "unat (index + act) = unat index + unat act" using False sum assms(3) by simp
    moreover have "unat index + unat act \<le> unat (fs_len fs0)" using act lst False by simp
    ultimately obtain qs' where "list_all (\<lambda>q. length q \<le> unat osz) qs'" "frame (slice_bytes fs0) (concat ((ps @ qs) @ qs'))"
      "SetChunkLinksHeader (linked fs0 ((ps @ qs) @ qs')) (of_nat (length (concat ((ps @ qs) @ qs')))) = Inr f'"
      using nxt False qs(2-4) tk1 bd r
        loop_post_def [THEN iffD1, rule_format, of taken given frame osz fs0 insz c1 "index + act" fs1 cs1 r "ps @ qs" f']
      by auto
    then show ?thesis using qs(1,7) by (intro exI [of _ "qs @ qs'"]) simp
  qed
qed

lemma compress_loop_content:
  assumes ct: "compressor_contract z taken given frame"
    and ret: "compress_loop z insz osz cctx index fs cs = Some r"
  shows "loop_post taken given frame osz fs0 insz cctx index fs cs r"
proof -
  have "compressor_contract z taken given frame \<longrightarrow> loop_post taken given frame osz fs0 insz cctx index fs cs r"
  proof (rule compress_loop.raw_induct [where P = "\<lambda>z insz osz cctx index fs cs r.
      compressor_contract z taken given frame \<longrightarrow> loop_post taken given frame osz fs0 insz cctx index fs cs r",
      OF _ ret], rule impI, goal_cases)
    case (1 f z insz osz cctx index fs cs r)
    let ?lst = "index + insz \<ge> fs_len fs"
    let ?act = "if ?lst then fs_len fs - index else insz"
    show ?case
    proof (cases "mem_read (fs_slice fs) (unat (GetBuf fs) + unat index) (unat ?act)")
      case (Inl e)
      then have "r = Inl e" using 1(2) by (simp add: Let_def)
      then show ?thesis by (simp add: loop_post_def)
    next
      case (Inr input)
      with 1(2) obtain p where p: "compress_piece z osz ?lst input cctx 0 fs cs = Some p"
        by (auto simp: Let_def bind_eq_Some_conv)
      show ?thesis
      proof (cases p)
        case None
        then have "r = Inr None" using 1(2) Inr p by (simp add: Let_def)
        then show ?thesis by (simp add: loop_post_def)
      next
        case (Some t)
        obtain c1 fs1 cs1 where t: "t = (c1, fs1, cs1)" by (cases t)
        show ?thesis
          by (rule loop_post_step [OF 1(3) refl refl Inr p [unfolded Some t]])
            (use 1(1,2,3) Inr p Some t in \<open>auto simp: Let_def\<close>)
      qed
    qed
  qed
  with ct show ?thesis by blast
qed

subsection \<open>The loops end\<close>

lemma progress_step:
  assumes "compressor_progress z pending" and "0 < cap"
  obtains c' k out rem where "ZSTD_compressStream2 z c cap inp m = Some (c', k, out, rem)" and "k \<le> length inp"
    and "m = ZSTD_e_continue \<Longrightarrow> inp \<noteq> [] \<Longrightarrow> 0 < k \<or> pending c' < pending c"
    and "m = ZSTD_e_end \<Longrightarrow> rem \<noteq> 0 \<Longrightarrow> 0 < k \<or> pending c' < pending c"
  using assms unfolding compressor_progress_def by blast

lemma compress_piece_returns:
  assumes pr: "compressor_progress z pending" and "0 < unat osz"
  shows "(lst \<or> pos < length input) \<Longrightarrow> pos \<le> length input \<Longrightarrow>
    \<exists>t. compress_piece z osz lst input c pos fs cs = Some (Some t)"
proof (induction "(c, pos)" arbitrary: c pos fs cs
    rule: wf_induct_rule [OF wf_measures [of "[\<lambda>(c, pos). length input - pos, \<lambda>(c, pos). pending c]"]])
  case 1
  let ?m = "if lst then ZSTD_e_end else ZSTD_e_continue"
  obtain c' k out rem where zs: "ZSTD_compressStream2 z c (unat osz) (drop pos input) ?m = Some (c', k, out, rem)"
    and k: "k \<le> length (drop pos input)"
    and pg: "?m = ZSTD_e_continue \<Longrightarrow> drop pos input \<noteq> [] \<Longrightarrow> 0 < k \<or> pending c' < pending c"
      "?m = ZSTD_e_end \<Longrightarrow> rem \<noteq> 0 \<Longrightarrow> 0 < k \<or> pending c' < pending c"
    using progress_step [OF pr assms(2), of c "drop pos input" ?m] by blast
  show ?case
  proof (cases "if lst then rem = 0 else pos + k = length input")
    case True
    with zs show ?thesis by (subst compress_piece.simps) (auto simp: Let_def)
  next
    case False
    have dec: "0 < k \<or> pending c' < pending c" using False pg 1(2) by (cases lst) auto
    have "((c', pos + k), (c, pos)) \<in> measures [\<lambda>(c, pos). length input - pos, \<lambda>(c, pos). pending c]"
      using dec k 1(3) by (cases "k = 0") auto
    moreover have "lst \<or> pos + k < length input" and "pos + k \<le> length input"
      using False k 1(3) by (auto split: if_splits)
    ultimately obtain t where "compress_piece z osz lst input c' (pos + k)
        (LinkCompressChunk fs \<lparr>c_mem = out, c_size = of_nat (length out)\<rparr>) (cs + of_nat (length out)) = Some (Some t)"
      using 1(1) by blast
    then show ?thesis using zs False by (cases t) (subst compress_piece.simps, simp add: Let_def)
  qed
qed

lemma compress_loop_returns:
  assumes ct: "compressor_contract z taken given frame" and pr: "compressor_progress z pending"
    and sz: "0 < unat osz" "0 < unat insz" "unat (fs_len fs0) + unat insz < 2 ^ 64"
    and fs0: "fs_compress_buf fs0 = []" "unat (GetBuf fs0) + unat (fs_len fs0) \<le> length (fs_slice fs0)"
  shows "unat index \<le> unat (fs_len fs0) \<Longrightarrow> given c = concat ps \<Longrightarrow> cs = of_nat (length (concat ps)) \<Longrightarrow>
    \<exists>f'. compress_loop z insz osz c index (linked fs0 ps) cs = Some (Inr (Some f'))"
proof (induction "unat (fs_len fs0) - unat index" arbitrary: c index ps cs rule: less_induct)
  case less
  let ?fs = "linked fs0 ps"
  let ?lst = "index + insz \<ge> fs_len fs0"
  let ?act = "if ?lst then fs_len fs0 - index else insz"
  have sum: "unat (index + insz) = unat index + unat insz"
    using less.prems(1) sz(3) by (intro unat_u64_add) linarith
  have lst: "?lst \<longleftrightarrow> unat (fs_len fs0) \<le> unat index + unat insz" using sum by (simp add: word_le_nat_alt)
  have act: "unat index + unat ?act = (if ?lst then unat (fs_len fs0) else unat index + unat insz)"
    using less.prems(1) by (simp add: unat_sub word_le_nat_alt)
  then have le: "unat index + unat ?act \<le> unat (fs_len fs0)" using lst by (auto split: if_splits)
  define input where "input = get_bytes (fs_slice fs0) (unat (GetBuf fs0) + unat index) (unat ?act)"
  have rd: "mem_read (fs_slice fs0) (unat (GetBuf fs0) + unat index) (unat ?act) = Inr input"
    using le fs0(2) by (simp add: mem_read_def input_def)
  have len: "length input = unat ?act" using le fs0(2) by (simp add: input_def length_get_bytes)
  have "?lst \<or> 0 < length input" using len sz(2) by auto
  then obtain c1 fs1 cs1 where pc: "compress_piece z osz ?lst input c 0 ?fs cs = Some (Some (c1, fs1, cs1))"
    using compress_piece_returns [OF pr sz(1), of ?lst 0 input c ?fs cs] by auto
  from compress_piece_content [OF ct pc, of fs0, unfolded piece_post_def, rule_format, of ps c1 fs1 cs1] less.prems
  obtain qs where qs: "qs \<noteq> []" "fs1 = linked fs0 (ps @ qs)" "given c1 = concat (ps @ qs)"
    "cs1 = of_nat (length (concat (ps @ qs)))" by auto
  have unf: "compress_loop z insz osz c index ?fs cs = (if ?lst then Some (map_sum id Some (SetChunkLinksHeader fs1 cs1))
      else compress_loop z insz osz c1 (index + ?act) fs1 cs1)"
    using rd pc by (subst compress_loop.simps) (simp add: Let_def)
  show ?case
  proof (cases ?lst)
    case True
    have "\<exists>f'. SetChunkLinksHeader fs1 cs1 = Inr f'"
      using header_after_links [OF fs0(1), of "ps @ qs"] qs by auto
    with True show ?thesis using unf by auto
  next
    case False
    have ix: "unat (index + ?act) = unat index + unat insz" using False sum by simp
    then have "unat (fs_len fs0) - unat (index + ?act) < unat (fs_len fs0) - unat index"
      and "unat (index + ?act) \<le> unat (fs_len fs0)"
      using False lst sz(2) by linarith+
    then have "\<exists>f'. compress_loop z insz osz c1 (index + ?act) (linked fs0 (ps @ qs)) cs1 = Some (Inr (Some f'))"
      using qs by (intro less.hyps) simp_all
    then show ?thesis using unf False qs(2) by simp
  qed
qed

subsection \<open>A library that stores\<close>

text \<open>The contract can be met: a compressor whose frames are the contents themselves. It buffers its
  input while the stream continues and flushes at the end. The witnesses below run the code with
  it, with buffers of a few bytes so that both loops go round.\<close>

definition store_c :: "(byte list \<times> byte list) zstd_c" where
  "store_c = \<lparr>ZSTD_createCCtx = Some ([], []),
     ZSTD_CCtx_setParameter = (\<lambda>c p v. Some c),
     ZSTD_compressStream2 = (\<lambda>(g, b) cap inp m.
       case m of
         ZSTD_e_continue \<Rightarrow> Some ((g, b @ inp), length inp, [], length (b @ inp))
       | ZSTD_e_end \<Rightarrow> Some ((g @ take cap (b @ inp), drop cap (b @ inp)), length inp, take cap (b @ inp),
                           length (drop cap (b @ inp)))),
     ZSTD_CStreamInSize = 4,
     ZSTD_CStreamOutSize = 3\<rparr>"

lemma store_c_contract: "compressor_contract store_c (\<lambda>(g, b). g @ b) fst (=)"
  by (auto simp: compressor_contract_def store_c_def simp del: take_append drop_append
      split: ZSTD_EndDirective.splits)

lemma store_c_progress: "compressor_progress store_c (\<lambda>(g, b). length b)"
  by (auto simp: compressor_progress_def store_c_def split: ZSTD_EndDirective.splits)

subsection \<open>Properties\<close>

text \<open>A slice whose compressed form is the payloads \<open>ps\<close>: the header chunk, filled in, and one chunk
  per payload.\<close>

definition compressed_slice :: "file_slice \<Rightarrow> byte list list \<Rightarrow> file_slice" where
  "compressed_slice f ps = (linked f ps)\<lparr>fs_c_len := of_nat (length (concat ps)),
     fs_compress_buf := \<lparr>c_mem = slice_header (fs_index f) (ucast (fs_len f)) (ucast (of_nat (length (concat ps)) :: u64)),
                         c_size = 10\<rparr>
       # map (\<lambda>p. \<lparr>c_mem = p, c_size = of_nat (length p)\<rparr>) ps\<rparr>"

text \<open>The setup before the loop: buffer sizes that are positive and small, a fresh context.\<close>

lemma Compress_setup:
  assumes "compressor_contract z taken given frame" and "Compress z u fs = Some (Inr (Some f'))"
  obtains c insz osz where "compress_loop z insz osz c 0 fs 0 = Some (Inr (Some f'))"
    and "taken c = []" and "given c = []" and "unat insz \<le> 2 ^ 32" and "unat osz \<le> 2 ^ 30"
proof -
  have "unat (ZSTD_CStreamInSize z) \<le> unat (2 ^ 32 :: u64)" and "unat (ZSTD_CStreamOutSize z) \<le> unat (2 ^ 30 :: u64)"
    using assms(1) by (simp_all add: compressor_contract_def word_le_nat_alt)
  then have "unat (ZSTD_CStreamInSize z) \<le> 2 ^ 32" and "unat (ZSTD_CStreamOutSize z) \<le> 2 ^ 30" by simp_all
  then show ?thesis using assms that
    unfolding compressor_contract_def Compress_def
    by (auto simp: Let_def split: option.splits if_splits)
qed

lemma loop_post_start:
  assumes "loop_post taken given frame osz fs insz c 0 fs 0 (Inr (Some f'))" and "taken c = []" and "given c = []"
    and "unat (fs_len fs) + unat insz < 2 ^ 64" and "fs_compress_buf fs = []"
  shows "\<exists>ps. ps \<noteq> [] \<and> list_all (\<lambda>p. length p \<le> unat osz) ps \<and> f' = compressed_slice fs ps \<and> frame (slice_bytes fs) (concat ps)"
proof -
  have "linked fs [] = fs" by (simp add: linked_def)
  with assms(1-4) loop_post_def [THEN iffD1, rule_format, of taken given frame osz fs insz c 0 fs 0 _ "[]" f']
  obtain qs where qs: "qs \<noteq> []" "list_all (\<lambda>q. length q \<le> unat osz) qs" "frame (slice_bytes fs) (concat qs)"
    "SetChunkLinksHeader (linked fs qs) (of_nat (length (concat qs))) = Inr f'"
    by (auto simp: mem_simps)
  then show ?thesis
    using header_after_links [OF assms(5) qs(1)] by (intro exI [of _ qs]) (simp add: compressed_slice_def)
qed

lemma Compress_payloads:
  assumes "compressor_contract z taken given frame" and "Compress z u fs = Some (Inr (Some f'))"
    and "fs_compress_buf fs = []" and "unat (fs_len fs) < 2 ^ 63"
  shows "\<exists>ps. ps \<noteq> [] \<and> list_all (\<lambda>p. length p \<le> 2 ^ 30) ps \<and> f' = compressed_slice fs ps
    \<and> frame (slice_bytes fs) (concat ps)"
proof -
  obtain c insz osz where lp: "compress_loop z insz osz c 0 fs 0 = Some (Inr (Some f'))"
    and c: "taken c = []" "given c = []" and insz: "unat insz \<le> 2 ^ 32" and osz: "unat osz \<le> 2 ^ 30"
    using assms(1,2) by (rule Compress_setup)
  have "unat (fs_len fs) + unat insz < 2 ^ 64" using insz assms(4) by simp
  from loop_post_start [OF compress_loop_content [OF assms(1) lp] c this assms(3)]
  obtain ps where "ps \<noteq> []" "list_all (\<lambda>p. length p \<le> unat osz) ps" "f' = compressed_slice fs ps"
    "frame (slice_bytes fs) (concat ps)" by blast
  moreover have "list_all (\<lambda>p. length p \<le> 2 ^ 30) ps"
    using calculation(2) osz by (auto simp: list_all_iff)
  ultimately show ?thesis by blast
qed

text \<open>(C10) What a successful compression leaves in the slice: a header with the slice's index,
  length and compressed length, followed by chunks of at most 1 GiB whose bytes together are a
  complete frame for exactly the bytes of the slice.\<close>

theorem Compress_content:
  assumes "compressor_contract z taken given frame" and "Compress z u fs = Some (Inr (Some f'))"
    and "fs_compress_buf fs = []" and "unat (fs_len fs) < 2 ^ 63"
  shows "\<exists>ps. ps \<noteq> [] \<and> list_all (\<lambda>p. length p \<le> 2 ^ 30) ps \<and> f' = compressed_slice fs ps
    \<and> frame (slice_bytes fs) (concat ps)"
  using assms by (rule Compress_payloads)

lemma store_c_run:
  "Compress store_c (snd (ZSTDCompressUtil_Init zstd_util_start)) (FileSlice [1, 2, 3, 4, 5, 6] 1 5 1)
    = Some (Inr (Some (compressed_slice (FileSlice [1, 2, 3, 4, 5, 6] 1 5 1) [[], [2, 3, 4], [5, 6]])))"
  by (simp add: Compress_def ZSTDCompressUtil_Init_def FileSlice_def store_c_def compress_loop.simps
      compress_piece.simps Let_def mem_read_def get_bytes_def GetBuf_def LinkCompressChunk_def
      SetChunkLinksHeader_def link_header_bytes compressed_slice_def linked_def mem_write_def put_c_len
      wire32.length_enc)
    (simp add: link_header_def slice_header_len_def Let_def)

theorem Compress_content_witness:
  "\<exists>ps. ps \<noteq> [] \<and> list_all (\<lambda>p. length p \<le> 2 ^ 30) ps \<and> compressed_slice (FileSlice [1, 2, 3, 4, 5, 6] 1 5 1) [[], [2, 3, 4], [5, 6]]
      = compressed_slice (FileSlice [1, 2, 3, 4, 5, 6] 1 5 1) ps
    \<and> slice_bytes (FileSlice [1, 2, 3, 4, 5, 6] 1 5 1) = concat ps"
  by (rule Compress_content [OF store_c_contract store_c_run]) (simp_all add: FileSlice_def)

lemma Compress_ends:
  assumes "compressor_contract z taken given frame" and "compressor_progress z pending"
    and "args u = Some a" and "fs_compress_buf fs = []"
    and "unat (GetBuf fs) + unat (fs_len fs) \<le> length (fs_slice fs)" and "unat (fs_len fs) < 2 ^ 63"
  shows "\<exists>f'. Compress z u fs = Some (Inr (Some f'))"
proof -
  obtain c0 c1 c2 where c: "ZSTD_createCCtx z = Some c0"
    "ZSTD_CCtx_setParameter z c0 ZSTD_c_compressionLevel (c_level a) = Some c1"
    "ZSTD_CCtx_setParameter z c1 ZSTD_c_checksumFlag 0 = Some c2"
    using assms(2) unfolding compressor_progress_def by metis
  have sz: "0 < unat (ZSTD_CStreamInSize z)" "0 < unat (ZSTD_CStreamOutSize z)"
    "unat (ZSTD_CStreamInSize z) \<le> unat (2 ^ 32 :: u64)" and g: "given c2 = []"
    using assms(1) c unfolding compressor_contract_def by (auto simp: word_le_nat_alt unat_gt_0)
  let ?small = "fs_len fs < 1024 * 1024"
  let ?insz = "if ?small then ZSTD_CStreamInSize z else 6815744"
  let ?osz = "if ?small then ZSTD_CStreamOutSize z else 4 * 1024 * 1024"
  have "\<exists>f'. compress_loop z ?insz ?osz c2 0 (linked fs []) 0 = Some (Inr (Some f'))"
    by (rule compress_loop_returns [OF assms(1,2)]) (use sz g assms(4-6) in auto)
  then show ?thesis using c assms(3) by (simp add: Compress_def Let_def linked_def)
qed

text \<open>(C30) Compression of a slice inside the mapped file, with the parameters still allocated,
  always comes to an end and succeeds, as long as the library makes progress.\<close>

theorem Compress_returns:
  assumes "compressor_contract z taken given frame" and "compressor_progress z pending"
    and "args u = Some a" and "fs_compress_buf fs = []"
    and "unat (GetBuf fs) + unat (fs_len fs) \<le> length (fs_slice fs)" and "unat (fs_len fs) < 2 ^ 63"
  shows "\<exists>f'. Compress z u fs = Some (Inr (Some f'))"
  using assms by (rule Compress_ends)

theorem Compress_returns_witness:
  "\<exists>f'. Compress store_c \<lparr>args = Some \<lparr>c_level = 1\<rparr>, zstd_thread_num = 2\<rparr> (FileSlice [1, 2, 3, 4, 5, 6] 1 5 1)
    = Some (Inr (Some f'))"
  by (rule Compress_returns [OF store_c_contract store_c_progress]) (simp_all add: FileSlice_def GetBuf_def)

text \<open>Compression after \<open>Destory\<close> reads the level through a freed pointer.\<close>

theorem Compress_after_Destory:
  assumes "ZSTD_createCCtx z = Some c"
  shows "Compress z (snd (ZSTDCompressUtil_Destory u)) fs = Some (Inl UseAfterFree)"
  using assms by (simp add: Compress_def ZSTDCompressUtil_Destory_def Let_def)

theorem Compress_after_Destory_witness:
  "Compress store_c (snd (ZSTDCompressUtil_Destory zstd_util_start)) (FileSlice [1, 2] 0 2 2)
    = Some (Inl UseAfterFree)"
  by (rule Compress_after_Destory) (simp add: store_c_def)

end
