(* ===== verification/Sending_Flow.thy ===== *)
theory Sending_Flow
  imports Sock_IO Decimal Zstd_Compress "HOL-Library.Sublist"
begin

section \<open>The sender's flow (util/sending_flow.h)\<close>

text \<open>
  \<open>Init\<close> sends the file header, \<open>Run\<close> compresses one slice and sends it on a connection of its
  own, \<open>Supervise\<close> waits for the receiver's verdict. Each connection is the list of bytes the
  kernel has accepted on it.
\<close>

subsection \<open>Sending a slice\<close>

definition kEachSliceHeaderLen :: u64 where
  "kEachSliceHeaderLen = 10"

datatype send_result =
    Sent u64 "byte list" "nat sys list" \<comment> \<open>\<open>sum_sent\<close>, the bytes of this chunk sent, rest of the script\<close>
  | SendFailed "byte list" \<comment> \<open>a socket error, after these bytes\<close>
  | SendCrash c_error
  | Sending "byte list" \<comment> \<open>still in the loop, after these bytes\<close>

text \<open>The loop over one chunk. \<open>w_index\<close> is an \<open>int\<close> (\<open>auto w_index = 0\<close>), so it is sign-extended
  where it meets \<open>size\<close>. On -1 that is not an error the code says \<open>continue\<close>, which in a do-while
  goes to the condition.\<close>

fun write_chunk :: "byte list \<Rightarrow> u64 \<Rightarrow> s32 \<Rightarrow> u64 \<Rightarrow> byte list \<Rightarrow> nat sys list \<Rightarrow> send_result" where
  "write_chunk mem sz w_index sum_sent sent [] = Sending sent"
| "write_chunk mem sz w_index sum_sent sent (r # rs) =
     (case r of
        Err e \<Rightarrow>
          (if IsSocketError r then SendFailed sent
           else if sz - scast w_index \<noteq> 0 then write_chunk mem sz w_index sum_sent sent rs
           else Sent sum_sent sent rs)
      | Ok n \<Rightarrow>
          (let num_write = min n (unat (sz - scast w_index))
           in if num_write = 0 then Sent sum_sent sent rs
              else if sint w_index < 0 then SendCrash BadMemory
              else
                (case mem_read mem (nat (sint w_index)) num_write of
                   Inl e \<Rightarrow> SendCrash e
                 | Inr bs \<Rightarrow>
                     (let sum_sent' = sum_sent + of_nat num_write;
                          w_index' = w_index + of_nat num_write
                      in if sz - scast w_index' \<noteq> 0
                         then write_chunk mem sz w_index' sum_sent' (sent @ bs) rs
                         else Sent sum_sent' (sent @ bs) rs))))"

text \<open>The loop over the chunks; \<open>out\<close> is what the connection has got so far.\<close>

fun send_chunks :: "chunk list \<Rightarrow> u64 \<Rightarrow> byte list \<Rightarrow> nat sys list \<Rightarrow> send_result" where
  "send_chunks [] sum_sent out rs = Sent sum_sent out rs"
| "send_chunks (c # cs) sum_sent out rs =
     (case write_chunk (c_mem c) (c_size c) 0 sum_sent [] rs of
        Sent sum_sent' sent rs' \<Rightarrow> send_chunks cs sum_sent' (out @ sent) rs'
      | SendFailed sent \<Rightarrow> SendFailed (out @ sent)
      | SendCrash e \<Rightarrow> SendCrash e
      | Sending sent \<Rightarrow> Sending (out @ sent))"

text \<open>\<open>SendFileSlice\<close>: the return value and what went out on the connection.\<close>

definition SendFileSlice :: "bool \<Rightarrow> file_slice \<Rightarrow> nat sys list \<Rightarrow> (int \<times> byte list) run" where
  "SendFileSlice connected fs rs =
     (if \<not> connected then Done (-1, [])
      else
        (case send_chunks (fs_compress_buf fs) 0 [] rs of
           SendFailed out \<Rightarrow> Done (-1, out)
         | SendCrash e \<Rightarrow> Crash e
         | Sending out \<Rightarrow> Running
         | Sent sum_sent out _ \<Rightarrow>
             (if sum_sent - kEachSliceHeaderLen \<noteq> fs_c_len fs then Done (-1, out) else Done (0, out))))"

text \<open>The thread function: compress, then send. It returns nothing; the model returns what went
  out, if a connection was made.\<close>

definition SendingFlow_Run ::
    "'c zstd_c \<Rightarrow> zstd_util \<Rightarrow> bool \<Rightarrow> file_slice \<Rightarrow> nat sys list \<Rightarrow> byte list option run" where
  "SendingFlow_Run z u connected fs rs =
     (case Compress z u fs of
        None \<Rightarrow> Running
      | Some (Inl e) \<Rightarrow> Crash e
      | Some (Inr None) \<Rightarrow> Done None
      | Some (Inr (Some fs')) \<Rightarrow>
          (case SendFileSlice connected fs' rs of
             Running \<Rightarrow> Running
           | Crash e \<Rightarrow> Crash e
           | Done (_, out) \<Rightarrow> Done (Some out)))"

subsection \<open>Sending the file header\<close>

definition ascii_S :: byte where "ascii_S = 83"
definition ascii_hash :: byte where "ascii_hash = 35"

text \<open>The text \<open>S<file_size>#<slices_num>\<close>.\<close>

definition file_header :: "u64 \<Rightarrow> u16 \<Rightarrow> byte list" where
  "file_header file_size slices_num =
     ascii_S # print_nat (unat file_size) @ ascii_hash # print_nat (unat slices_num)"

text \<open>The write loop. \<open>h\<close> is the memory it reads from. A full socket buffer (\<open>EAGAIN\<close>) ends it.\<close>

fun write_header :: "byte list \<Rightarrow> nat \<Rightarrow> nat \<Rightarrow> byte list \<Rightarrow> nat sys list \<Rightarrow> (int \<times> byte list) run" where
  "write_header h w_size w_index out [] = Running"
| "write_header h w_size w_index out (r # rs) =
     (case r of
        Err e \<Rightarrow>
          (if IsSocketError r then Done (-1, out)
           else if e = EINTR then
             (if w_size - w_index > 0 then write_header h w_size w_index out rs else Done (0, out))
           else Done (0, out))
      | Ok n \<Rightarrow>
          (let num_write = min n (w_size - w_index)
           in if num_write = 0 then Done (0, out)
              else
                (case mem_read h w_index num_write of
                   Inl e \<Rightarrow> Crash e
                 | Inr bs \<Rightarrow>
                     (if w_size - (w_index + num_write) > 0
                      then write_header h w_size (w_index + num_write) (out @ bs) rs
                      else Done (0, out @ bs)))))"

text \<open>\<open>h\<close> points into the temporary that \<open>header_file_size.str()\<close> returned, which is gone when the
  loop runs; \<open>stale\<close> is what its memory then holds. \<open>w_size\<close> is taken from another temporary.\<close>

definition SendFileSizeOnly ::
    "bool \<Rightarrow> (byte list \<Rightarrow> byte list) \<Rightarrow> u64 \<Rightarrow> u16 \<Rightarrow> nat sys list \<Rightarrow> (int \<times> byte list) run" where
  "SendFileSizeOnly connected stale file_size slices_num rs =
     (if \<not> connected then Done (-1, [])
      else
        (let header_file_size = file_header file_size slices_num
         in write_header (stale header_file_size) (length header_file_size) 0 [] rs))"

definition SendingFlow_Init ::
    "zstd_util \<Rightarrow> bool \<Rightarrow> (byte list \<Rightarrow> byte list) \<Rightarrow> u64 \<Rightarrow> u16 \<Rightarrow> nat sys list \<Rightarrow>
     (int \<times> zstd_util \<times> byte list) run" where
  "SendingFlow_Init u connected stale file_size slices_num rs =
     (case ZSTDCompressUtil_Init u of (r, u') \<Rightarrow>
        if r \<noteq> 0 then Done (-1, u', [])
        else
          (case SendFileSizeOnly connected stale file_size slices_num rs of
             Running \<Rightarrow> Running
           | Crash e \<Rightarrow> Crash e
           | Done (r, out) \<Rightarrow> Done (if r \<noteq> 0 then -1 else 0, u', out)))"

definition SendingFlow_Destory :: "zstd_util \<Rightarrow> int \<times> zstd_util" where
  "SendingFlow_Destory u = (0, snd (ZSTDCompressUtil_Destory u))"

subsection \<open>Interface: a loop that sends a message\<close>

text \<open>What the write loops of the program promise, whatever the kernel does: when the loop has
  ended, the connection has got a prefix of the message. So it has got the message as soon as
  the number of bytes is right.\<close>

locale prefix_writer =
  fixes ok :: "byte list \<Rightarrow> bool"
    and send :: "byte list \<Rightarrow> nat sys list \<Rightarrow> byte list option"
  assumes sends_prefix: "ok msg \<Longrightarrow> send msg rs = Some out \<Longrightarrow> \<exists>m \<le> length msg. out = take m msg"
begin

lemma sent_length: "ok msg \<Longrightarrow> send msg rs = Some out \<Longrightarrow> length out \<le> length msg"
  using sends_prefix by fastforce

lemma sent_all: "ok msg \<Longrightarrow> send msg rs = Some out \<Longrightarrow> length out = length msg \<Longrightarrow> out = msg"
  using sends_prefix by fastforce

end

text \<open>A reference definition of the chunk loop: naturals instead of machine words, and what is sent
  as a prefix of the chunk. The loop of the program refines it for chunks below 2 GiB.\<close>

fun write_ref :: "byte list \<Rightarrow> nat \<Rightarrow> u64 \<Rightarrow> nat sys list \<Rightarrow> send_result" where
  "write_ref mem j s [] = Sending (take j mem)"
| "write_ref mem j s (Err e # rs) =
     (if IsSocketError (Err e :: nat sys) then SendFailed (take j mem)
      else if j < length mem then write_ref mem j s rs else Sent s (take j mem) rs)"
| "write_ref mem j s (Ok n # rs) =
     (let k = min n (length mem - j)
      in if 0 < k \<and> j + k < length mem then write_ref mem (j + k) (s + of_nat k) rs
         else Sent (s + of_nat k) (take (j + k) mem) rs)"

lemma write_chunk_refines:
  assumes "length mem = unat sz" and "unat sz < 2 ^ 31"
  shows "j \<le> length mem \<Longrightarrow> write_chunk mem sz (of_nat j) s (take j mem) rs = write_ref mem j s rs"
proof (induction rs arbitrary: j s)
  case Nil
  then show ?case by simp
next
  case (Cons r rs)
  have j: "j < 2 ^ 31" using Cons.prems assms by simp
  have jz: "j \<le> unat sz" using Cons.prems assms(1) by simp
  have req: "unat (sz - of_nat j) = length mem - j" "sz - of_nat j = 0 \<longleftrightarrow> j = length mem"
    using unat_u64_diff [OF jz] u64_diff_0 [OF jz] assms(1) by (simp_all only:)
  show ?case
  proof (cases r)
    case (Err e)
    have "sz - of_nat j \<noteq> 0 \<longleftrightarrow> j < length mem" using req(2) Cons.prems by auto
    then show ?thesis
      by (simp only: Err write_chunk.simps write_ref.simps sys.case scast_s32_of_nat [OF j] Cons.IH [OF Cons.prems])
  next
    case (Ok n)
    define k where "k = min n (length mem - j)"
    have jk: "j + k \<le> length mem" "j + k < 2 ^ 31" using Cons.prems assms by (simp_all add: k_def)
    have rd: "mem_read mem j k = Inr (take k (drop j mem))"
      using jk by (simp add: mem_read_def get_bytes_def)
    have w: "(of_nat j + of_nat k :: s32) = of_nat (j + k)" by simp
    have req': "sz - of_nat (j + k) = 0 \<longleftrightarrow> j + k = length mem"
      using jk(1) assms(1) by (simp only: u64_diff_0)
    have "write_chunk mem sz (of_nat j) s (take j mem) (r # rs)
      = (if k = 0 then Sent s (take j mem) rs
         else if j + k \<noteq> length mem then write_chunk mem sz (of_nat (j + k)) (s + of_nat k) (take (j + k) mem) rs
         else Sent (s + of_nat k) (take (j + k) mem) rs)"
      by (simp only: write_chunk.simps Ok sys.case scast_s32_of_nat [OF j] req Let_def
          k_def [symmetric] sint_s32_of_nat [OF j] nat_int rd sum.case w scast_s32_of_nat [OF jk(2)] req')
        (simp add: take_add)
    then show ?thesis using Cons.IH [OF jk(1)] jk(1) Ok by (auto simp: Let_def simp flip: k_def)
  qed
qed

lemma write_ref_prefix:
  "write_ref mem j s rs = Sent s' sent rs' \<Longrightarrow> j \<le> length mem \<Longrightarrow>
    \<exists>m. j \<le> m \<and> m \<le> length mem \<and> sent = take m mem \<and> s' = s + of_nat (m - j)"
proof (induction mem j s rs rule: write_ref.induct)
  case (2 mem j s e rs)
  then show ?case by (auto split: if_splits)
next
  case (3 mem j s n rs)
  define k where "k = min n (length mem - j)"
  have jk: "j + k \<le> length mem" using 3(3) by (simp add: k_def)
  show ?case
  proof (cases "0 < k \<and> j + k < length mem")
    case True
    then have "write_ref mem (j + k) (s + of_nat k) rs = Sent s' sent rs'"
      using 3(2) by (simp add: Let_def k_def)
    with 3(1) [OF k_def] True obtain m where "j + k \<le> m" "m \<le> length mem" "sent = take m mem"
      "s' = s + of_nat k + of_nat (m - (j + k))" by auto
    then show ?thesis by (intro exI [of _ m]) (simp add: algebra_simps)
  next
    case False
    then have "s' = s + of_nat k" "sent = take (j + k) mem"
      using 3(2) by (auto simp: Let_def simp flip: k_def)
    then show ?thesis using jk by (intro exI [of _ "j + k"]) simp
  qed
qed simp

lemma write_ref_no_crash: "write_ref mem j s rs \<noteq> SendCrash e"
  by (induction mem j s rs rule: write_ref.induct) (simp_all add: Let_def)

interpretation chunk_writer: prefix_writer "\<lambda>msg. length msg < 2 ^ 31"
  "\<lambda>msg rs. case write_chunk msg (of_nat (length msg)) 0 0 [] rs of Sent _ sent _ \<Rightarrow> Some sent | _ \<Rightarrow> None"
proof
  fix msg :: "byte list" and rs out
  assume len: "length msg < 2 ^ 31"
    and sent: "(case write_chunk msg (of_nat (length msg)) 0 0 [] rs of Sent _ sent _ \<Rightarrow> Some sent | _ \<Rightarrow> None) = Some out"
  have "unat (of_nat (length msg) :: u64) = length msg" using len by (simp add: unat_u64_of_nat)
  then have "write_chunk msg (of_nat (length msg)) 0 0 [] rs = write_ref msg 0 0 rs"
    using write_chunk_refines [of msg "of_nat (length msg)" 0] len by simp
  with sent write_ref_prefix [of msg 0 0 rs] show "\<exists>m \<le> length msg. out = take m msg"
    by (auto split: send_result.splits)
qed

subsection \<open>The whole slice\<close>

definition chunk_ok :: "chunk \<Rightarrow> bool" where
  "chunk_ok c \<longleftrightarrow> c_size c = of_nat (length (c_mem c)) \<and> length (c_mem c) < 2 ^ 31"

lemma write_chunk_ref:
  assumes "chunk_ok c"
  shows "write_chunk (c_mem c) (c_size c) 0 s [] rs = write_ref (c_mem c) 0 s rs"
  using write_chunk_refines [of "c_mem c" "c_size c" 0 s rs] assms
  by (simp add: chunk_ok_def unat_u64_of_nat)

lemma send_chunks_prefixes:
  assumes "list_all chunk_ok cs" and "send_chunks cs s out rs = Sent s' out' rs'"
  shows "\<exists>parts. list_all2 prefix parts (map c_mem cs) \<and> out' = out @ concat parts
    \<and> s' = s + of_nat (length (concat parts))"
  using assms
proof (induction cs arbitrary: s out rs)
  case Nil
  then show ?case by simp
next
  case (Cons c cs)
  then obtain s1 sent rs1 where w: "write_ref (c_mem c) 0 s rs = Sent s1 sent rs1"
    and rest: "send_chunks cs s1 (out @ sent) rs1 = Sent s' out' rs'"
    by (auto simp: write_chunk_ref split: send_result.splits)
  from write_ref_prefix [OF w] have p: "prefix sent (c_mem c)" "s1 = s + of_nat (length sent)"
    by (auto simp: take_is_prefix)
  from Cons.IH [OF _ rest] Cons.prems(1) obtain parts where
    "list_all2 prefix parts (map c_mem cs)" "out' = (out @ sent) @ concat parts"
    "s' = s1 + of_nat (length (concat parts))" by auto
  with p show ?case by (intro exI [of _ "sent # parts"]) (simp add: add.assoc)
qed

lemma send_chunks_no_crash: "list_all chunk_ok cs \<Longrightarrow> send_chunks cs s out rs \<noteq> SendCrash e"
  by (induction cs arbitrary: s out rs) (auto simp: write_chunk_ref write_ref_no_crash split: send_result.splits)

lemma prefixes_length: "list_all2 prefix ps qs \<Longrightarrow> length (concat ps) \<le> length (concat qs)"
  by (induction rule: list_all2_induct) (auto dest: prefix_length_le)

lemma prefixes_full: "list_all2 prefix ps qs \<Longrightarrow> length (concat ps) = length (concat qs) \<Longrightarrow> ps = qs"
proof (induction rule: list_all2_induct)
  case (Cons p ps q qs)
  have "length p \<le> length q" and "length (concat ps) \<le> length (concat qs)"
    using Cons by (simp_all add: prefix_length_le prefixes_length)
  then have "length p = length q" and "length (concat ps) = length (concat qs)" using Cons.prems by simp_all
  with Cons show ?case by (auto simp: prefix_def)
qed simp

text \<open>A kernel that keeps the connection alive: no error, and a write that is accepted takes at
  least a byte. \<open>accepted\<close> counts the writes it accepts.\<close>

definition fair_script :: "nat sys list \<Rightarrow> bool" where
  "fair_script rs = list_all (\<lambda>r. case r of Ok n \<Rightarrow> 0 < n | Err e \<Rightarrow> \<not> IsSocketError r) rs"

definition accepted :: "nat sys list \<Rightarrow> nat" where
  "accepted rs = length (filter (\<lambda>r. case r of Ok _ \<Rightarrow> True | Err _ \<Rightarrow> False) rs)"

lemma write_ref_complete:
  "fair_script rs \<Longrightarrow> j \<le> length mem \<Longrightarrow> max 1 (length mem - j) \<le> accepted rs \<Longrightarrow>
    \<exists>rs'. write_ref mem j s rs = Sent (s + of_nat (length mem - j)) mem rs' \<and> fair_script rs'
      \<and> accepted rs \<le> accepted rs' + max 1 (length mem - j)"
proof (induction mem j s rs rule: write_ref.induct)
  case (1 mem j s)
  then show ?case by (simp add: accepted_def)
next
  case (2 mem j s e rs)
  then show ?case by (cases "j < length mem") (auto simp: fair_script_def accepted_def)
next
  case (3 mem j s n rs)
  define k where "k = min n (length mem - j)"
  have n: "0 < n" and fr: "fair_script rs" and ac: "accepted (Ok n # rs) = Suc (accepted rs)"
    using 3(2) by (simp_all add: fair_script_def accepted_def)
  show ?case
  proof (cases "0 < k \<and> j + k < length mem")
    case True
    have len: "length mem - (j + k) < length mem - j" using True by linarith
    have "max 1 (length mem - (j + k)) \<le> accepted rs" using 3(4) ac True len by linarith
    with 3(1) [OF k_def] True fr obtain rs' where
      "write_ref mem (j + k) (s + of_nat k) rs = Sent (s + of_nat k + of_nat (length mem - (j + k))) mem rs'"
      "fair_script rs'" "accepted rs \<le> accepted rs' + max 1 (length mem - (j + k))" by auto
    moreover have "s + of_nat k + of_nat (length mem - (j + k)) = s + of_nat (length mem - j)"
      using True by (simp add: algebra_simps)
    moreover have "accepted (Ok n # rs) \<le> accepted rs' + max 1 (length mem - j)"
      using calculation(3) ac True by linarith
    ultimately show ?thesis using True by (intro exI [of _ rs']) (simp add: Let_def flip: k_def)
  next
    case False
    then have "j + k = length mem" using n 3(3) by (auto simp: k_def)
    then have "write_ref mem j s (Ok n # rs) = Sent (s + of_nat k) mem rs" and "k = length mem - j"
      using False by (auto simp: Let_def simp flip: k_def)
    then show ?thesis using fr ac by simp
  qed
qed

lemma send_chunks_complete:
  assumes "list_all chunk_ok cs" and "fair_script rs"
    and "sum_list (map (\<lambda>c. max 1 (length (c_mem c))) cs) \<le> accepted rs"
  shows "\<exists>rs'. send_chunks cs s out rs
    = Sent (s + of_nat (length (concat (map c_mem cs)))) (out @ concat (map c_mem cs)) rs'"
  using assms
proof (induction cs arbitrary: s out rs)
  case Nil
  then show ?case by simp
next
  case (Cons c cs)
  have "max 1 (length (c_mem c) - 0) \<le> accepted rs" using Cons.prems(3) by (simp only: list.map sum_list.Cons)
  from write_ref_complete [OF Cons.prems(2) le0 this] obtain rs1 where
    w: "write_ref (c_mem c) 0 s rs = Sent (s + of_nat (length (c_mem c))) (c_mem c) rs1" "fair_script rs1"
    and ac: "accepted rs \<le> accepted rs1 + max 1 (length (c_mem c))" by auto
  have "sum_list (map (\<lambda>c. max 1 (length (c_mem c))) cs) \<le> accepted rs1" using Cons.prems(3) ac by simp
  from Cons.IH [OF _ w(2) this, of "s + of_nat (length (c_mem c))" "out @ c_mem c"] Cons.prems(1) w(1)
  show ?case by (simp add: write_chunk_ref add.assoc)
qed

subsection \<open>Properties of sending a slice\<close>

text \<open>The message that carries a compressed slice: header and payload.\<close>

definition slice_message :: "file_slice \<Rightarrow> byte list \<Rightarrow> byte list" where
  "slice_message f y = slice_header (fs_index f) (ucast (fs_len f)) (of_nat (length y)) @ y"

lemma compressed_slice_chunks:
  "concat (map c_mem (fs_compress_buf (compressed_slice f ps))) = slice_message f (concat ps)"
  "fs_c_len (compressed_slice f ps) = of_nat (length (concat ps))"
  by (simp_all add: compressed_slice_def slice_message_def ucast_of_nat_u32 comp_def)

lemma compressed_slice_chunk_ok:
  "list_all (\<lambda>p. length p < 2 ^ 31) ps \<Longrightarrow> list_all chunk_ok (fs_compress_buf (compressed_slice f ps))"
  by (auto simp: compressed_slice_def chunk_ok_def list_all_iff)

lemma sent_slice_whole:
  assumes "list_all (\<lambda>p. length p < 2 ^ 31) ps" and "length (concat ps) + 10 < 2 ^ 64"
    and "SendFileSlice connected (compressed_slice f ps) rs = Done (0, out)"
  shows "out = slice_message f (concat ps)"
proof -
  let ?cs = "fs_compress_buf (compressed_slice f ps)"
  obtain sm rs' where sc: "send_chunks ?cs 0 [] rs = Sent sm out rs'"
    and cmp: "sm - kEachSliceHeaderLen = of_nat (length (concat ps))"
    using assms(3) by (auto simp: SendFileSlice_def compressed_slice_chunks(2) split: if_splits send_result.splits)
  from send_chunks_prefixes [OF compressed_slice_chunk_ok [OF assms(1)] sc] obtain parts where
    pp: "list_all2 prefix parts (map c_mem ?cs)" and o: "out = concat parts" and sm: "sm = of_nat (length out)"
    by auto
  have le: "length out \<le> 10 + length (concat ps)"
    using prefixes_length [OF pp] o compressed_slice_chunks(1) [of f ps] by (simp add: slice_message_def)
  have "(of_nat (length out) :: u64) = of_nat (10 + length (concat ps))"
    using cmp sm by (simp add: kEachSliceHeaderLen_def algebra_simps)
  moreover have "length out < 2 ^ 64" and "10 + length (concat ps) < 2 ^ 64" using le assms(2) by linarith+
  ultimately have "length out = 10 + length (concat ps)" by (simp only: of_nat_u64_eq_iff)
  then have "length (concat parts) = length (concat (map c_mem ?cs))"
    using o compressed_slice_chunks(1) [of f ps] by (simp add: slice_message_def)
  from prefixes_full [OF pp this] show ?thesis using o compressed_slice_chunks(1) [of f ps] by simp
qed

lemma send_slice_completes:
  assumes "list_all (\<lambda>p. length p < 2 ^ 31) ps" and "fair_script rs"
    and "10 + sum_list (map (\<lambda>p. max 1 (length p)) ps) \<le> accepted rs"
  shows "SendFileSlice True (compressed_slice f ps) rs = Done (0, slice_message f (concat ps))"
proof -
  let ?cs = "fs_compress_buf (compressed_slice f ps)"
  have "sum_list (map (\<lambda>c. max 1 (length (c_mem c))) ?cs) = 10 + sum_list (map (\<lambda>p. max 1 (length p)) ps)"
    by (simp add: compressed_slice_def comp_def)
  then obtain rs' where "send_chunks ?cs 0 [] rs
      = Sent (of_nat (length (slice_message f (concat ps)))) (slice_message f (concat ps)) rs'"
    using send_chunks_complete [OF compressed_slice_chunk_ok [OF assms(1)] assms(2), of f 0 "[]"] assms(3)
    by (auto simp: compressed_slice_chunks(1))
  then show ?thesis
    by (simp add: SendFileSlice_def compressed_slice_chunks(2) kEachSliceHeaderLen_def slice_message_def)
qed

text \<open>(C9) When \<open>SendFileSlice\<close> returns 0, the receiver's end of the connection has got the whole
  message, header and payload, byte for byte: no pattern of short writes, zero writes or full
  buffers makes it report success for anything less.\<close>

theorem SendFileSlice_sound:
  assumes "list_all (\<lambda>p. length p < 2 ^ 31) ps" and "length (concat ps) + 10 < 2 ^ 64"
    and "SendFileSlice connected (compressed_slice f ps) rs = Done (0, out)"
  shows "out = slice_message f (concat ps)"
  using assms by (rule sent_slice_whole)

theorem SendFileSlice_sound_witness:
  "slice_message (FileSlice [5, 6] 0 2 2) [5, 6] = slice_header 0 2 2 @ [5, 6]"
proof -
  have "SendFileSlice True (compressed_slice (FileSlice [5, 6] 0 2 2) [[], [5, 6]])
      [Ok 4, Err EAGAIN, Ok 100, Ok 0, Ok 1, Ok 1] = Done (0, slice_header 0 2 2 @ [5, 6])"
    by (simp add: SendFileSlice_def compressed_slice_def FileSlice_def Let_def mem_read_def get_bytes_def
        IsSocketError_def kEachSliceHeaderLen_def slice_header_def put_u16_big_endian put_u32_def htonl_def
        bytes_of_u32_def linked_def)
  then have "slice_header 0 2 2 @ [5, 6] = slice_message (FileSlice [5, 6] 0 2 2) (concat [[], [5, 6]])"
    by (rule SendFileSlice_sound [rotated 2]) simp_all
  then show ?thesis by simp
qed

text \<open>Sending a slice ends with success when the kernel keeps accepting bytes: interrupted and
  would-block writes are retried until every chunk, also an empty one, is through.\<close>

theorem SendFileSlice_complete:
  assumes "list_all (\<lambda>p. length p < 2 ^ 31) ps" and "fair_script rs"
    and "10 + sum_list (map (\<lambda>p. max 1 (length p)) ps) \<le> accepted rs"
  shows "SendFileSlice True (compressed_slice f ps) rs = Done (0, slice_message f (concat ps))"
  using assms by (rule send_slice_completes)

theorem SendFileSlice_complete_witness:
  "SendFileSlice True (compressed_slice (FileSlice [5, 6] 0 2 2) [[], [5, 6]])
     (Err EINTR # Err EAGAIN # replicate 13 (Ok 7)) = Done (0, slice_message (FileSlice [5, 6] 0 2 2) (concat [[], [5, 6]]))"
  by (rule SendFileSlice_complete) (simp_all add: fair_script_def accepted_def IsSocketError_def list_all_iff)

subsection \<open>Properties of sending the file header\<close>

lemma write_header_prefix:
  "write_header h (length h) j (take j h) rs = Done (r, out) \<Longrightarrow> j \<le> length h \<Longrightarrow> \<exists>m \<le> length h. out = take m h"
proof (induction rs arbitrary: j)
  case (Cons x rs)
  show ?case
  proof (cases x)
    case (Err e)
    with Cons show ?thesis by (auto split: if_splits)
  next
    case (Ok n)
    define k where "k = min n (length h - j)"
    have jk: "j + k \<le> length h" using Cons.prems(2) by (simp add: k_def)
    have rd: "mem_read h j k = Inr (take k (drop j h))" using jk by (simp add: mem_read_def get_bytes_def)
    have tk: "take j h @ take k (drop j h) = take (j + k) h" by (simp add: take_add)
    have "write_header h (length h) j (take j h) (x # rs)
      = (if k = 0 then Done (0, take j h)
         else if length h - (j + k) > 0 then write_header h (length h) (j + k) (take (j + k) h) rs
         else Done (0, take (j + k) h))"
      by (simp only: write_header.simps Ok sys.case Let_def k_def [symmetric] rd sum.case tk)
    then have "(if k = 0 then Done (0, take j h)
         else if length h - (j + k) > 0 then write_header h (length h) (j + k) (take (j + k) h) rs
         else Done (0, take (j + k) h)) = Done (r, out)"
      using Cons.prems(1) by (simp only:)
    then show ?thesis using Cons.IH [OF _ jk] Cons.prems(2) jk by (auto split: if_splits)
  qed
qed simp

interpretation header_writer: prefix_writer "\<lambda>_. True"
  "\<lambda>msg rs. case write_header msg (length msg) 0 [] rs of Done (r, out) \<Rightarrow> Some out | _ \<Rightarrow> None"
  by unfold_locales (use write_header_prefix [of _ 0] in \<open>fastforce split: run.splits\<close>)

lemma write_header_complete:
  "list_all (\<lambda>r. case r of Ok n \<Rightarrow> 0 < n | Err e \<Rightarrow> e = EINTR) rs \<Longrightarrow> j < length h \<Longrightarrow>
    length h - j \<le> accepted rs \<Longrightarrow> write_header h (length h) j (take j h) rs = Done (0, h)"
proof (induction rs arbitrary: j)
  case Nil
  then show ?case by (simp add: accepted_def)
next
  case (Cons x rs)
  show ?case
  proof (cases x)
    case (Err e)
    with Cons show ?thesis by (simp add: IsSocketError_def accepted_def)
  next
    case (Ok n)
    define k where "k = min n (length h - j)"
    have k: "0 < k" and jk: "j + k \<le> length h" using Cons.prems(1,2) Ok by (simp_all add: k_def)
    have rd: "mem_read h j k = Inr (take k (drop j h))" using jk by (simp add: mem_read_def get_bytes_def)
    have tk: "take j h @ take k (drop j h) = take (j + k) h" by (simp add: take_add)
    have "write_header h (length h) j (take j h) (x # rs)
      = (if length h - (j + k) > 0 then write_header h (length h) (j + k) (take (j + k) h) rs
         else Done (0, take (j + k) h))"
      using k by (simp only: write_header.simps Ok sys.case Let_def k_def [symmetric] rd sum.case tk) simp
    moreover have "length h - (j + k) \<le> accepted rs" using Cons.prems(3) Ok k by (simp add: accepted_def)
    ultimately show ?thesis using Cons.IH [of "j + k"] Cons.prems(1) jk by auto
  qed
qed

text \<open>A loop that ended with 0 has written everything, unless a write would have blocked or took nothing.\<close>

definition not_full :: "nat sys list \<Rightarrow> bool" where
  "not_full rs \<longleftrightarrow> Ok 0 \<notin> set rs \<and> Err EAGAIN \<notin> set rs \<and> Err EWOULDBLOCK \<notin> set rs"

lemma write_header_all:
  "write_header h (length h) j (take j h) rs = Done (0, out) \<Longrightarrow> j < length h \<Longrightarrow> not_full rs \<Longrightarrow> out = h"
proof (induction rs arbitrary: j)
  case (Cons x rs)
  show ?case
  proof (cases x)
    case (Err e)
    with Cons show ?thesis by (auto simp: IsSocketError_def not_full_def split: if_splits)
  next
    case (Ok n)
    define k where "k = min n (length h - j)"
    have k: "k \<noteq> 0" and jk: "j + k \<le> length h" using Cons.prems(2,3) Ok by (auto simp: k_def not_full_def)
    have rd: "mem_read h j k = Inr (take k (drop j h))" using jk by (simp add: mem_read_def get_bytes_def)
    have tk: "take j h @ take k (drop j h) = take (j + k) h" by (simp add: take_add)
    have "write_header h (length h) j (take j h) (x # rs)
      = (if length h - (j + k) > 0 then write_header h (length h) (j + k) (take (j + k) h) rs
         else Done (0, take (j + k) h))"
      using k by (simp only: write_header.simps Ok sys.case Let_def k_def [symmetric] rd sum.case tk if_False)
    then have "(if length h - (j + k) > 0 then write_header h (length h) (j + k) (take (j + k) h) rs
         else Done (0, take (j + k) h)) = Done (0, out)" using Cons.prems(1) by (simp only:)
    moreover have "not_full rs" using Cons.prems(3) by (auto simp: not_full_def)
    ultimately show ?thesis using Cons.IH [of "j + k"] jk by (auto split: if_splits)
  qed
qed simp

lemma file_header_ne: "0 < length (file_header n k)"
  by (simp add: file_header_def)

lemma init_header:
  assumes "SendingFlow_Init u connected stale n k rs = Done (0, u', out)" and "stale (file_header n k) = file_header n k"
  shows "\<exists>m. out = take m (file_header n k)" and "not_full rs \<Longrightarrow> out = file_header n k"
proof -
  have w: "write_header (file_header n k) (length (file_header n k)) 0 (take 0 (file_header n k)) rs = Done (0, out)"
    using assms by (auto simp: SendingFlow_Init_def SendFileSizeOnly_def Let_def split: prod.splits run.splits if_splits)
  show "\<exists>m. out = take m (file_header n k)" using write_header_prefix [OF w] by blast
  show "out = file_header n k" if "not_full rs" by (rule write_header_all [OF w file_header_ne that])
qed

text \<open>The header goes out whole, and \<open>SendFileSizeOnly\<close> returns 0, when the kernel accepts
  every write (interruptions aside) and the memory of the destroyed temporary is still intact.\<close>

theorem SendFileSizeOnly_complete:
  assumes "stale (file_header file_size slices_num) = file_header file_size slices_num"
    and "list_all (\<lambda>r. case r of Ok n \<Rightarrow> 0 < n | Err e \<Rightarrow> e = EINTR) rs"
    and "length (file_header file_size slices_num) \<le> accepted rs"
  shows "SendFileSizeOnly True stale file_size slices_num rs = Done (0, file_header file_size slices_num)"
  using write_header_complete [OF assms(2) file_header_ne, of file_size slices_num] assms(1,3)
  by (simp add: SendFileSizeOnly_def)

theorem SendFileSizeOnly_complete_witness:
  "SendFileSizeOnly True id 1000 4 (Err EINTR # replicate 7 (Ok 3)) = Done (0, file_header 1000 4)"
  by (rule SendFileSizeOnly_complete)
    (simp_all add: accepted_def file_header_def print_nat.simps list_all_iff)

text \<open>A header the kernel has no room for is lost without a trace: on a would-block write
  \<open>SendFileSizeOnly\<close> leaves its loop and returns 0 with nothing sent.\<close>

theorem SendFileSizeOnly_silent_loss:
  "SendFileSizeOnly True stale file_size slices_num (Err EAGAIN # rs) = Done (0, [])"
  by (simp add: SendFileSizeOnly_def IsSocketError_def Let_def)

end
