(* ===== verification/Mmap_File.thy ===== *)
theory Mmap_File
  imports Prelude
begin

section \<open>Mapped files (util/mmap_reader.h, util/mmap_writer.h)\<close>

text \<open>
  The sender maps the input file read-only; the receiver creates the output file at its final
  size and maps it shared, so that the slices can be written to it in any order. The file system
  is a map from names to contents. A mapping is shared with its file, so a write to the mapping
  is a write to the file; \<open>msync\<close> and \<open>munmap\<close> do not change the contents.
\<close>

type_synonym file_system = "string \<Rightarrow> byte list option"

text \<open>A \<open>char *\<close> that came from \<open>mmap\<close>: null before the call, \<open>MAP_FAILED\<close> (which is not null)
  after a failed one, otherwise the mapped bytes.\<close>

datatype mapping = MapNull | MapFailed | Mapped "byte list"

text \<open>\<open>MMapOutputArrowFile\<close>: truncate, seek to the last byte, write one byte, map. None of the
  results is checked. A size of zero (or one that is negative as an \<open>off_t\<close>) makes the seek fail,
  the byte is then written at the start, and mapping no bytes fails. \<open>opened\<close> is the success of
  \<open>open\<close>.\<close>

definition MMapOutputArrowFile ::
    "bool \<Rightarrow> file_system \<Rightarrow> string \<Rightarrow> u64 \<Rightarrow> mapping \<times> file_system" where
  "MMapOutputArrowFile opened fs file_name file_size =
     (if \<not> opened then (MapFailed, fs)
      else
        (let pos = file_size - 1;
             content = (if sint pos < 0 then [0] else replicate (unat pos) 0 @ [0])
         in if file_size = 0 then (MapFailed, fs(file_name \<mapsto> content))
            else if sint pos < 0 then (MapFailed, fs(file_name \<mapsto> content))
            else (Mapped content, fs(file_name \<mapsto> content))))"

text \<open>\<open>MMapWriting\<close>: a \<open>memcpy\<close> into the mapping, then \<open>msync\<close>.\<close>

definition MMapWriting :: "mapping \<Rightarrow> byte list \<Rightarrow> u64 \<Rightarrow> c_error + mapping" where
  "MMapWriting start buf pos =
     (case start of
        MapNull \<Rightarrow> Inl NullDeref
      | MapFailed \<Rightarrow> Inl BadMemory
      | Mapped mem \<Rightarrow> map_sum id Mapped (mem_write mem (unat pos) buf))"

definition MMapSync :: "mapping \<Rightarrow> mapping" where
  "MMapSync start = start"

definition UnMapOutputArrowFile :: "mapping \<Rightarrow> mapping" where
  "UnMapOutputArrowFile start = MapNull"

text \<open>\<open>ReadArrowFile\<close>. When the file cannot be opened \<open>fstat\<close> fails and \<open>st_size\<close> is whatever the
  stack held, \<open>garbage\<close> here.\<close>

definition ReadArrowFile :: "u64 \<Rightarrow> file_system \<Rightarrow> string \<Rightarrow> mapping \<times> u64" where
  "ReadArrowFile garbage fs file_path =
     (case fs file_path of
        None \<Rightarrow> (MapFailed, garbage)
      | Some content \<Rightarrow> (if content = [] then MapFailed else Mapped content, of_nat (length content)))"

lemma MMapOutput_zeros:
  assumes "0 < n" and "n < 2 ^ 63"
  shows "MMapOutputArrowFile True fs name (of_nat n) = (Mapped (replicate n 0), fs(name \<mapsto> replicate n 0))"
proof -
  have u: "unat (of_nat n - 1 :: u64) = n - 1"
    using assms unat_u64_diff [of 1 "of_nat n"] unat_u64_of_nat [of n] by simp
  have "sint (of_nat n - 1 :: u64) = int (unat (of_nat n - 1 :: u64))"
    by (rule sint_u64_eq_unat) (use u assms in linarith)
  then have "\<not> sint (of_nat n - 1 :: u64) < 0" by simp
  moreover have "(of_nat n :: u64) \<noteq> 0" by (rule of_nat_u64_ne_0) (use assms in simp_all)
  moreover have "replicate (n - 1) (0 :: byte) @ [0] = replicate n 0"
    using assms(1) by (metis Suc_diff_1 replicate_Suc replicate_append_same)
  ultimately show ?thesis using u by (simp add: MMapOutputArrowFile_def Let_def)
qed

end
