(* ===== verification/Zstd_Decompress.thy ===== *)
theory Zstd_Decompress
  imports Prelude "HOL-Library.Sublist"
begin

section \<open>Decompressing a slice (util/zstd_decompress.h)\<close>

text \<open>
  \<open>ZSTDDecompressUtil::Decompress\<close> runs the streaming decompressor over a whole compressed slice
  and writes to consecutive places of the output, the receiver's mapped file. The library is a
  parameter again, with what the code relies on as \<open>decompressor_contract\<close>.
\<close>

subsection \<open>The library as a parameter\<close>

text \<open>\<open>ZSTD_decompressStream\<close> is given the capacity of the output buffer and the input from
  \<open>input.pos\<close> on; it returns the new context, how far it advanced \<open>input.pos\<close> and the bytes it
  produced. \<open>None\<close> is an error code.\<close>

record 'd zstd_d =
  ZSTD_createDCtx :: "'d option"
  ZSTD_decompressStream :: "'d \<Rightarrow> nat \<Rightarrow> byte list \<Rightarrow> ('d \<times> nat \<times> byte list) option"
  ZSTD_DStreamOutSize :: u64

definition ZSTDDecompressUtil_Init :: int where
  "ZSTDDecompressUtil_Init = 0"

definition ZSTDDecompressUtil_Destory :: int where
  "ZSTDDecompressUtil_Destory = 0"

subsection \<open>The loop\<close>

text \<open>\<open>written\<close> is what has been written from \<open>out_buf\<close> on, so \<open>out_index\<close> is its length. The
  result: whether the library reported an error, and what was written. \<open>None\<close> is a loop that
  does not end.\<close>

partial_function (option) decompress_loop ::
    "'d zstd_d \<Rightarrow> bool \<Rightarrow> u64 \<Rightarrow> byte list \<Rightarrow> 'd \<Rightarrow> nat \<Rightarrow> u64 \<Rightarrow> byte list \<Rightarrow> (bool \<times> u64 \<times> byte list) option" where
  "decompress_loop z is_whole_slice out_buf_size in_buf dctx pos out_index written =
     (if pos < length in_buf
      then
        (let cap = (if is_whole_slice then out_buf_size - out_index else out_buf_size)
         in case ZSTD_decompressStream z dctx (unat cap) (drop pos in_buf) of
              None \<Rightarrow> Some (True, out_index, written)
            | Some (dctx', consumed, out) \<Rightarrow>
                decompress_loop z is_whole_slice out_buf_size in_buf dctx' (pos + consumed)
                  (out_index + of_nat (length out)) (written @ out))
      else Some (False, out_index, written))"

text \<open>\<open>Decompress\<close> returns an \<open>int\<close>: -1 on failure, otherwise \<open>out_index\<close> truncated to 32 bits.\<close>

definition Decompress :: "'d zstd_d \<Rightarrow> byte list \<Rightarrow> u64 \<Rightarrow> (s32 \<times> byte list) option" where
  "Decompress z in_buf out_buf_size =
     (case ZSTD_createDCtx z of
        None \<Rightarrow> Some (-1, [])
      | Some dctx \<Rightarrow>
          (let is_whole_slice = (out_buf_size \<noteq> 0);
               out_size = (if out_buf_size = 0 then ZSTD_DStreamOutSize z else out_buf_size)
           in map_option (\<lambda>(failed, out_index, written). (if failed then -1 else ucast out_index, written))
                (decompress_loop z is_whole_slice out_size in_buf dctx 0 0 [])))"

subsection \<open>What the code relies on\<close>

text \<open>\<open>fed d\<close> and \<open>made d\<close> are the bytes a context has consumed and produced. For input that is
  part of a frame \<open>y\<close> of content \<open>x\<close>, documented: what comes out is the content, in order; a
  call with room for all the content that is left does not fail and makes progress; a call that
  leaves room in the output buffer has flushed all it can.\<close>

definition decompressor_contract ::
    "'d zstd_d \<Rightarrow> ('d \<Rightarrow> byte list) \<Rightarrow> ('d \<Rightarrow> byte list) \<Rightarrow> (byte list \<Rightarrow> byte list \<Rightarrow> bool) \<Rightarrow> bool" where
  "decompressor_contract z fed made frame \<longleftrightarrow>
     (\<exists>d. ZSTD_createDCtx z = Some d \<and> fed d = [] \<and> made d = []) \<and>
     (\<forall>d x y cap inp.
        frame x y \<and> y = fed d @ inp \<and> prefix (made d) x \<and> length x \<le> length (made d) + cap \<and> inp \<noteq> [] \<longrightarrow>
        (\<exists>d' k out. ZSTD_decompressStream z d cap inp = Some (d', k, out) \<and>
           k \<le> length inp \<and> length out \<le> cap \<and> (0 < k \<or> out \<noteq> []) \<and>
           fed d' = fed d @ take k inp \<and> made d' = made d @ out \<and> prefix (made d') x \<and>
           (k = length inp \<and> length out < cap \<longrightarrow> made d' = x)))"

lemma decompressor_step:
  assumes "decompressor_contract z fed made frame" and "frame x y" and "y = fed d @ inp"
    and "prefix (made d) x" and "length x \<le> length (made d) + cap" and "inp \<noteq> []"
  obtains d' k out where "ZSTD_decompressStream z d cap inp = Some (d', k, out)" and "k \<le> length inp"
    and "length out \<le> cap" and "0 < k \<or> out \<noteq> []" and "fed d' = fed d @ take k inp"
    and "made d' = made d @ out" and "prefix (made d') x"
    and "k = length inp \<Longrightarrow> length out < cap \<Longrightarrow> made d' = x"
  using assms unfolding decompressor_contract_def by metis

subsection \<open>The loop restores the content\<close>

lemma decompress_loop_correct:
  assumes ct: "decompressor_contract z fed made frame" and fr: "frame x y" and x: "length x < 2 ^ 64"
  shows "fed d = take pos y \<Longrightarrow> pos \<le> length y \<Longrightarrow> prefix (made d) x \<Longrightarrow> (pos = length y \<Longrightarrow> made d = x) \<Longrightarrow>
    decompress_loop z True (of_nat (length x)) y d pos (of_nat (length (made d))) (made d)
      = Some (False, of_nat (length x), x)"
proof (induction "length y - pos + (length x - length (made d))" arbitrary: d pos rule: less_induct)
  case less
  show ?case
  proof (cases "pos < length y")
    case False
    with less.prems show ?thesis by (subst decompress_loop.simps) simp
  next
    case True
    have le: "length (made d) \<le> length x" using less.prems(3) by (rule prefix_length_le)
    have "unat (of_nat (length x) - of_nat (length (made d)) :: u64) = length x - length (made d)"
      using le x by (simp add: unat_sub word_le_nat_alt unat_u64_of_nat)
    then obtain cap where cap: "unat (of_nat (length x) - of_nat (length (made d)) :: u64) = cap"
      "cap = length x - length (made d)" by simp
    have y: "y = fed d @ drop pos y" using less.prems(1) by simp
    have room: "length x \<le> length (made d) + cap" using cap(2) by simp
    have ne: "drop pos y \<noteq> []" using True by simp
    obtain d' k out where st: "ZSTD_decompressStream z d cap (drop pos y) = Some (d', k, out)"
      "k \<le> length (drop pos y)" "length out \<le> cap" "0 < k \<or> out \<noteq> []" "fed d' = fed d @ take k (drop pos y)"
      "made d' = made d @ out" "prefix (made d') x" "k = length (drop pos y) \<Longrightarrow> length out < cap \<Longrightarrow> made d' = x"
      using decompressor_step [OF ct fr y less.prems(3) room ne] by metis
    have fed': "fed d' = take (pos + k) y" using st(5) less.prems(1) by (simp add: take_add)
    have pos': "pos + k \<le> length y" using st(2) True by simp
    have done': "made d' = x" if "pos + k = length y"
    proof (cases "length out < cap")
      case True
      with st(8) that show ?thesis by simp
    next
      case False
      then have "length (made d') = length x" using st(3,6) cap(2) le by simp
      with st(7) show ?thesis by (metis prefix_order.eq_iff prefix_length_prefix order_refl)
    qed
    have "length (made d') \<le> length x" using st(7) by (rule prefix_length_le)
    then have dec: "length y - (pos + k) + (length x - length (made d')) < length y - pos + (length x - length (made d))"
      using st(4,6) pos' True by (cases "k = 0") (auto simp: neq_Nil_conv)
    have "decompress_loop z True (of_nat (length x)) y d' (pos + k) (of_nat (length (made d'))) (made d')
        = Some (False, of_nat (length x), x)"
      using less.hyps [OF dec fed' pos' st(7) done'] .
    then show ?thesis using True st(1,6) cap(1) by (subst decompress_loop.simps) (simp add: Let_def)
  qed
qed

subsection \<open>A library that stores\<close>

text \<open>The counterpart of the storing compressor: content and frame are the same bytes.\<close>

definition store_d :: "byte list zstd_d" where
  "store_d = \<lparr>ZSTD_createDCtx = Some [],
     ZSTD_decompressStream = (\<lambda>d cap inp. Some (d @ take cap inp, min cap (length inp), take cap inp)),
     ZSTD_DStreamOutSize = 3\<rparr>"

lemma store_d_contract: "decompressor_contract store_d id id (=)"
  by (auto simp: decompressor_contract_def store_d_def neq_Nil_conv)

subsection \<open>Properties\<close>

lemma Decompress_frame:
  assumes "decompressor_contract z fed made frame" and "frame x y"
    and "x \<noteq> []" and "y \<noteq> []" and "length x < 2 ^ 64"
  shows "Decompress z y (of_nat (length x)) = Some (of_nat (length x), x)"
proof -
  obtain d where d: "ZSTD_createDCtx z = Some d" "fed d = []" "made d = []"
    using assms(1) unfolding decompressor_contract_def by blast
  have "decompress_loop z True (of_nat (length x)) y d 0 0 [] = Some (False, of_nat (length x), x)"
    using decompress_loop_correct [OF assms(1,2,5), of d 0] d assms(4) by simp
  moreover have "(of_nat (length x) :: u64) \<noteq> 0"
    using assms(3,5) by (intro of_nat_u64_ne_0) simp_all
  moreover have "(ucast (of_nat (length x) :: u64) :: s32) = of_nat (length x)"
    by (rule ucast_of_nat_u32)
  ultimately show ?thesis using d by (simp add: Decompress_def Let_def)
qed

text \<open>(C11) Decompressing a complete frame into an output of the content's size ends, writes exactly
  the content, and returns its length as long as that fits an \<open>int\<close>.\<close>

theorem Decompress_correct:
  assumes "decompressor_contract z fed made frame" and "frame x y"
    and "x \<noteq> []" and "y \<noteq> []" and "length x < 2 ^ 31"
  shows "\<exists>r. Decompress z y (of_nat (length x)) = Some (r, x) \<and> sint r = int (length x)"
proof -
  have "int (length x) < 2 ^ 31" using assms(5) by (metis of_nat_less_iff of_nat_numeral of_nat_power)
  then have "sint (of_nat (length x) :: s32) = int (length x)"
    by (simp add: signed_of_nat signed_take_bit_int_eq_self)
  moreover have "length x < 2 ^ 64" using assms(5) by simp
  ultimately show ?thesis using Decompress_frame [OF assms(1-4)] by auto
qed

theorem Decompress_correct_witness:
  "\<exists>r. Decompress store_d [7, 8, 9] (of_nat (length [7, 8, 9 :: byte])) = Some (r, [7, 8, 9])
    \<and> sint r = int (length [7, 8, 9 :: byte])"
  by (rule Decompress_correct [OF store_d_contract]) simp_all

end
