(* ===== verification/Recv_Flow.thy ===== *)
theory Recv_Flow
  imports Sock_IO Decimal Mmap_File Zstd_Decompress
begin

section \<open>The receiver's flow (util/recv_flow.h)\<close>

text \<open>
  \<open>Server::Recv\<close> handles one connection on a pool thread. The first connection whose handler
  finds no split length and no mapping carries the file header; every other connection carries
  one slice. A handler goes round an event loop; one round is \<open>recv_iter\<close> here, made of the
  choice of the read buffer (\<open>recv_prepare\<close>), the read loop and the processing of what was read.
\<close>

subsection \<open>Static state\<close>

text \<open>\<open>c_buf_\<close> is null, freed, or a block of \<open>c_len_\<close> bytes of which the first have been received;
  the model keeps the received bytes. \<open>buf_\<close> is an offset into the output mapping, or nothing
  when it was computed from a pointer that is no mapping. \<open>malloc\<close> is taken to succeed.\<close>

datatype cbuf = CNull | CFreed | CBuf "byte list"

record FileSliceInfo =
  si_index :: u16
  si_c_len :: u64
  si_recv_len :: u64
  si_len :: u64
  si_offset :: u64
  si_buf :: "u64 option"
  si_c_buf :: cbuf

record server =
  sv_mmap :: "u16 \<Rightarrow> FileSliceInfo option"
  sv_slices_th_num :: u16
  sv_split_len :: u64
  sv_file_size :: u64
  sv_slices_num :: u32
  sv_reads_max_bytes :: u64
  sv_start :: mapping

definition server_init :: server where
  "server_init = \<lparr>sv_mmap = (\<lambda>_. None), sv_slices_th_num = 0, sv_split_len = 0, sv_file_size = 0,
     sv_slices_num = 0, sv_reads_max_bytes = 0, sv_start = MapNull\<rparr>"

text \<open>The locals of a handler that outlive a round.\<close>

record recv_local =
  is_first_recv :: bool
  rl_index :: u16

definition recv_start :: recv_local where
  "recv_start = \<lparr>is_first_recv = True, rl_index = 0\<rparr>"

definition kFileSliceHeaderLen :: nat where
  "kFileSliceHeaderLen = 16"

definition kSliceHeaderLen :: nat where
  "kSliceHeaderLen = 10"

text \<open>How a round ends: go round again, return, leave by an exception (which the packaged task
  stores in the future), crash, or hang inside the decompressor.\<close>

datatype recv_result =
    Again server recv_local
  | Return int server
  | Throw c_error server
  | Fault c_error
  | Hang

subsection \<open>Choosing the buffer\<close>

definition expects_header :: "server \<Rightarrow> recv_local \<Rightarrow> bool" where
  "expects_header sv l \<longleftrightarrow> is_first_recv l \<and> sv_split_len sv = 0 \<and> sv_start sv = MapNull"

text \<open>The server after the choice, and \<open>n_left\<close>. A missing map entry would be a null pointer.\<close>

definition recv_prepare :: "server \<Rightarrow> recv_local \<Rightarrow> c_error + server \<times> u64" where
  "recv_prepare sv l =
     (if expects_header sv l then
        Inr (sv\<lparr>sv_reads_max_bytes := of_nat (kFileSliceHeaderLen + 1)\<rparr>, of_nat (kFileSliceHeaderLen + 1))
      else if is_first_recv l then Inr (sv, sv_reads_max_bytes sv)
      else
        (case sv_mmap sv (rl_index l) of
           None \<Rightarrow> Inl NullDeref
         | Some si \<Rightarrow>
             (let rest = si_c_len si - si_offset si;
                  cur_read_rest = (if rest < sv_reads_max_bytes sv then rest else 0)
              in Inr (sv, if cur_read_rest \<noteq> 0 then cur_read_rest else sv_reads_max_bytes sv))))"

subsection \<open>The file header\<close>

text \<open>\<open>find("#")\<close>\<close>

fun find_hash :: "byte list \<Rightarrow> nat option" where
  "find_hash [] = None"
| "find_hash (b # bs) = (if b = 35 then Some 0 else map_option Suc (find_hash bs))"

definition reads_max_for :: "u64 \<Rightarrow> u64" where
  "reads_max_for split_len = (if split_len \<ge> 6 * 1024 * 1024 then 6 * 1024 * 1024 else 128 * 1024)"

text \<open>The fields are assigned one after the other, so an exception of the second \<open>stoul\<close> leaves the
  file size set. \<open>slices_num_\<close> is 32 bits wide. \<open>map_file\<close> is \<open>MMapOutputArrowFile\<close> on the
  output path.\<close>

definition recv_file_header :: "(u64 \<Rightarrow> mapping) \<Rightarrow> server \<Rightarrow> byte list \<Rightarrow> recv_result" where
  "recv_file_header map_file sv header_str =
     (if header_str \<noteq> [] \<and> hd header_str = 83 then
        (case find_hash header_str of
           None \<Rightarrow> Return (-1) sv
         | Some pos \<Rightarrow>
             (case stoul (take (pos - 1) (drop 1 header_str)) of
                Inl e \<Rightarrow> Throw e sv
              | Inr n \<Rightarrow>
                  (let sv1 = sv\<lparr>sv_file_size := n\<rparr>
                   in case stoul (drop (pos + 1) header_str) of
                        Inl e \<Rightarrow> Throw e sv1
                      | Inr k \<Rightarrow>
                          (let sv2 = sv1\<lparr>sv_slices_num := ucast k\<rparr>
                           in if (ucast k :: u32) = 0 then Fault DivByZero
                              else
                                (let split_len = n div ucast (ucast k :: u32)
                                 in Return 0 (sv2\<lparr>sv_split_len := split_len,
                                       sv_reads_max_bytes := reads_max_for split_len,
                                       sv_start := map_file n\<rparr>))))))
      else Return (-1) sv)"

subsection \<open>A slice\<close>

text \<open>The ten bytes of the slice header.\<close>

definition decode_slice_header :: "byte list \<Rightarrow> u16 \<times> u32 \<times> u32" where
  "decode_slice_header bs =
     (get_u16 (get_bytes bs 0 2), get_u32 (get_bytes bs 2 4), get_u32 (get_bytes bs 6 4))"

definition new_slice_info :: "server \<Rightarrow> byte list \<Rightarrow> FileSliceInfo" where
  "new_slice_info sv bs =
     (case decode_slice_header bs of (index, len, c_len) \<Rightarrow>
        \<lparr>si_index = index, si_c_len = ucast c_len, si_recv_len = 0, si_len = ucast len, si_offset = 0,
         si_buf = (case sv_start sv of Mapped _ \<Rightarrow> Some (ucast index * sv_split_len sv) | _ \<Rightarrow> None),
         si_c_buf = CBuf []\<rparr>)"

text \<open>\<open>num_read\<close> bytes arrive in \<open>c_buf_\<close> at \<open>offset_\<close>.\<close>

definition store_bytes :: "FileSliceInfo \<Rightarrow> byte list \<Rightarrow> c_error + FileSliceInfo" where
  "store_bytes si bs =
     (case si_c_buf si of
        CNull \<Rightarrow> Inl NullDeref
      | CFreed \<Rightarrow> Inl UseAfterFree
      | CBuf got \<Rightarrow>
          (if unat (si_offset si) = length got \<and> length got + length bs \<le> unat (si_c_len si)
           then Inr (si\<lparr>si_c_buf := CBuf (got @ bs)\<rparr>) else Inl BadMemory))"

text \<open>The slice is complete: decompress it into the mapping. The write happens whatever the result
  is; a result that is not the slice length is a failure. \<open>act_wr_size\<close> is an \<open>int\<close> and is
  sign-extended for the comparison with \<open>len_\<close>.\<close>

definition recv_complete :: "'d zstd_d \<Rightarrow> server \<Rightarrow> FileSliceInfo \<Rightarrow> recv_result" where
  "recv_complete z sv si =
     (case si_c_buf si of
        CBuf c \<Rightarrow>
          (case Decompress z c (si_len si) of
             None \<Rightarrow> Hang
           | Some (act_wr_size, written) \<Rightarrow>
               (case (if written = [] then Inr (sv_start sv)
                      else (case si_buf si of
                              None \<Rightarrow> Inl BadMemory
                            | Some off \<Rightarrow> MMapWriting (sv_start sv) written off)) of
                  Inl e \<Rightarrow> Fault e
                | Inr start' \<Rightarrow>
                    (let sv' = sv\<lparr>sv_start := start'\<rparr>
                     in if act_wr_size = -1 then Return (-1) sv'
                        else if scast act_wr_size = si_len si then Return 0 sv'
                        else Return (-1) sv')))
      | _ \<Rightarrow> Fault BadMemory)"

text \<open>Lines 384 to 411: account for the bytes, and finish when all have come.\<close>

definition recv_account ::
    "'d zstd_d \<Rightarrow> server \<Rightarrow> recv_local \<Rightarrow> FileSliceInfo \<Rightarrow> nat \<Rightarrow> recv_result" where
  "recv_account z sv l si num_read =
     (let si' = si\<lparr>si_offset := si_offset si + of_nat num_read\<rparr>;
          sv' = sv\<lparr>sv_mmap := (sv_mmap sv)(rl_index l \<mapsto> si')\<rparr>
      in if si_c_len si' = si_offset si' then recv_complete z sv' si' else Again sv' l)"

text \<open>The first bytes of a slice. With fewer than ten the header is decoded from memory that was
  never written and the following \<open>memcpy\<close> gets a negative size.\<close>

definition recv_first_slice :: "'d zstd_d \<Rightarrow> server \<Rightarrow> recv_local \<Rightarrow> byte list \<Rightarrow> recv_result" where
  "recv_first_slice z sv l bs =
     (if length bs < kSliceHeaderLen then Fault BadMemory
      else
        (let si = new_slice_info sv bs;
             l' = \<lparr>is_first_recv = False, rl_index = si_index si\<rparr>;
             sv' = sv\<lparr>sv_mmap := (sv_mmap sv)(si_index si \<mapsto> si)\<rparr>
         in if length bs = kSliceHeaderLen then Again sv' l'
            else
              (case store_bytes si (drop kSliceHeaderLen bs) of
                 Inl e \<Rightarrow> Fault e
               | Inr si' \<Rightarrow> recv_account z sv' l' si' (length bs - kSliceHeaderLen))))"

text \<open>More bytes of a slice.\<close>

definition recv_more :: "'d zstd_d \<Rightarrow> server \<Rightarrow> recv_local \<Rightarrow> byte list \<Rightarrow> recv_result" where
  "recv_more z sv l bs =
     (case sv_mmap sv (rl_index l) of
        None \<Rightarrow> Fault NullDeref
      | Some si \<Rightarrow>
          (case store_bytes si bs of
             Inl e \<Rightarrow> Fault e
           | Inr si' \<Rightarrow> recv_account z sv l si' (length bs)))"

subsection \<open>One round of the event loop\<close>

text \<open>A read error: the buffer is freed. On a later round the buffer is the inside of \<open>c_buf_\<close>.\<close>

definition recv_read_error :: "server \<Rightarrow> recv_local \<Rightarrow> recv_result" where
  "recv_read_error sv l =
     (if is_first_recv l then Return (-1) sv
      else
        (case sv_mmap sv (rl_index l) of
           None \<Rightarrow> Fault NullDeref
         | Some si \<Rightarrow>
             (if si_offset si \<noteq> 0 then Fault BadFree
              else Return (-1) (sv\<lparr>sv_mmap := (sv_mmap sv)(rl_index l \<mapsto> si\<lparr>si_c_buf := CFreed\<rparr>)\<rparr>))))"

text \<open>Lines 304 to 411.\<close>

definition recv_process ::
    "'d zstd_d \<Rightarrow> (u64 \<Rightarrow> mapping) \<Rightarrow> server \<Rightarrow> recv_local \<Rightarrow> byte list \<Rightarrow> recv_result" where
  "recv_process z map_file sv l bs =
     (if expects_header sv l then recv_file_header map_file sv bs
      else if is_first_recv l then recv_first_slice z sv l bs
      else recv_more z sv l bs)"

text \<open>What \<open>epoll_wait\<close> reports: failure, an event that is not \<open>EPOLLIN\<close>, or readability with the
  results of the reads that follow.\<close>

datatype wake = WakeFail | WakeOther | WakeIn "nat sys list"

text \<open>A round on a connection with the bytes \<open>pending\<close> unread, and what is left of them.\<close>

definition recv_iter ::
    "'d zstd_d \<Rightarrow> (u64 \<Rightarrow> mapping) \<Rightarrow> server \<Rightarrow> recv_local \<Rightarrow> wake \<Rightarrow> byte list \<Rightarrow> recv_result \<times> byte list" where
  "recv_iter z map_file sv l w pending =
     (case w of
        WakeFail \<Rightarrow> (Return (-1) sv, pending)
      | WakeOther \<Rightarrow> (Again sv l, pending)
      | WakeIn rs \<Rightarrow>
          (case recv_prepare sv l of
             Inl e \<Rightarrow> (Fault e, pending)
           | Inr (sv', n_left) \<Rightarrow>
               (case read_loop (unat n_left) pending [] rs of
                  ReadMore \<Rightarrow> (Hang, pending)
                | ReadError rest \<Rightarrow> (recv_read_error sv' l, rest)
                | ReadDone bs rest _ \<Rightarrow> (recv_process z map_file sv' l bs, rest))))"

text \<open>A handler on its own, over the events of its connection. \<open>Recv\<close> first adds the connection to
  an epoll instance of its own; \<open>added\<close> is the success of that.\<close>

fun recv_loop ::
    "'d zstd_d \<Rightarrow> (u64 \<Rightarrow> mapping) \<Rightarrow> server \<Rightarrow> recv_local \<Rightarrow> wake list \<Rightarrow> byte list \<Rightarrow> recv_result \<times> byte list" where
  "recv_loop z map_file sv l [] pending = (Again sv l, pending)"
| "recv_loop z map_file sv l (w # ws) pending =
     (case recv_iter z map_file sv l w pending of
        (Again sv' l', pending') \<Rightarrow> recv_loop z map_file sv' l' ws pending'
      | r \<Rightarrow> r)"

definition Recv ::
    "'d zstd_d \<Rightarrow> (u64 \<Rightarrow> mapping) \<Rightarrow> bool \<Rightarrow> server \<Rightarrow> wake list \<Rightarrow> byte list \<Rightarrow> recv_result \<times> byte list" where
  "Recv z map_file added sv ws pending =
     (if added then recv_loop z map_file sv recv_start ws pending else (Return (-1) sv, pending))"

text \<open>The same with the kernel's side written out. The connection is added with \<open>EPOLLET\<close>: there is one
  wake-up for each arrival of bytes, and no other. What has arrived and was not read is at hand at the
  next arrival. A read takes what is there, up to the size of the buffer. The result is where the
  handler is after all arrivals, with what it has left unread.\<close>

fun recv_edges ::
    "'d zstd_d \<Rightarrow> (u64 \<Rightarrow> mapping) \<Rightarrow> server \<Rightarrow> recv_local \<Rightarrow> byte list \<Rightarrow> byte list list \<Rightarrow> recv_result \<times> byte list" where
  "recv_edges z map_file sv l unread [] = (Again sv l, unread)"
| "recv_edges z map_file sv l unread (bs # arrivals) =
     (case recv_iter z map_file sv l (WakeIn [Ok (length (unread @ bs)), Err EAGAIN]) (unread @ bs) of
        (Again sv' l', rest) \<Rightarrow> recv_edges z map_file sv' l' rest arrivals
      | r \<Rightarrow> r)"

definition Recv_edges :: "'d zstd_d \<Rightarrow> (u64 \<Rightarrow> mapping) \<Rightarrow> server \<Rightarrow> byte list list \<Rightarrow> recv_result \<times> byte list" where
  "Recv_edges z map_file sv arrivals = recv_edges z map_file sv recv_start [] arrivals"

text \<open>How a handler ended, as its future tells it.\<close>

datatype handler_result = Returned int | Threw c_error

subsection \<open>Lemmas on one round\<close>

lemma find_hash_append: "35 \<notin> set pre \<Longrightarrow> find_hash (pre @ 35 # post) = Some (length pre)"
  by (induction pre) auto

lemma print_nat_no_hash: "35 \<notin> set (print_nat n)"
  using print_nat_digits [of n] by (auto simp: list_all_iff is_digit_def)

lemma digit_text_no_hash: "list_all is_digit ds \<Longrightarrow> 35 \<notin> set ds"
  by (auto simp: list_all_iff is_digit_def)

text \<open>Any text \<open>S\<close>, digits, \<open>#\<close>, digits is a header.\<close>

lemma recv_file_header_digits:
  assumes "ds \<noteq> []" "list_all is_digit ds" "digits_value ds < 2 ^ 64"
    and "es \<noteq> []" "list_all is_digit es" "0 < digits_value es" "digits_value es < 2 ^ 32"
  shows "recv_file_header map_file sv (83 # ds @ 35 # es)
    = Return 0 (sv\<lparr>sv_file_size := of_nat (digits_value ds), sv_slices_num := of_nat (digits_value es),
        sv_split_len := of_nat (digits_value ds) div of_nat (digits_value es),
        sv_reads_max_bytes := reads_max_for (of_nat (digits_value ds) div of_nat (digits_value es)),
        sv_start := map_file (of_nat (digits_value ds))\<rparr>)"
proof -
  let ?n = "digits_value ds" and ?k = "digits_value es"
  have pos: "find_hash (83 # ds @ 35 # es) = Some (Suc (length ds))"
    using find_hash_append [of ds es] digit_text_no_hash [OF assms(2)] by simp
  have n: "stoul ds = Inr (of_nat ?n)" using stoul_digits [OF assms(1,2), of "[]"] assms(3) by simp
  have k: "stoul es = Inr (of_nat ?k)" using stoul_digits [OF assms(4,5), of "[]"] assms(7) by simp
  have "unat (of_nat ?k :: u32) = ?k" using assms(7) by (simp add: unat_of_nat)
  then have k0: "(of_nat ?k :: u32) \<noteq> 0" using assms(6) by auto
  show ?thesis
    using pos n k k0 by (simp add: recv_file_header_def Let_def ucast_of_nat_u32 ucast_u32_of_nat [OF assms(7)])
qed

lemma recv_complete_frame:
  assumes "decompressor_contract z fed made frame" and "frame x y"
    and "x \<noteq> []" and "y \<noteq> []" and "length x < 2 ^ 31"
    and "si_c_buf si = CBuf y" and "si_len si = of_nat (length x)" and "si_buf si = Some off"
    and "sv_start sv = Mapped mem" and "unat off + length x \<le> length mem"
  shows "recv_complete z sv si = Return 0 (sv\<lparr>sv_start := Mapped (put_bytes mem (unat off) x)\<rparr>)"
proof -
  have "length x < 2 ^ 64" using assms(5) by simp
  then have d: "Decompress z y (si_len si) = Some (of_nat (length x), x)"
    unfolding assms(7) by (rule Decompress_frame [OF assms(1-4)])
  have "sint (of_nat (length x) :: s32) = int (length x)" using assms(5) by (rule sint_s32_of_nat)
  then have "(of_nat (length x) :: s32) \<noteq> -1" by auto
  moreover have "(scast (of_nat (length x) :: s32) :: u64) = of_nat (length x)" using assms(5) by (rule scast_s32_of_nat)
  ultimately show ?thesis
    using d assms(3,6-10) by (simp add: recv_complete_def MMapWriting_def mem_write_def Let_def)
qed

end
