(* ===== verification/File_Transfer.thy ===== *)
theory File_Transfer
  imports Sending_Flow Recv_Flow
begin

section \<open>Sender and receiver together\<close>

text \<open>
  Where the two programs meet: the receiver decodes what the sender encoded, and the handlers of
  the slice connections, interleaved in any way, rebuild the file.
\<close>

subsection \<open>The slice header as a codec\<close>

lemma decode_slice_header_append:
  "decode_slice_header (slice_header i l c @ rest) = (i, l, c)"
proof -
  have "get_u16 (get_bytes (slice_header i l c @ rest) 0 2) = i"
    using wire16.dec_field [of "[]" i "put_u32 l @ put_u32 c @ rest"] by (simp add: slice_header_def)
  moreover have "get_u32 (get_bytes (slice_header i l c @ rest) 2 4) = l"
    using wire32.dec_field [of "put_u16 i" l "put_u32 c @ rest"] by (simp add: slice_header_def wire16.length_enc)
  moreover have "get_u32 (get_bytes (slice_header i l c @ rest) 6 4) = c"
    using wire32.dec_field [of "put_u16 i @ put_u32 l" c rest]
    by (simp add: slice_header_def wire16.length_enc wire32.length_enc)
  ultimately show ?thesis by (simp add: decode_slice_header_def)
qed

interpretation slice_codec: fixed_codec "\<lambda>(i, l, c). slice_header i l c" decode_slice_header 10
proof (unfold_locales, goal_cases)
  case (1 x)
  obtain i l c where "x = (i, l, c)" by (cases x)
  then show ?case using decode_slice_header_append [of i l c "[]"] by simp
next
  case (2 x)
  then show ?case by (cases x) simp
qed

subsection \<open>A handler and its slice\<close>

text \<open>The header has been processed: the output is mapped and the read size is set.\<close>

definition ready :: "server \<Rightarrow> byte list \<Rightarrow> bool" where
  "ready sv mem \<longleftrightarrow> sv_split_len sv \<noteq> 0 \<and> sv_start sv = Mapped mem \<and> 10 < unat (sv_reads_max_bytes sv)"

text \<open>The map entry of slice \<open>i\<close> with content \<open>x\<close> and compressed form \<open>y\<close>, of which \<open>got\<close> has come.\<close>

definition slice_entry :: "server \<Rightarrow> u16 \<Rightarrow> byte list \<Rightarrow> byte list \<Rightarrow> byte list \<Rightarrow> FileSliceInfo" where
  "slice_entry sv i x y got =
     \<lparr>si_index = i, si_c_len = of_nat (length y), si_recv_len = 0, si_len = of_nat (length x),
      si_offset = of_nat (length got), si_buf = Some (ucast i * sv_split_len sv), si_c_buf = CBuf got\<rparr>"

text \<open>A live handler: nothing of the message read yet, or the header and a part \<open>got\<close> of the
  payload.\<close>

definition receiving :: "server \<Rightarrow> recv_local \<Rightarrow> u16 \<Rightarrow> byte list \<Rightarrow> byte list \<Rightarrow> byte list \<Rightarrow> bool" where
  "receiving sv l i x y pending \<longleftrightarrow>
     (is_first_recv l \<and> pending = slice_header i (of_nat (length x)) (of_nat (length y)) @ y) \<or>
     (\<not> is_first_recv l \<and> rl_index l = i \<and>
        (\<exists>got. y = got @ pending \<and> pending \<noteq> [] \<and> sv_mmap sv i = Some (slice_entry sv i x y got)))"

text \<open>What is fixed about a slice while it is received.\<close>

definition slice_fits :: "server \<Rightarrow> byte list \<Rightarrow> u16 \<Rightarrow> byte list \<Rightarrow> byte list \<Rightarrow> bool" where
  "slice_fits sv mem i x y \<longleftrightarrow> x \<noteq> [] \<and> length x < 2 ^ 31 \<and> y \<noteq> [] \<and> length y < 2 ^ 32 \<and>
     unat (ucast i * sv_split_len sv) + length x \<le> length mem"

lemma new_slice_info_message:
  assumes "sv_start sv = Mapped mem" and "slice_fits sv mem i x y"
  shows "new_slice_info sv (slice_header i (of_nat (length x)) (of_nat (length y)) @ got) = slice_entry sv i x y []"
proof -
  have "length x < 2 ^ 32" and "length y < 2 ^ 32" using assms(2) by (simp_all add: slice_fits_def)
  then show ?thesis
    using assms(1) by (simp add: new_slice_info_def decode_slice_header_append slice_entry_def ucast_u32_of_nat)
qed

lemma store_entry:
  assumes "length y < 2 ^ 32" and "length (got @ bs) \<le> length y"
  shows "store_bytes (slice_entry sv i x y got) bs = Inr ((slice_entry sv i x y got)\<lparr>si_c_buf := CBuf (got @ bs)\<rparr>)"
proof -
  have "unat (of_nat (length got) :: u64) = length got" and "unat (of_nat (length y) :: u64) = length y"
    using assms by (simp_all add: unat_u64_of_nat)
  then show ?thesis using assms(2) by (simp add: store_bytes_def slice_entry_def)
qed

text \<open>Accounting for \<open>bs\<close>: the handler goes on, or the slice is complete and its content is written
  to its place.\<close>

lemma account_slice:
  assumes "decompressor_contract z fed made frame" and "frame x y"
    and "ready sv mem" and "slice_fits sv mem i x y" and "rl_index l = i"
    and "y = got @ bs @ rest" and "si = (slice_entry sv i x y got)\<lparr>si_c_buf := CBuf (got @ bs)\<rparr>"
  shows "recv_account z sv l si (length bs)
    = (if rest \<noteq> [] then Again (sv\<lparr>sv_mmap := (sv_mmap sv)(i \<mapsto> slice_entry sv i x y (got @ bs))\<rparr>) l
       else Return 0 (sv\<lparr>sv_mmap := (sv_mmap sv)(i \<mapsto> slice_entry sv i x y y),
                        sv_start := Mapped (put_bytes mem (unat (ucast i * sv_split_len sv)) x)\<rparr>))"
proof -
  let ?si = "slice_entry sv i x y (got @ bs)"
  let ?sv = "sv\<lparr>sv_mmap := (sv_mmap sv)(i \<mapsto> ?si)\<rparr>"
  have si': "si\<lparr>si_offset := si_offset si + of_nat (length bs)\<rparr> = ?si"
    by (simp add: assms(7) slice_entry_def)
  have y: "length y < 2 ^ 64" and gb: "length (got @ bs) < 2 ^ 64"
    using assms(4,6) by (auto simp: slice_fits_def)
  have "si_c_len ?si = si_offset ?si \<longleftrightarrow> length y = length (got @ bs)"
    using of_nat_u64_eq_iff [OF y gb] by (simp add: slice_entry_def)
  then have fin: "si_c_len ?si = si_offset ?si \<longleftrightarrow> rest = []" using assms(6) by simp
  have "recv_complete z ?sv ?si
      = Return 0 (?sv\<lparr>sv_start := Mapped (put_bytes mem (unat (ucast i * sv_split_len sv)) x)\<rparr>)" if "rest = []"
    by (rule recv_complete_frame [OF assms(1,2)])
      (use assms(3,4,6) that in \<open>auto simp: slice_fits_def slice_entry_def ready_def\<close>)
  then show ?thesis
    using si' fin assms(5,6) by (auto simp: recv_account_def Let_def)
qed

text \<open>One processing step of a live handler, for any split of its stream into what was read and
  what is left, as long as the first read brings at least the header.\<close>

lemma process_slice:
  assumes ct: "decompressor_contract z fed made frame" "frame x y"
    and rd: "ready sv mem" and ft: "slice_fits sv mem i x y"
    and rc: "receiving sv l i x y (bs @ rest)" and hd: "is_first_recv l \<Longrightarrow> 10 \<le> length bs"
  shows "if rest \<noteq> []
    then \<exists>got l'. recv_process z map_file sv l bs
        = Again (sv\<lparr>sv_mmap := (sv_mmap sv)(i \<mapsto> slice_entry sv i x y got)\<rparr>) l'
      \<and> \<not> is_first_recv l' \<and> rl_index l' = i \<and> y = got @ rest
    else recv_process z map_file sv l bs
        = Return 0 (sv\<lparr>sv_mmap := (sv_mmap sv)(i \<mapsto> slice_entry sv i x y y),
                        sv_start := Mapped (put_bytes mem (unat (ucast i * sv_split_len sv)) x)\<rparr>)"
proof -
  have nh: "\<not> expects_header sv l" and st: "sv_start sv = Mapped mem"
    using rd by (simp_all add: expects_header_def ready_def)
  have y32: "length y < 2 ^ 32" and yne: "y \<noteq> []" using ft by (simp_all add: slice_fits_def)
  show ?thesis
  proof (cases "is_first_recv l")
    case True
    let ?h = "slice_header i (of_nat (length x)) (of_nat (length y))"
    have msg: "?h @ y = bs @ rest" using rc True by (simp add: receiving_def)
    have "take 10 (?h @ y) = take 10 (bs @ rest)" "drop 10 (?h @ y) = drop 10 (bs @ rest)"
      using msg by simp_all
    then have bs: "take 10 bs = ?h" and yy: "y = drop 10 bs @ rest" using hd [OF True] by simp_all
    then have bs': "bs = ?h @ drop 10 bs" by (metis append_take_drop_id)
    let ?got = "drop 10 bs" and ?l = "\<lparr>is_first_recv = False, rl_index = i\<rparr>"
    let ?sv = "sv\<lparr>sv_mmap := (sv_mmap sv)(i \<mapsto> slice_entry sv i x y [])\<rparr>"
    have si: "new_slice_info sv bs = slice_entry sv i x y []"
      using new_slice_info_message [OF st ft, of ?got] bs' by simp
    have ix: "si_index (slice_entry sv i x y []) = i" by (simp add: slice_entry_def)
    have pr: "recv_process z map_file sv l bs
      = (if ?got = [] then Again ?sv ?l
         else recv_account z ?sv ?l ((slice_entry ?sv i x y [])\<lparr>si_c_buf := CBuf ([] @ ?got)\<rparr>) (length ?got))"
      using True nh hd [OF True] yy store_entry [OF y32, of "[]" ?got sv i x]
      by (auto simp: recv_process_def recv_first_slice_def kSliceHeaderLen_def si ix Let_def slice_entry_def)
    have rd': "ready ?sv mem" and ft': "slice_fits ?sv mem i x y"
      using rd ft by (simp_all add: ready_def slice_fits_def)
    have y0: "y = [] @ ?got @ rest" using yy by simp
    note ac = account_slice [OF ct rd' ft' _ y0 refl, of ?l]
    show ?thesis
    proof (cases "?got = []")
      case True
      then show ?thesis using pr yy yne by (auto intro!: exI [of _ "[]"] exI [of _ ?l])
    next
      case False
      then show ?thesis using pr ac yy
        by (auto simp: slice_entry_def intro!: exI [of _ ?got] exI [of _ ?l])
    qed
  next
    case False
    then obtain got where l: "rl_index l = i" and y: "y = got @ bs @ rest"
      and en: "sv_mmap sv i = Some (slice_entry sv i x y got)"
      using rc by (auto simp: receiving_def)
    have "recv_process z map_file sv l bs
        = recv_account z sv l ((slice_entry sv i x y got)\<lparr>si_c_buf := CBuf (got @ bs)\<rparr>) (length bs)"
      using False nh l en y store_entry [OF y32, of got bs sv i x]
      by (simp add: recv_process_def recv_more_def)
    then show ?thesis
      using account_slice [OF ct rd ft l y refl] False l y
      by (auto intro!: exI [of _ "got @ bs"] exI [of _ l])
  qed
qed

text \<open>One round of a live handler, whatever the event and the reads.\<close>

definition round_post :: "server \<Rightarrow> byte list \<Rightarrow> u16 \<Rightarrow> byte list \<Rightarrow> byte list \<Rightarrow> recv_result \<Rightarrow> byte list \<Rightarrow> bool" where
  "round_post sv mem i x y r pending =
     (case r of
        Again sv' l' \<Rightarrow> (\<exists>e. sv' = sv\<lparr>sv_mmap := (sv_mmap sv)(i := e)\<rparr>) \<and> receiving sv' l' i x y pending
      | Return q sv' \<Rightarrow>
          (\<exists>e. q = -1 \<and> sv' = sv\<lparr>sv_mmap := (sv_mmap sv)(i := e)\<rparr>) \<or>
          (\<exists>e. q = 0 \<and> sv' = sv\<lparr>sv_mmap := (sv_mmap sv)(i := e),
                 sv_start := Mapped (put_bytes mem (unat (ucast i * sv_split_len sv)) x)\<rparr>)
      | Throw _ _ \<Rightarrow> False
      | _ \<Rightarrow> True)"

lemma mmap_same: "sv = sv\<lparr>sv_mmap := (sv_mmap sv)(i := sv_mmap sv i)\<rparr>"
  by simp

lemma prepare_slice:
  assumes "ready sv mem" and "receiving sv l i x y pending"
  shows "\<exists>n. recv_prepare sv l = Inr (sv, n)"
  using assms by (auto simp: recv_prepare_def expects_header_def ready_def receiving_def Let_def)

lemma read_error_slice:
  assumes "receiving sv l i x y pending"
  shows "round_post sv mem i x y (recv_read_error sv l) p'"
proof (cases "is_first_recv l")
  case True
  have "\<exists>e. sv = sv\<lparr>sv_mmap := (sv_mmap sv)(i := e)\<rparr>" using mmap_same by blast
  with True show ?thesis by (simp add: recv_read_error_def round_post_def)
next
  case False
  then show ?thesis
    using assms by (auto simp: recv_read_error_def round_post_def receiving_def fun_upd_def)
qed

lemma process_round:
  assumes "decompressor_contract z fed made frame" "frame x y" "ready sv mem" "slice_fits sv mem i x y"
    and "receiving sv l i x y (bs @ rest)"
  shows "round_post sv mem i x y (recv_process z map_file sv l bs) rest"
proof (cases "is_first_recv l \<and> length bs < 10")
  case True
  then have "recv_process z map_file sv l bs = Fault BadMemory"
    using assms(3) by (simp add: recv_process_def recv_first_slice_def kSliceHeaderLen_def expects_header_def ready_def)
  then show ?thesis by (simp add: round_post_def)
next
  case False
  then have "is_first_recv l \<Longrightarrow> 10 \<le> length bs" by simp
  note ps = process_slice [OF assms this, of map_file]
  show ?thesis
  proof (cases "rest = []")
    case True
    with ps show ?thesis by (auto simp: round_post_def)
  next
    case False
    with ps obtain got l' where "recv_process z map_file sv l bs
        = Again (sv\<lparr>sv_mmap := (sv_mmap sv)(i \<mapsto> slice_entry sv i x y got)\<rparr>) l'"
      "\<not> is_first_recv l'" "rl_index l' = i" "y = got @ rest" by auto
    then show ?thesis using False
      by (auto simp: round_post_def receiving_def slice_entry_def intro!: exI [of _ "Some (slice_entry sv i x y got)"])
  qed
qed

lemma iter_slice:
  assumes "decompressor_contract z fed made frame" "frame x y" "ready sv mem" "slice_fits sv mem i x y"
    and "receiving sv l i x y pending" and "recv_iter z map_file sv l w pending = (r, p')"
  shows "round_post sv mem i x y r p'"
proof (cases w)
  case WakeFail
  have "\<exists>e. sv = sv\<lparr>sv_mmap := (sv_mmap sv)(i := e)\<rparr>" using mmap_same by blast
  with WakeFail assms(6) show ?thesis by (auto simp: recv_iter_def round_post_def)
next
  case WakeOther
  have "\<exists>e. sv = sv\<lparr>sv_mmap := (sv_mmap sv)(i := e)\<rparr>" using mmap_same by blast
  with WakeOther assms(5,6) show ?thesis by (auto simp: recv_iter_def round_post_def)
next
  case (WakeIn rs)
  obtain n where n: "recv_prepare sv l = Inr (sv, n)" using prepare_slice [OF assms(3,5)] by blast
  show ?thesis
  proof (cases "read_loop (unat n) pending [] rs")
    case (ReadDone bs rest rs')
    then have "pending = bs @ rest" using read_loop_conserves by fastforce
    then show ?thesis
      using process_round [OF assms(1-4), of l bs rest map_file] assms(5,6) ReadDone WakeIn n
      by (simp add: recv_iter_def)
  next
    case (ReadError rest)
    then show ?thesis
      using read_error_slice [OF assms(5), of mem rest] assms(6) WakeIn n by (simp add: recv_iter_def)
  next
    case ReadMore
    then show ?thesis using assms(6) WakeIn n by (auto simp: recv_iter_def round_post_def)
  qed
qed

subsection \<open>All handlers, interleaved\<close>

text \<open>The receiver once the file header has been processed: the static state and the slice
  connections in the order of their slices. A step is one round of one live handler, with any
  event and any results of the reads; a round that crashes the process is not a step to
  another state.\<close>

record conn =
  cn_local :: recv_local
  cn_pending :: "byte list"
  cn_result :: "handler_result option"

record net =
  nt_server :: server
  nt_conns :: "conn list"

inductive net_step :: "'d zstd_d \<Rightarrow> (u64 \<Rightarrow> mapping) \<Rightarrow> net \<Rightarrow> net \<Rightarrow> bool"
  for z :: "'d zstd_d" and map_file :: "u64 \<Rightarrow> mapping" where
  again: "j < length (nt_conns n) \<Longrightarrow> c = nt_conns n ! j \<Longrightarrow> cn_result c = None \<Longrightarrow>
    recv_iter z map_file (nt_server n) (cn_local c) w (cn_pending c) = (Again sv l, p) \<Longrightarrow>
    net_step z map_file n \<lparr>nt_server = sv, nt_conns = (nt_conns n)[j := c\<lparr>cn_local := l, cn_pending := p\<rparr>]\<rparr>"
| return: "j < length (nt_conns n) \<Longrightarrow> c = nt_conns n ! j \<Longrightarrow> cn_result c = None \<Longrightarrow>
    recv_iter z map_file (nt_server n) (cn_local c) w (cn_pending c) = (Return q sv, p) \<Longrightarrow>
    net_step z map_file n
      \<lparr>nt_server = sv, nt_conns = (nt_conns n)[j := c\<lparr>cn_pending := p, cn_result := Some (Returned q)\<rparr>]\<rparr>"
| throw: "j < length (nt_conns n) \<Longrightarrow> c = nt_conns n ! j \<Longrightarrow> cn_result c = None \<Longrightarrow>
    recv_iter z map_file (nt_server n) (cn_local c) w (cn_pending c) = (Throw e sv, p) \<Longrightarrow>
    net_step z map_file n
      \<lparr>nt_server = sv, nt_conns = (nt_conns n)[j := c\<lparr>cn_pending := p, cn_result := Some (Threw e)\<rparr>]\<rparr>"

text \<open>One round of a handler; \<open>None\<close> when it hangs. A failing \<open>epoll_ctl\<close> at the start of the handler has
  the effect of a first wait that fails.\<close>

definition conn_round :: "'d zstd_d \<Rightarrow> (u64 \<Rightarrow> mapping) \<Rightarrow> server \<Rightarrow> conn \<Rightarrow> wake \<Rightarrow> (c_error + server \<times> conn) option" where
  "conn_round z map_file sv c w =
     (case recv_iter z map_file sv (cn_local c) w (cn_pending c) of
        (Again sv' l, p) \<Rightarrow> Some (Inr (sv', c\<lparr>cn_local := l, cn_pending := p\<rparr>))
      | (Return q sv', p) \<Rightarrow> Some (Inr (sv', c\<lparr>cn_pending := p, cn_result := Some (Returned q)\<rparr>))
      | (Throw e sv', p) \<Rightarrow> Some (Inr (sv', c\<lparr>cn_pending := p, cn_result := Some (Threw e)\<rparr>))
      | (Fault e, p) \<Rightarrow> Some (Inl e)
      | (Hang, p) \<Rightarrow> None)"

text \<open>A round of a handler is a step of \<open>net_step\<close>.\<close>

lemma conn_round_net:
  assumes "j < length (nt_conns n)" and "cn_result (nt_conns n ! j) = None"
    and "conn_round z map_file (nt_server n) (nt_conns n ! j) w = Some (Inr (sv, c))"
  shows "net_step z map_file n \<lparr>nt_server = sv, nt_conns = (nt_conns n)[j := c]\<rparr>"
proof -
  obtain r p where it: "recv_iter z map_file (nt_server n) (cn_local (nt_conns n ! j)) w (cn_pending (nt_conns n ! j)) = (r, p)" by fastforce
  show ?thesis
  proof (cases r)
    case (Again sv' l)
    then show ?thesis using net_step.again [OF assms(1) refl assms(2)] it assms(3) by (auto simp: conn_round_def)
  next
    case (Return q sv')
    then show ?thesis using net_step.return [OF assms(1) refl assms(2)] it assms(3) by (auto simp: conn_round_def)
  next
    case (Throw e sv')
    then show ?thesis using net_step.throw [OF assms(1) refl assms(2)] it assms(3) by (auto simp: conn_round_def)
  qed (use it assms(3) in \<open>auto simp: conn_round_def\<close>)
qed

text \<open>The setting: a sound split whose segment size both sides agree on, slices below 2 GiB, and for
  every slice a frame that fits the length field of the header.\<close>

definition transfer_setup ::
    "(byte list \<Rightarrow> byte list \<Rightarrow> bool) \<Rightarrow> flags \<Rightarrow> byte list \<Rightarrow> byte list list \<Rightarrow> u64 \<Rightarrow> bool" where
  "transfer_setup frame fl data ys split_len \<longleftrightarrow>
     split_ok (fl, data) \<and> length ys = length (split_slices fl data) \<and> split_len \<noteq> 0 \<and>
     (\<forall>j < length ys. let f = split_slices fl data ! j in
        fs_split_len f = split_len \<and> unat (fs_len f) < 2 ^ 31 \<and>
        frame (slice_bytes f) (ys ! j) \<and> ys ! j \<noteq> [] \<and> length (ys ! j) < 2 ^ 32)"

definition net_init ::
    "'d zstd_d \<Rightarrow> ('d \<Rightarrow> byte list) \<Rightarrow> ('d \<Rightarrow> byte list) \<Rightarrow> (byte list \<Rightarrow> byte list \<Rightarrow> bool) \<Rightarrow>
     flags \<Rightarrow> byte list \<Rightarrow> byte list list \<Rightarrow> net \<Rightarrow> bool" where
  "net_init z fed made frame fl data ys n \<longleftrightarrow>
     decompressor_contract z fed made frame \<and>
     transfer_setup frame fl data ys (sv_split_len (nt_server n)) \<and>
     (\<exists>mem. ready (nt_server n) mem \<and> length mem = length data) \<and>
     nt_conns n = map (\<lambda>j. \<lparr>cn_local = recv_start,
        cn_pending = slice_message (split_slices fl data ! j) (ys ! j), cn_result = None\<rparr>) [0..<length ys]"

text \<open>The invariant: live handlers are receiving their slice, and the slice of a handler that
  returned 0 is in its place.\<close>

definition conn_inv :: "flags \<Rightarrow> byte list \<Rightarrow> byte list list \<Rightarrow> server \<Rightarrow> byte list \<Rightarrow> nat \<Rightarrow> conn \<Rightarrow> bool" where
  "conn_inv fl data ys sv mem j c \<longleftrightarrow>
     (cn_result c = None \<longrightarrow>
        receiving sv (cn_local c) (of_nat j) (slice_bytes (split_slices fl data ! j)) (ys ! j) (cn_pending c)) \<and>
     (cn_result c = Some (Returned 0) \<longrightarrow>
        get_bytes mem (unat (GetBuf (split_slices fl data ! j))) (unat (fs_len (split_slices fl data ! j)))
          = slice_bytes (split_slices fl data ! j))"

definition net_inv ::
    "'d zstd_d \<Rightarrow> ('d \<Rightarrow> byte list) \<Rightarrow> ('d \<Rightarrow> byte list) \<Rightarrow> (byte list \<Rightarrow> byte list \<Rightarrow> bool) \<Rightarrow>
     flags \<Rightarrow> byte list \<Rightarrow> byte list list \<Rightarrow> net \<Rightarrow> bool" where
  "net_inv z fed made frame fl data ys n \<longleftrightarrow>
     decompressor_contract z fed made frame \<and>
     transfer_setup frame fl data ys (sv_split_len (nt_server n)) \<and>
     length (nt_conns n) = length ys \<and>
     (\<exists>mem. ready (nt_server n) mem \<and> length mem = length data \<and>
        (\<forall>j < length ys. conn_inv fl data ys (nt_server n) mem j (nt_conns n ! j)))"

text \<open>Facts about slice \<open>j\<close> in the setting.\<close>

lemma setup_slice:
  assumes "transfer_setup frame fl data ys split_len" and "j < length ys"
  shows "fs_index (split_slices fl data ! j) = of_nat j" and "j < 2 ^ 16"
    and "length (slice_bytes (split_slices fl data ! j)) = unat (fs_len (split_slices fl data ! j))"
    and "slice_bytes (split_slices fl data ! j) \<noteq> []" and "length (slice_bytes (split_slices fl data ! j)) < 2 ^ 31"
    and "unat (GetBuf (split_slices fl data ! j)) = unat (ucast (of_nat j :: u16) * split_len)"
    and "slice_bytes (split_slices fl data ! j)
      = get_bytes data (unat (GetBuf (split_slices fl data ! j))) (unat (fs_len (split_slices fl data ! j)))"
    and "unat (GetBuf (split_slices fl data ! j)) + unat (fs_len (split_slices fl data ! j)) \<le> length data"
proof -
  let ?f = "split_slices fl data ! j"
  have ok: "split_ok (fl, data)" and j: "j < length (split_slices fl data)"
    and f: "fs_split_len ?f = split_len" "unat (fs_len ?f) < 2 ^ 31"
    using assms by (auto simp: transfer_setup_def Let_def)
  from ok j obtain S where S: "0 < S" "length data div S \<le> 2 ^ 16" "j < length data div S"
    and g: "fs_slice ?f = data" "fs_index ?f = of_nat j"
      "unat (fs_len ?f) = (if Suc j = length data div S then S + length data mod S else S)"
    by (auto elim!: split_slices_nth)
  show ix: "fs_index ?f = of_nat j" by (rule g(2))
  show "j < 2 ^ 16" using S by linarith
  show bd: "unat (GetBuf ?f) + unat (fs_len ?f) \<le> length data" using slices.piece_bound [OF ok, of j] j by simp
  show sb: "slice_bytes ?f = get_bytes data (unat (GetBuf ?f)) (unat (fs_len ?f))"
    by (simp add: slice_bytes_def g(1))
  show len: "length (slice_bytes ?f) = unat (fs_len ?f)" using bd sb by (simp add: length_get_bytes)
  show "length (slice_bytes ?f) < 2 ^ 31" using len f(2) by simp
  have "0 < length (slice_bytes ?f)" using len g(3) S(1) by simp
  then show "slice_bytes ?f \<noteq> []" by simp
  show "unat (GetBuf ?f) = unat (ucast (of_nat j :: u16) * split_len)" by (simp add: GetBuf_def ix f(1))
qed

lemma setup_fits:
  assumes "transfer_setup frame fl data ys (sv_split_len sv)" and "j < length ys" and "length mem = length data"
  shows "slice_fits sv mem (of_nat j) (slice_bytes (split_slices fl data ! j)) (ys ! j)"
proof -
  have "ys ! j \<noteq> []" "length (ys ! j) < 2 ^ 32" using assms(1,2) by (auto simp: transfer_setup_def Let_def)
  moreover note sl = setup_slice [OF assms(1,2)]
  have "unat (ucast (of_nat j :: u16) * sv_split_len sv) + length (slice_bytes (split_slices fl data ! j)) \<le> length mem"
    using sl(3,6,8) assms(3) by simp
  ultimately show ?thesis using sl(4,5) by (simp add: slice_fits_def)
qed

lemma index_inj: "j < 2 ^ 16 \<Longrightarrow> k < 2 ^ 16 \<Longrightarrow> (of_nat j :: u16) = of_nat k \<Longrightarrow> j = k"
  by (metis unat_u16_of_nat)

text \<open>A round of handler \<open>j\<close> that only touches its own map entry.\<close>

lemma other_conn_entry:
  assumes "transfer_setup frame fl data ys (sv_split_len sv)" and "j < length ys" and "k < length ys" and "k \<noteq> j"
    and "conn_inv fl data ys sv mem k c" and "sv' = sv\<lparr>sv_mmap := (sv_mmap sv)(of_nat j := e)\<rparr>"
  shows "conn_inv fl data ys sv' mem k c"
proof -
  have "(of_nat k :: u16) \<noteq> of_nat j"
    using setup_slice(2) [OF assms(1)] assms(2-4) index_inj by blast
  then show ?thesis using assms(5,6) by (simp add: conn_inv_def receiving_def slice_entry_def)
qed

text \<open>A round of handler \<open>j\<close> that completes its slice.\<close>

lemma complete_slice:
  assumes su: "transfer_setup frame fl data ys (sv_split_len sv)" and j: "j < length ys" and len: "length mem = length data"
    and mem': "mem' = put_bytes mem (unat (ucast (of_nat j :: u16) * sv_split_len sv)) (slice_bytes (split_slices fl data ! j))"
    and sv': "sv' = sv\<lparr>sv_mmap := (sv_mmap sv)(of_nat j := e), sv_start := Mapped mem'\<rparr>"
  shows "length mem' = length data"
    and "get_bytes mem' (unat (GetBuf (split_slices fl data ! j))) (unat (fs_len (split_slices fl data ! j)))
      = slice_bytes (split_slices fl data ! j)"
    and "k < length ys \<Longrightarrow> k \<noteq> j \<Longrightarrow> conn_inv fl data ys sv mem k c \<Longrightarrow> conn_inv fl data ys sv' mem' k c"
proof -
  note sl = setup_slice [OF su j]
  have ok: "split_ok (fl, data)" and ys: "length ys = length (split_slices fl data)"
    using su by (auto simp: transfer_setup_def)
  have m: "mem' = put_bytes mem (unat (GetBuf (split_slices fl data ! j)))
      (get_bytes data (unat (GetBuf (split_slices fl data ! j))) (unat (fs_len (split_slices fl data ! j))))"
    using mem' sl(6,7) by simp
  note wp = slices.write_piece [OF ok, of data mem j mem', simplified, OF len _ m]
  have jl: "j < length (split_slices fl data)" using j ys by simp
  show "length mem' = length data" using wp(1) [OF jl] m by simp
  show "get_bytes mem' (unat (GetBuf (split_slices fl data ! j))) (unat (fs_len (split_slices fl data ! j)))
      = slice_bytes (split_slices fl data ! j)" using wp(2) [OF jl] sl(7) m by simp
  assume k: "k < length ys" "k \<noteq> j" "conn_inv fl data ys sv mem k c"
  have "get_bytes mem' (unat (GetBuf (split_slices fl data ! k))) (unat (fs_len (split_slices fl data ! k)))
      = get_bytes mem (unat (GetBuf (split_slices fl data ! k))) (unat (fs_len (split_slices fl data ! k)))"
    using wp(3) [OF jl, of k] k ys m by simp
  then show "conn_inv fl data ys sv' mem' k c"
    using other_conn_entry [OF su j k(1,2,3) refl, of e] sv'
    by (simp add: conn_inv_def receiving_def slice_entry_def)
qed

lemma net_round:
  assumes inv: "net_inv z fed made frame fl data ys n" and j: "j < length (nt_conns n)" and c: "c = nt_conns n ! j"
    and live: "cn_result c = None"
    and it: "recv_iter z map_file (nt_server n) (cn_local c) w (cn_pending c) = (r, p)"
  obtains mem where "ready (nt_server n) mem" "length mem = length data"
    "\<forall>k < length ys. conn_inv fl data ys (nt_server n) mem k (nt_conns n ! k)" "j < length ys"
    "transfer_setup frame fl data ys (sv_split_len (nt_server n))"
    "round_post (nt_server n) mem (of_nat j) (slice_bytes (split_slices fl data ! j)) (ys ! j) r p"
proof -
  from inv obtain mem where mem: "ready (nt_server n) mem" "length mem = length data"
    and ci: "\<forall>k < length ys. conn_inv fl data ys (nt_server n) mem k (nt_conns n ! k)"
    and su: "transfer_setup frame fl data ys (sv_split_len (nt_server n))"
    and ct: "decompressor_contract z fed made frame" and jl: "j < length ys"
    using j by (auto simp: net_inv_def)
  have fr: "frame (slice_bytes (split_slices fl data ! j)) (ys ! j)" using su jl by (simp add: transfer_setup_def Let_def)
  have rc: "receiving (nt_server n) (cn_local c) (of_nat j) (slice_bytes (split_slices fl data ! j)) (ys ! j) (cn_pending c)"
    using ci jl c live by (simp add: conn_inv_def)
  show ?thesis
    using that [OF mem ci jl su] iter_slice [OF ct fr mem(1) setup_fits [OF su jl mem(2)] rc it] by blast
qed

text \<open>The invariant after handler \<open>j\<close> made a round: it is enough to look at \<open>j\<close>'s own connection.\<close>

lemma net_inv_upd:
  assumes inv: "net_inv z fed made frame fl data ys n" and "j < length ys"
    and "sv_split_len sv' = sv_split_len (nt_server n)" and "ready sv' mem'" and "length mem' = length data"
    and "conn_inv fl data ys sv' mem' j c'"
    and "\<And>k. k < length ys \<Longrightarrow> k \<noteq> j \<Longrightarrow> conn_inv fl data ys sv' mem' k (nt_conns n ! k)"
  shows "net_inv z fed made frame fl data ys \<lparr>nt_server = sv', nt_conns = (nt_conns n)[j := c']\<rparr>"
proof -
  have "\<forall>k < length ys. conn_inv fl data ys sv' mem' k ((nt_conns n)[j := c'] ! k)"
  proof (intro allI impI)
    fix k assume "k < length ys"
    then show "conn_inv fl data ys sv' mem' k ((nt_conns n)[j := c'] ! k)"
      using assms(2,6,7) inv by (cases "k = j") (simp_all add: net_inv_def)
  qed
  then show ?thesis using assms by (auto simp: net_inv_def)
qed

lemma ready_entry: "ready sv mem \<Longrightarrow> ready (sv\<lparr>sv_mmap := m\<rparr>) mem"
  by (simp add: ready_def)

lemma ready_complete: "ready sv mem \<Longrightarrow> ready (sv\<lparr>sv_mmap := m, sv_start := Mapped mem'\<rparr>) mem'"
  by (simp add: ready_def)

lemma net_step_inv:
  assumes inv: "net_inv z fed made frame fl data ys n" and st: "net_step z map_file n n'"
  shows "net_inv z fed made frame fl data ys n'"
  using st
proof (cases rule: net_step.cases)
  case (again j c w sv l p)
  from net_round [OF inv again(2-5)] obtain mem where mem: "ready (nt_server n) mem" "length mem = length data"
    and ci: "\<forall>k < length ys. conn_inv fl data ys (nt_server n) mem k (nt_conns n ! k)" and j: "j < length ys"
    and su: "transfer_setup frame fl data ys (sv_split_len (nt_server n))"
    and "round_post (nt_server n) mem (of_nat j) (slice_bytes (split_slices fl data ! j)) (ys ! j) (Again sv l) p"
    by blast
  then obtain e where sv: "sv = (nt_server n)\<lparr>sv_mmap := (sv_mmap (nt_server n))(of_nat j := e)\<rparr>"
    and rc: "receiving sv l (of_nat j) (slice_bytes (split_slices fl data ! j)) (ys ! j) p"
    by (auto simp: round_post_def)
  show ?thesis unfolding again(1)
  proof (rule net_inv_upd [OF inv j _ _ mem(2)])
    show "sv_split_len sv = sv_split_len (nt_server n)" by (simp add: sv)
    show "ready sv mem" using mem(1) by (simp add: sv ready_entry)
    show "conn_inv fl data ys sv mem j (c\<lparr>cn_local := l, cn_pending := p\<rparr>)"
      using rc again(4) by (simp add: conn_inv_def)
    show "conn_inv fl data ys sv mem k (nt_conns n ! k)" if "k < length ys" "k \<noteq> j" for k
      using other_conn_entry [OF su j that _ sv] ci that by simp
  qed
next
  case (return j c w q sv p)
  from net_round [OF inv return(2-5)] obtain mem where mem: "ready (nt_server n) mem" "length mem = length data"
    and ci: "\<forall>k < length ys. conn_inv fl data ys (nt_server n) mem k (nt_conns n ! k)" and j: "j < length ys"
    and su: "transfer_setup frame fl data ys (sv_split_len (nt_server n))"
    and po: "round_post (nt_server n) mem (of_nat j) (slice_bytes (split_slices fl data ! j)) (ys ! j) (Return q sv) p"
    by blast
  let ?mem = "put_bytes mem (unat (ucast (of_nat j :: u16) * sv_split_len (nt_server n))) (slice_bytes (split_slices fl data ! j))"
  from po consider e where "q = -1" "sv = (nt_server n)\<lparr>sv_mmap := (sv_mmap (nt_server n))(of_nat j := e)\<rparr>"
    | e where "q = 0" "sv = (nt_server n)\<lparr>sv_mmap := (sv_mmap (nt_server n))(of_nat j := e), sv_start := Mapped ?mem\<rparr>"
    by (auto simp: round_post_def)
  then show ?thesis
  proof cases
    case 1
    show ?thesis unfolding return(1)
    proof (rule net_inv_upd [OF inv j _ _ mem(2)])
      show "sv_split_len sv = sv_split_len (nt_server n)" by (simp add: 1)
      show "ready sv mem" using mem(1) by (simp add: 1 ready_entry)
      show "conn_inv fl data ys sv mem j (c\<lparr>cn_pending := p, cn_result := Some (Returned q)\<rparr>)"
        by (simp add: conn_inv_def 1)
      show "conn_inv fl data ys sv mem k (nt_conns n ! k)" if "k < length ys" "k \<noteq> j" for k
        using other_conn_entry [OF su j that _ 1(2)] ci that by simp
    qed
  next
    case 2
    note cs = complete_slice [OF su j mem(2) refl 2(2)]
    show ?thesis unfolding return(1)
    proof (rule net_inv_upd [OF inv j _ _ cs(1)])
      show "sv_split_len sv = sv_split_len (nt_server n)" by (simp add: 2)
      show "ready sv ?mem" using mem(1) by (simp add: 2 ready_complete)
      show "conn_inv fl data ys sv ?mem j (c\<lparr>cn_pending := p, cn_result := Some (Returned q)\<rparr>)"
        using cs(2) by (simp add: conn_inv_def)
      show "conn_inv fl data ys sv ?mem k (nt_conns n ! k)" if "k < length ys" "k \<noteq> j" for k
        using cs(3) [OF that] ci that by simp
    qed
  qed
next
  case (throw j c w e sv p)
  from net_round [OF inv throw(2-5)] show ?thesis by (auto simp: round_post_def)
qed

lemma fresh_conn_inv:
  assumes "transfer_setup frame fl data ys split_len" and "j < length ys"
  shows "conn_inv fl data ys sv mem j
    \<lparr>cn_local = recv_start, cn_pending = slice_message (split_slices fl data ! j) (ys ! j), cn_result = None\<rparr>"
proof -
  note sl = setup_slice [OF assms]
  have "slice_message (split_slices fl data ! j) (ys ! j)
      = slice_header (of_nat j) (of_nat (length (slice_bytes (split_slices fl data ! j)))) (of_nat (length (ys ! j))) @ ys ! j"
    using sl(1,3) by (simp add: slice_message_def)
  then show ?thesis by (simp add: conn_inv_def receiving_def recv_start_def)
qed

lemma net_init_inv:
  assumes "net_init z fed made frame fl data ys n"
  shows "net_inv z fed made frame fl data ys n"
proof -
  from assms obtain mem where mem: "ready (nt_server n) mem" "length mem = length data"
    and su: "transfer_setup frame fl data ys (sv_split_len (nt_server n))"
    and cs: "nt_conns n = map (\<lambda>j. \<lparr>cn_local = recv_start,
        cn_pending = slice_message (split_slices fl data ! j) (ys ! j), cn_result = None\<rparr>) [0..<length ys]"
    by (auto simp: net_init_def)
  have "conn_inv fl data ys (nt_server n) mem j (nt_conns n ! j)" if j: "j < length ys" for j
    using fresh_conn_inv [OF su j] j cs by simp
  then show ?thesis using assms mem cs by (auto simp: net_inv_def net_init_def)
qed

interpretation transfer: invariant_system "net_init z fed made frame fl data ys" "net_step z map_file"
    "net_inv z fed made frame fl data ys"
  for z :: "'d zstd_d" and fed made frame fl data ys map_file
  by unfold_locales (auto intro: net_init_inv net_step_inv)

subsection \<open>Handlers get done\<close>

text \<open>A round in which the connection delivers \<open>k\<close> bytes, as far as they are there and asked for,
  and then has no more.\<close>

definition delivers :: "nat \<Rightarrow> wake" where
  "delivers k = WakeIn [Ok k, Err EAGAIN]"

lemma read_loop_delivers:
  assumes "0 < k" and "0 < n" and "pending \<noteq> []"
  shows "\<exists>rs'. read_loop n pending [] [Ok k, Err EAGAIN] = ReadDone (take (min k n) pending) (drop (min k n) pending) rs'"
  using assms by (auto simp: Let_def IsSocketError_def)

text \<open>How many bytes a live handler asks for: at least one, and room for the header at first.\<close>

lemma prepare_live:
  assumes "ready sv mem" and "slice_fits sv mem i x y" and "receiving sv l i x y pending"
  obtains n where "recv_prepare sv l = Inr (sv, n)" and "0 < unat n" and "is_first_recv l \<Longrightarrow> 10 < unat n"
proof (cases "is_first_recv l")
  case True
  with assms(1) that show ?thesis by (auto simp: recv_prepare_def expects_header_def ready_def)
next
  case False
  then obtain got where y: "y = got @ pending" "pending \<noteq> []" and l: "rl_index l = i"
    and en: "sv_mmap sv i = Some (slice_entry sv i x y got)"
    using assms(3) by (auto simp: receiving_def)
  have "length y < 2 ^ 64" "length got < 2 ^ 64" using assms(2) y by (auto simp: slice_fits_def)
  moreover have "length y \<noteq> length got" using y by simp
  ultimately have "(of_nat (length y) :: u64) \<noteq> of_nat (length got)" by (simp only: of_nat_u64_eq_iff not_False_eq_True)
  then have ne: "(of_nat (length y) - of_nat (length got) :: u64) \<noteq> 0" by (simp only: right_minus_eq not_False_eq_True)
  have "sv_reads_max_bytes sv \<noteq> 0" using assms(1) by (auto simp: ready_def)
  with ne have "\<exists>n. recv_prepare sv l = Inr (sv, n) \<and> n \<noteq> 0"
    using False l en by (auto simp: recv_prepare_def expects_header_def slice_entry_def Let_def)
  then show ?thesis using False that by (auto simp: unat_gt_0)
qed

lemma iter_delivers:
  assumes ct: "decompressor_contract z fed made frame" "frame x y"
    and rd: "ready sv mem" and ft: "slice_fits sv mem i x y" and rc: "receiving sv l i x y pending"
    and k: "0 < k" "is_first_recv l \<longrightarrow> 10 \<le> k"
  shows "(\<exists>got l' p. recv_iter z map_file sv l (delivers k) pending
        = (Again (sv\<lparr>sv_mmap := (sv_mmap sv)(i \<mapsto> slice_entry sv i x y got)\<rparr>) l', p)
      \<and> \<not> is_first_recv l' \<and> rl_index l' = i \<and> y = got @ p \<and> p \<noteq> [] \<and> length p < length pending)
    \<or> recv_iter z map_file sv l (delivers k) pending
        = (Return 0 (sv\<lparr>sv_mmap := (sv_mmap sv)(i \<mapsto> slice_entry sv i x y y),
                        sv_start := Mapped (put_bytes mem (unat (ucast i * sv_split_len sv)) x)\<rparr>), [])"
proof -
  obtain n where n: "recv_prepare sv l = Inr (sv, n)" "0 < unat n" "is_first_recv l \<Longrightarrow> 10 < unat n"
    using prepare_live [OF rd ft rc] by blast
  have pne: "pending \<noteq> []" and long: "is_first_recv l \<Longrightarrow> 10 \<le> length pending"
    using rc ft by (auto simp: receiving_def slice_fits_def)
  define m where "m = min k (unat n)"
  have m: "0 < m" "is_first_recv l \<Longrightarrow> 10 \<le> m" using k n by (auto simp: m_def)
  obtain rs' where rl: "read_loop (unat n) pending [] [Ok k, Err EAGAIN] = ReadDone (take m pending) (drop m pending) rs'"
    using read_loop_delivers [OF k(1) n(2) pne] by (auto simp: m_def)
  have it: "recv_iter z map_file sv l (delivers k) pending
      = (recv_process z map_file sv l (take m pending), drop m pending)"
    using n(1) rl by (simp add: recv_iter_def delivers_def del: read_loop.simps)
  have rc': "receiving sv l i x y (take m pending @ drop m pending)" using rc by simp
  have hd: "is_first_recv l \<Longrightarrow> 10 \<le> length (take m pending)" using m(2) long by simp
  show ?thesis
  proof (cases "drop m pending = []")
    case True
    then show ?thesis using process_slice [OF ct rd ft rc' hd, of map_file] it by simp
  next
    case False
    have "length (drop m pending) < length pending" using m(1) pne by (cases pending) auto
    then show ?thesis using process_slice [OF ct rd ft rc' hd, of map_file] it False by auto
  qed
qed

lemma receiving_entry:
  assumes "\<not> is_first_recv l'" and "rl_index l' = i" and "y = got @ p" and "p \<noteq> []"
  shows "receiving (sv\<lparr>sv_mmap := (sv_mmap sv)(i \<mapsto> slice_entry sv i x y got)\<rparr>) l' i x y p"
  using assms by (simp add: receiving_def slice_entry_def)

lemma fits_entry: "slice_fits (sv\<lparr>sv_mmap := m\<rparr>) mem i x y = slice_fits sv mem i x y"
  by (simp add: slice_fits_def)

text \<open>A handler on its own, woken by arrivals: when each of them fits the buffer it is read in whole, so
  that none is missed.\<close>

lemma room_for:
  assumes rd: "ready sv mem" and ft: "slice_fits sv mem i x y" and rc: "receiving sv l i x y pending"
    and m: "m \<le> unat (sv_reads_max_bytes sv)" "m \<le> length pending"
  obtains n where "recv_prepare sv l = Inr (sv, n)" and "m \<le> unat n"
proof (cases "is_first_recv l")
  case True
  with rd m(1) that show ?thesis by (auto simp: recv_prepare_def expects_header_def ready_def)
next
  case False
  then obtain got where y: "y = got @ pending" "pending \<noteq> []" and l: "rl_index l = i"
    and en: "sv_mmap sv i = Some (slice_entry sv i x y got)"
    using rc by (auto simp: receiving_def)
  have "length pending < 2 ^ 64" using ft y by (auto simp: slice_fits_def)
  then have p: "unat (of_nat (length pending) :: u64) = length pending" by (rule unat_u64_of_nat)
  have nz: "(of_nat (length pending) :: u64) \<noteq> 0" using p y(2) by (metis length_0_conv unsigned_0)
  have d: "(of_nat (length y) - of_nat (length got) :: u64) = of_nat (length pending)" using y by simp
  show ?thesis
  proof (cases "(of_nat (length pending) :: u64) < sv_reads_max_bytes sv")
    case True
    have "recv_prepare sv l = Inr (sv, of_nat (length pending))"
      using False True l en d nz
      by (simp add: recv_prepare_def expects_header_def slice_entry_def Let_def)
    then show ?thesis using that p m(2) by metis
  next
    case small: False
    have "recv_prepare sv l = Inr (sv, sv_reads_max_bytes sv)"
      using False small l en d by (simp add: recv_prepare_def expects_header_def slice_entry_def Let_def)
    then show ?thesis using that m(1) by metis
  qed
qed

text \<open>An arrival that fits is read and processed.\<close>

lemma edge_read:
  assumes rd: "ready sv mem" and ft: "slice_fits sv mem i x y" and rc: "receiving sv l i x y (bs @ rest)"
    and m: "bs \<noteq> []" "length bs \<le> unat (sv_reads_max_bytes sv)"
  shows "recv_iter z map_file sv l (WakeIn [Ok (length bs), Err EAGAIN]) bs = (recv_process z map_file sv l bs, [])"
proof -
  obtain n where n: "recv_prepare sv l = Inr (sv, n)" "length bs \<le> unat n"
    by (rule room_for [OF rd ft rc m(2)]) simp_all
  have "\<exists>rs'. read_loop (unat n) bs [] [Ok (length bs), Err EAGAIN] = ReadDone bs [] rs'"
  proof -
    have "0 < length bs" using m(1) by simp
    moreover from this n(2) have "0 < unat n" by linarith
    ultimately show ?thesis using n(2) m(1) read_loop_delivers [of "length bs" "unat n" bs] by (simp add: min_absorb1 del: read_loop.simps)
  qed
  then show ?thesis using n(1) by (auto simp: recv_iter_def simp del: read_loop.simps)
qed

lemma edges_complete:
  assumes ct: "decompressor_contract z fed made frame" "frame x y"
  shows "ready sv mem \<Longrightarrow> slice_fits sv mem i x y \<Longrightarrow> receiving sv l i x y (concat arrivals) \<Longrightarrow>
    list_all (\<lambda>bs. bs \<noteq> [] \<and> length bs \<le> unat (sv_reads_max_bytes sv)) arrivals \<Longrightarrow> (is_first_recv l \<Longrightarrow> 10 \<le> length (hd arrivals)) \<Longrightarrow>
    \<exists>sv'. recv_edges z map_file sv l [] arrivals = (Return 0 sv', [])
      \<and> sv_start sv' = Mapped (put_bytes mem (unat (ucast i * sv_split_len sv)) x)"
proof (induction arrivals arbitrary: sv l)
  case Nil
  then show ?case by (auto simp: receiving_def slice_fits_def)
next
  case (Cons bs arrivals)
  have rc: "receiving sv l i x y (bs @ concat arrivals)" and b: "bs \<noteq> []" "length bs \<le> unat (sv_reads_max_bytes sv)"
    and hd: "is_first_recv l \<Longrightarrow> 10 \<le> length bs" using Cons.prems(3-5) by simp_all
  note it = edge_read [OF Cons.prems(1,2) rc b, of z map_file]
  note ps = process_slice [OF ct Cons.prems(1,2) rc hd, of map_file]
  show ?case
  proof (cases "concat arrivals = []")
    case True
    then have "arrivals = []" using Cons.prems(4) by (auto simp: list_all_iff)
    then show ?thesis using it ps True by simp
  next
    case False
    then obtain got l' where p: "recv_process z map_file sv l bs = Again (sv\<lparr>sv_mmap := (sv_mmap sv)(i \<mapsto> slice_entry sv i x y got)\<rparr>) l'"
      and l': "\<not> is_first_recv l'" "rl_index l' = i" "y = got @ concat arrivals" using ps by auto
    from Cons.IH [OF ready_entry [OF Cons.prems(1)] _ receiving_entry [OF l' False]] l'(1) Cons.prems(2,4) it p
    show ?thesis by (simp add: fits_entry)
  qed
qed

text \<open>The same among the others: a live handler can always make a step that brings it closer to
  returning 0. \<open>net_work\<close> is what is left to do.\<close>

definition conn_work :: "conn \<Rightarrow> nat" where
  "conn_work c = (if cn_result c = None then Suc (length (cn_pending c)) else 0)"

definition net_work :: "net \<Rightarrow> nat" where
  "net_work n = sum_list (map conn_work (nt_conns n))"

definition conn_well :: "conn \<Rightarrow> bool" where
  "conn_well c \<longleftrightarrow> cn_result c = None \<or> cn_result c = Some (Returned 0)"

lemma net_deliver:
  assumes inv: "net_inv z fed made frame fl data ys n" and j: "j < length (nt_conns n)"
    and live: "cn_result (nt_conns n ! j) = None"
  obtains sv c where "conn_round z map_file (nt_server n) (nt_conns n ! j) (delivers 10) = Some (Inr (sv, c))"
    and "conn_well c" and "conn_work c < conn_work (nt_conns n ! j)"
proof -
  let ?c = "nt_conns n ! j" and ?sv = "nt_server n"
  from inv obtain mem where mem: "ready ?sv mem" "length mem = length data"
    and su: "transfer_setup frame fl data ys (sv_split_len ?sv)"
    and ct: "decompressor_contract z fed made frame" and jl: "j < length ys"
    and ci: "conn_inv fl data ys ?sv mem j ?c"
    using j by (auto simp: net_inv_def)
  have fr: "frame (slice_bytes (split_slices fl data ! j)) (ys ! j)" using su jl by (simp add: transfer_setup_def Let_def)
  have rc: "receiving ?sv (cn_local ?c) (of_nat j) (slice_bytes (split_slices fl data ! j)) (ys ! j) (cn_pending ?c)"
    using ci live by (simp add: conn_inv_def)
  from iter_delivers [OF ct fr mem(1) setup_fits [OF su jl mem(2)] rc, of 10 map_file]
  consider sv l p where "recv_iter z map_file ?sv (cn_local ?c) (delivers 10) (cn_pending ?c) = (Again sv l, p)"
      "length p < length (cn_pending ?c)"
    | sv where "recv_iter z map_file ?sv (cn_local ?c) (delivers 10) (cn_pending ?c) = (Return 0 sv, [])"
    by auto
  then show ?thesis
  proof cases
    case (1 sv l p)
    then show ?thesis using that [of sv "?c\<lparr>cn_local := l, cn_pending := p\<rparr>"] live
      by (simp add: conn_round_def conn_well_def conn_work_def)
  next
    case (2 sv)
    then show ?thesis using that [of sv "?c\<lparr>cn_pending := [], cn_result := Some (Returned 0)\<rparr>"] live
      by (simp add: conn_round_def conn_well_def conn_work_def)
  qed
qed

lemma net_progress:
  assumes inv: "net_inv z fed made frame fl data ys n" and j: "j < length (nt_conns n)"
    and live: "cn_result (nt_conns n ! j) = None"
  obtains n' c' where "net_step z map_file n n'" and "nt_conns n' = (nt_conns n)[j := c']" and "conn_well c'"
    and "net_work n' < net_work n"
proof -
  obtain sv c where c: "conn_round z map_file (nt_server n) (nt_conns n ! j) (delivers 10) = Some (Inr (sv, c))"
    "conn_well c" "conn_work c < conn_work (nt_conns n ! j)" by (rule net_deliver [OF assms])
  from sum_list_upd_less [OF j, of conn_work, OF c(3)] c(2) conn_round_net [OF j live c(1)] that [of _ c]
  show ?thesis by (simp add: net_work_def)
qed

lemma net_completes:
  "net_inv z fed made frame fl data ys n \<Longrightarrow> list_all conn_well (nt_conns n) \<Longrightarrow>
    \<exists>n'. rtranclp (net_step z map_file) n n' \<and> (\<forall>c \<in> set (nt_conns n'). cn_result c = Some (Returned 0))"
proof (induction "net_work n" arbitrary: n rule: less_induct)
  case less
  show ?case
  proof (cases "\<forall>c \<in> set (nt_conns n). cn_result c = Some (Returned 0)")
    case True
    then show ?thesis by blast
  next
    case False
    then obtain j where j: "j < length (nt_conns n)" and nd: "cn_result (nt_conns n ! j) \<noteq> Some (Returned 0)"
      by (auto simp: in_set_conv_nth)
    have live: "cn_result (nt_conns n ! j) = None"
      using less.prems(2) j nd by (auto simp: list_all_iff conn_well_def)
    obtain n' c' where st: "net_step z map_file n n'" and cs: "nt_conns n' = (nt_conns n)[j := c']"
      and c': "conn_well c'" and wk: "net_work n' < net_work n"
      using net_progress [OF less.prems(1) j live] by blast
    have "list_all conn_well (nt_conns n')"
      using less.prems(2) cs c' by (auto simp: list_all_iff dest!: set_update_subset_insert [THEN subsetD])
    from less.hyps [OF wk net_step_inv [OF less.prems(1) st] this] obtain n'' where
      "rtranclp (net_step z map_file) n' n''" "\<forall>c \<in> set (nt_conns n''). cn_result c = Some (Returned 0)" by blast
    with st show ?thesis by (meson converse_rtranclp_into_rtranclp)
  qed
qed

lemma net_inv_done:
  assumes "net_inv z fed made frame fl data ys n" and "\<forall>c \<in> set (nt_conns n). cn_result c = Some (Returned 0)"
  shows "sv_start (nt_server n) = Mapped data"
proof -
  from assms(1) obtain mem where mem: "ready (nt_server n) mem" "length mem = length data"
    and su: "transfer_setup frame fl data ys (sv_split_len (nt_server n))" and len: "length (nt_conns n) = length ys"
    and ci: "\<forall>j < length ys. conn_inv fl data ys (nt_server n) mem j (nt_conns n ! j)"
    by (auto simp: net_inv_def)
  have ok: "split_ok (fl, data)" and ys: "length ys = length (split_slices fl data)"
    using su by (auto simp: transfer_setup_def)
  have piece: "get_bytes mem (unat (GetBuf (split_slices fl data ! i))) (unat (fs_len (split_slices fl data ! i)))
      = get_bytes data (unat (GetBuf (split_slices fl data ! i))) (unat (fs_len (split_slices fl data ! i)))"
    if i: "i < length ys" for i
  proof -
    have "cn_result (nt_conns n ! i) = Some (Returned 0)" using assms(2) len i by simp
    then show ?thesis using ci i setup_slice(7) [OF su i] by (simp add: conn_inv_def)
  qed
  have "mem = data" by (rule slices.pieces_determine [OF ok]) (use mem piece ys in simp_all)
  then show ?thesis using mem(1) by (simp add: ready_def)
qed

subsection \<open>Properties of one handler\<close>

text \<open>(C12) A slice handler gets done: on a receiver that has processed the header, when the bytes of the
  slice arrive in pieces of any sizes up to \<open>reads_max_bytes_\<close>, the first at least the ten bytes of the
  slice header, and the handler is woken once for each piece, it reads each in whole and returns 0
  after the last, having written the slice's content to its place in the output and nothing else.\<close>

theorem Recv_slice_complete:
  assumes "decompressor_contract z fed made frame" and "frame x y"
    and "ready sv mem" and "slice_fits sv mem i x y"
    and "concat arrivals = slice_header i (of_nat (length x)) (of_nat (length y)) @ y"
    and "list_all (\<lambda>bs. bs \<noteq> [] \<and> length bs \<le> unat (sv_reads_max_bytes sv)) arrivals" and "10 \<le> length (hd arrivals)"
  shows "\<exists>sv'. Recv_edges z map_file sv arrivals = (Return 0 sv', []) \<and>
    sv_start sv' = Mapped (put_bytes mem (unat (ucast i * sv_split_len sv)) x)"
proof -
  have "receiving sv recv_start i x y (concat arrivals)" using assms(5) by (simp add: receiving_def recv_start_def)
  from edges_complete [OF assms(1-4) this assms(6)] assms(7) show ?thesis by (simp add: Recv_edges_def)
qed

definition sample_server :: server where
  "sample_server = server_init\<lparr>sv_split_len := 3, sv_reads_max_bytes := 12, sv_start := Mapped (replicate 7 0)\<rparr>"

theorem Recv_slice_complete_witness:
  "\<exists>sv'. Recv_edges store_d (\<lambda>_. MapNull) sample_server
      [slice_header 1 (of_nat (length [4, 5, 6, 7 :: byte])) (of_nat (length [4, 5, 6, 7 :: byte])) @ [4], [5, 6], [7]] = (Return 0 sv', []) \<and>
    sv_start sv' = Mapped (put_bytes (replicate 7 0) (unat (ucast (1 :: u16) * sv_split_len sample_server)) [4, 5, 6, 7])"
  by (rule Recv_slice_complete [OF store_d_contract, of "[4, 5, 6, 7]" "[4, 5, 6, 7]"])
    (simp_all add: sample_server_def ready_def slice_fits_def)

text \<open>When more than \<open>reads_max_bytes_\<close> bytes have come before the handler looks, as they do on a connection
  that waits for a thread of the pool, it reads \<open>reads_max_bytes_\<close> of them and waits for a wake-up: that
  there are more is not a new edge. If these were the last bytes, it waits for ever.\<close>

theorem Recv_edge_lost:
  assumes "decompressor_contract z fed made frame" and "frame x y"
    and "ready sv mem" and "slice_fits sv mem i x y" and "unat (sv_reads_max_bytes sv) < 10 + length y"
  shows "\<exists>sv' l'. Recv_edges z map_file sv [slice_header i (of_nat (length x)) (of_nat (length y)) @ y] =
      (Again sv' l', drop (unat (sv_reads_max_bytes sv)) (slice_header i (of_nat (length x)) (of_nat (length y)) @ y)) \<and>
    drop (unat (sv_reads_max_bytes sv)) (slice_header i (of_nat (length x)) (of_nat (length y)) @ y) \<noteq> []"
proof -
  define m where "m = slice_header i (of_nat (length x)) (of_nat (length y)) @ y"
  define n where "n = unat (sv_reads_max_bytes sv)"
  have n: "10 < n" "n < length m" using assms(3,5) by (simp_all add: ready_def m_def n_def)
  then have rest: "drop n m \<noteq> []" and ten: "10 \<le> length (take n m)" and m: "m \<noteq> []" by auto
  have rc: "receiving sv recv_start i x y (take n m @ drop n m)" unfolding append_take_drop_id by (simp add: receiving_def recv_start_def m_def)
  from process_slice [OF assms(1-4) rc ten, of map_file] rest obtain sv' l' where
    p: "recv_process z map_file sv recv_start (take n m) = Again sv' l'" by auto
  have pr: "recv_prepare sv recv_start = Inr (sv, sv_reads_max_bytes sv)"
    using assms(3) by (simp add: recv_prepare_def expects_header_def ready_def recv_start_def)
  have "0 < length m" "0 < n" "min (length m) n = n" using n by auto
  with read_loop_delivers [of "length m" n m] m obtain rs' where
    "read_loop n m [] [Ok (length m), Err EAGAIN] = ReadDone (take n m) (drop n m) rs'" by auto
  then have "recv_iter z map_file sv recv_start (WakeIn [Ok (length m), Err EAGAIN]) m = (Again sv' l', drop n m)"
    using p pr by (simp add: recv_iter_def n_def del: read_loop.simps)
  then have "Recv_edges z map_file sv [m] = (Again sv' l', drop n m)" by (simp add: Recv_edges_def)
  with rest show ?thesis unfolding m_def n_def by blast
qed

theorem Recv_edge_lost_witness:
  "\<exists>sv' l'. Recv_edges store_d (\<lambda>_. MapNull) sample_server [slice_header 1 (of_nat (length [4, 5, 6, 7 :: byte])) (of_nat (length [4, 5, 6, 7 :: byte])) @ [4, 5, 6, 7]]
    = (Again sv' l', drop (unat (sv_reads_max_bytes sample_server)) (slice_header 1 (of_nat (length [4, 5, 6, 7 :: byte])) (of_nat (length [4, 5, 6, 7 :: byte])) @ [4, 5, 6, 7]))"
  using Recv_edge_lost [OF store_d_contract, of "[4, 5, 6, 7]" "[4, 5, 6, 7]" sample_server "replicate 7 0" 1 "\<lambda>_. MapNull"]
  by (force simp: sample_server_def ready_def slice_fits_def)

text \<open>(C34) A slice header that arrives in two parts kills the receiver: with fewer than ten bytes in
  the first round the handler decodes memory it has not read and copies a negative number of
  bytes.\<close>

theorem Recv_torn_slice_header:
  assumes "ready sv mem" and "0 < k" and "k < 10"
  shows "Recv z map_file True sv (delivers k # ws) (slice_header i l c @ y)
    = (Fault BadMemory, drop k (slice_header i l c @ y))"
proof -
  let ?m = "slice_header i l c @ y" and ?n = "sv_reads_max_bytes sv"
  have n: "10 < unat ?n" and nh: "\<not> expects_header sv recv_start"
    using assms(1) by (simp_all add: ready_def expects_header_def)
  have ne: "?m \<noteq> []" by (simp flip: length_greater_0_conv)
  obtain rs' where rl: "read_loop (unat ?n) ?m [] [Ok k, Err EAGAIN] = ReadDone (take k ?m) (drop k ?m) rs'"
    using read_loop_delivers [OF assms(2) _ ne, of "unat ?n"] n assms(3) by (auto simp: min_absorb1)
  have "recv_process z map_file sv recv_start (take k ?m) = Fault BadMemory"
    using nh assms(3) by (simp add: recv_process_def recv_start_def recv_first_slice_def kSliceHeaderLen_def)
  then have "recv_iter z map_file sv recv_start (delivers k) ?m = (Fault BadMemory, drop k ?m)"
    using nh rl by (simp add: recv_iter_def delivers_def recv_prepare_def recv_start_def del: read_loop.simps)
  then show ?thesis by (simp add: Recv_def)
qed

theorem Recv_torn_slice_header_witness:
  "Recv store_d (\<lambda>_. MapNull) True sample_server (delivers 4 # []) (slice_header 1 4 4 @ [4, 5, 6, 7])
    = (Fault BadMemory, drop 4 (slice_header 1 4 4 @ [4, 5, 6, 7]))"
  by (rule Recv_torn_slice_header [of _ "replicate 7 0"]) (simp_all add: sample_server_def ready_def)

lemma scast_s32_huge:
  assumes "2 ^ 31 \<le> n" and "n < 2 ^ 32"
  shows "(scast (of_nat n :: s32) :: u64) \<noteq> of_nat n"
proof -
  have "n div 2 ^ 31 = 1" and "n div 2 ^ 63 = 0" using assms by simp_all
  then have "bit n 31" and "\<not> bit n 63" by (simp_all add: bit_iff_odd)
  then have "bit (scast (of_nat n :: s32) :: u64) 63" and "\<not> bit (of_nat n :: u64) 63" by (simp_all add: bit_simps)
  then show ?thesis by metis
qed

text \<open>A slice of 2 GiB or more can never succeed: the decompressed size comes back through an
  \<open>int\<close>, so although the content is decompressed and written, the handler reports failure.\<close>

theorem recv_complete_huge_slice:
  assumes "decompressor_contract z fed made frame" and "frame x y" and "y \<noteq> []"
    and "2 ^ 31 \<le> length x" and "length x < 2 ^ 32"
    and "si_c_buf si = CBuf y" and "si_len si = of_nat (length x)" and "si_buf si = Some off"
    and "sv_start sv = Mapped mem" and "unat off + length x \<le> length mem"
  shows "recv_complete z sv si = Return (-1) (sv\<lparr>sv_start := Mapped (put_bytes mem (unat off) x)\<rparr>)"
proof -
  have xne: "x \<noteq> []" and x64: "length x < 2 ^ 64" using assms(4,5) by auto
  have d: "Decompress z y (si_len si) = Some (of_nat (length x), x)"
    unfolding assms(7) by (rule Decompress_frame [OF assms(1,2) xne assms(3) x64])
  have "unat (of_nat (length x) :: u64) = length x" using x64 by (rule unat_u64_of_nat)
  moreover have "(scast (of_nat (length x) :: s32) :: u64) \<noteq> of_nat (length x)"
    using assms(4,5) by (rule scast_s32_huge)
  ultimately show ?thesis
    using d xne assms(6-10) by (simp add: recv_complete_def MMapWriting_def mem_write_def Let_def)
qed

theorem recv_complete_huge_slice_witness:
  "recv_complete store_d (sample_server\<lparr>sv_start := Mapped (replicate (2 ^ 31) 0)\<rparr>)
      \<lparr>si_index = 0, si_c_len = 2 ^ 31, si_recv_len = 0, si_len = 2 ^ 31, si_offset = 2 ^ 31, si_buf = Some 0,
       si_c_buf = CBuf (replicate (2 ^ 31) 1)\<rparr>
    = Return (-1) (sample_server\<lparr>sv_start := Mapped (replicate (2 ^ 31) 0),
        sv_start := Mapped (put_bytes (replicate (2 ^ 31) 0) (unat (0 :: u64)) (replicate (2 ^ 31) 1))\<rparr>)"
  by (rule recv_complete_huge_slice [OF store_d_contract, of "replicate (2 ^ 31) 1" "replicate (2 ^ 31) 1"]) simp_all

end
