(* ===== verification/Recv_Commute.thy ===== *)
theory Recv_Commute
  imports File_Transfer
begin

section \<open>Handlers do not get in each other's way\<close>

text \<open>
  A round of a handler is one step of the model. Here it is shown that this does not hide an order: a
  round of one slice's handler looks at nothing that the others change, and what it changes is its own
  entry of \<open>mmap_\<close> and its own part of the mapped file, so that rounds of different handlers commute.
  (What is left is the map itself, a tree that the handlers change without a lock.)
\<close>

subsection \<open>What a round looks at\<close>

text \<open>Two states of the server that are the same for the handler of slice \<open>i\<close>.\<close>

definition agree :: "u16 \<Rightarrow> server \<Rightarrow> server \<Rightarrow> bool" where
  "agree i sv sv' \<longleftrightarrow> sv_split_len sv' = sv_split_len sv \<and> sv_reads_max_bytes sv' = sv_reads_max_bytes sv \<and>
     sv_mmap sv' i = sv_mmap sv i \<and> (\<exists>mem mem'. sv_start sv = Mapped mem \<and> sv_start sv' = Mapped mem' \<and> length mem' = length mem)"

text \<open>What a round can do: set the entry of its slice, and on its last round write the content.\<close>

definition effect :: "u16 \<Rightarrow> FileSliceInfo option \<Rightarrow> byte list option \<Rightarrow> server \<Rightarrow> server" where
  "effect i e x sv =
     (let sv' = sv\<lparr>sv_mmap := (sv_mmap sv)(i := e)\<rparr>
      in case (x, sv_start sv) of
           (Some bs, Mapped mem) \<Rightarrow> sv'\<lparr>sv_start := Mapped (put_bytes mem (unat (ucast i * sv_split_len sv)) bs)\<rparr>
         | _ \<Rightarrow> sv')"

text \<open>A result, with the server that it is applied to left out.\<close>

datatype outcome = OAgain recv_local | OReturn int | OThrow c_error | OFault c_error | OHang

fun with_server :: "server \<Rightarrow> outcome \<Rightarrow> recv_result" where
  "with_server sv (OAgain l) = Again sv l"
| "with_server sv (OReturn q) = Return q sv"
| "with_server sv (OThrow e) = Throw e sv"
| "with_server sv (OFault e) = Fault e"
| "with_server sv OHang = Hang"

lemma agree_ready: "agree i sv sv' \<Longrightarrow> ready sv mem \<Longrightarrow> \<exists>mem'. ready sv' mem' \<and> length mem' = length mem"
  by (auto simp: agree_def ready_def)

lemma agree_slice:
  assumes "agree i sv sv'"
  shows "slice_entry sv' i x y got = slice_entry sv i x y got" and "receiving sv' l i x y p = receiving sv l i x y p"
    and "length mem' = length mem \<Longrightarrow> slice_fits sv' mem' i x y = slice_fits sv mem i x y"
  using assms by (auto simp: agree_def slice_entry_def receiving_def slice_fits_def)

lemma agree_refl: "ready sv mem \<Longrightarrow> agree i sv sv"
  by (simp add: agree_def ready_def)

lemma effect_none: "effect i (sv_mmap sv i) None sv = sv"
  by (simp add: effect_def)

text \<open>A processing step, in these terms.\<close>

lemma process_effect:
  assumes ct: "decompressor_contract z fed made frame" "frame x y"
    and rd: "ready sv mem" and ft: "slice_fits sv mem i x y" and rc: "receiving sv l i x y (bs @ rest)"
    and hd: "is_first_recv l \<Longrightarrow> 10 \<le> length bs"
  shows "recv_process z map_file sv l bs
    = (if rest \<noteq> [] then with_server (effect i (Some (slice_entry sv i x y (take (length y - length rest) y))) None sv) (OAgain \<lparr>is_first_recv = False, rl_index = i\<rparr>)
       else with_server (effect i (Some (slice_entry sv i x y y)) (Some x) sv) (OReturn 0))"
proof -
  note ps = process_slice [OF ct rd ft rc hd, of map_file]
  have st: "sv_start sv = Mapped mem" using rd by (simp add: ready_def)
  show ?thesis
  proof (cases "rest = []")
    case True
    then show ?thesis using ps st by (simp add: effect_def Let_def)
  next
    case False
    then obtain got l' where p: "recv_process z map_file sv l bs = Again (sv\<lparr>sv_mmap := (sv_mmap sv)(i \<mapsto> slice_entry sv i x y got)\<rparr>) l'"
      and l': "\<not> is_first_recv l'" "rl_index l' = i" and y: "y = got @ rest" using ps by auto
    have "l' = \<lparr>is_first_recv = False, rl_index = i\<rparr>" using l' by (cases l') simp
    moreover have "take (length y - length rest) y = got" using y by simp
    ultimately show ?thesis using p False by (simp add: effect_def Let_def)
  qed
qed

text \<open>A round has the same effect on all states that agree.\<close>

lemma iter_effect:
  assumes ct: "decompressor_contract z fed made frame" "frame x y"
    and rd: "ready sv mem" and ft: "slice_fits sv mem i x y" and rc: "receiving sv l i x y pending"
  shows "\<exists>e c r p'. (c = None \<or> c = Some x) \<and> (\<forall>sv'. agree i sv sv' \<longrightarrow> recv_iter z map_file sv' l w pending = (with_server (effect i e c sv') r, p'))"
proof -
  have same: "effect i (sv_mmap sv i) None sv' = sv'" if "agree i sv sv'" for sv'
    using that effect_none [of i sv'] by (simp add: agree_def)
  show ?thesis
  proof (cases w)
    case WakeFail
    show ?thesis
      by (rule exI [of _ "sv_mmap sv i"], rule exI [of _ None], rule exI [of _ "OReturn (-1)"], rule exI [of _ pending])
        (simp add: WakeFail recv_iter_def same)
  next
    case WakeOther
    show ?thesis
      by (rule exI [of _ "sv_mmap sv i"], rule exI [of _ None], rule exI [of _ "OAgain l"], rule exI [of _ pending])
        (simp add: WakeOther recv_iter_def same)
  next
    case (WakeIn rs)
    obtain n where n: "recv_prepare sv l = Inr (sv, n)" using prepare_slice [OF rd rc] by blast
    have prep: "recv_prepare sv' l = Inr (sv', n)" if ag: "agree i sv sv'" for sv'
    proof -
      have "\<not> expects_header sv l" "\<not> expects_header sv' l" "is_first_recv l \<or> rl_index l = i"
        using rd agree_ready [OF ag rd] rc by (auto simp: expects_header_def ready_def receiving_def)
      then show ?thesis using n ag rc
        by (auto simp: recv_prepare_def agree_def receiving_def Let_def split: if_splits)
    qed
    show ?thesis
    proof (cases "read_loop (unat n) pending [] rs")
      case ReadMore
      show ?thesis
        by (rule exI [of _ None], rule exI [of _ None], rule exI [of _ OHang], rule exI [of _ pending])
          (simp add: WakeIn recv_iter_def prep ReadMore)
    next
      case (ReadError rest)
      show ?thesis
      proof (cases "is_first_recv l")
        case True
        show ?thesis
          by (rule exI [of _ "sv_mmap sv i"], rule exI [of _ None], rule exI [of _ "OReturn (-1)"], rule exI [of _ rest])
            (simp add: WakeIn recv_iter_def prep ReadError recv_read_error_def True same)
      next
        case False
        then obtain got where l: "rl_index l = i" and en: "sv_mmap sv i = Some (slice_entry sv i x y got)"
          using rc by (auto simp: receiving_def)
        let ?si = "slice_entry sv i x y got"
        have e: "recv_read_error sv' l = (if si_offset ?si \<noteq> 0 then Fault BadFree
            else Return (-1) (effect i (Some (?si\<lparr>si_c_buf := CFreed\<rparr>)) None sv'))" if "agree i sv sv'" for sv'
          using that False l en by (simp add: recv_read_error_def agree_def effect_def)
        show ?thesis
          by (rule exI [of _ "Some (?si\<lparr>si_c_buf := CFreed\<rparr>)"], rule exI [of _ None],
              rule exI [of _ "if si_offset ?si \<noteq> 0 then OFault BadFree else OReturn (-1)"], rule exI [of _ rest])
            (simp add: WakeIn recv_iter_def prep ReadError e)
      qed
    next
      case (ReadDone bs rest us)
      have pd: "pending = bs @ rest" using read_loop_conserves ReadDone by fastforce
      show ?thesis
      proof (cases "is_first_recv l \<and> length bs < 10")
        case True
        have f: "recv_process z map_file sv' l bs = Fault BadMemory" if "agree i sv sv'" for sv'
          using True agree_ready [OF that rd]
          by (auto simp: recv_process_def recv_first_slice_def kSliceHeaderLen_def expects_header_def ready_def)
        show ?thesis
          by (rule exI [of _ None], rule exI [of _ None], rule exI [of _ "OFault BadMemory"], rule exI [of _ rest])
            (simp add: WakeIn recv_iter_def prep ReadDone f)
      next
        case False
        then have hd: "is_first_recv l \<Longrightarrow> 10 \<le> length bs" by simp
        let ?got = "if rest \<noteq> [] then take (length y - length rest) y else y"
        have pe: "recv_process z map_file sv' l bs = with_server (effect i (Some (slice_entry sv i x y ?got)) (if rest \<noteq> [] then None else Some x) sv')
            (if rest \<noteq> [] then OAgain \<lparr>is_first_recv = False, rl_index = i\<rparr> else OReturn 0)" if ag: "agree i sv sv'" for sv'
        proof -
          obtain mem' where m: "ready sv' mem'" "length mem' = length mem" using agree_ready [OF ag rd] by blast
          have "receiving sv' l i x y (bs @ rest)" "slice_fits sv' mem' i x y"
            using rc ft agree_slice [OF ag] m(2) pd by simp_all
          from process_effect [OF ct m(1) this(2,1) hd, of map_file] show ?thesis by (simp add: agree_slice(1) [OF ag])
        qed
        show ?thesis
          by (rule exI [of _ "Some (slice_entry sv i x y ?got)"], rule exI [of _ "if rest \<noteq> [] then None else Some x"],
              rule exI [of _ "if rest \<noteq> [] then OAgain \<lparr>is_first_recv = False, rl_index = i\<rparr> else OReturn 0"], rule exI [of _ rest])
            (simp add: WakeIn recv_iter_def prep ReadDone pe)
      qed
    qed
  qed
qed

subsection \<open>Effects of different slices\<close>

lemma put_bytes_commute:
  assumes "off + length x \<le> length mem" and "off' + length x' \<le> length mem"
    and "off + length x \<le> off' \<or> off' + length x' \<le> off"
  shows "put_bytes (put_bytes mem off x) off' x' = put_bytes (put_bytes mem off' x') off x"
  by (rule nth_equalityI) (use assms in \<open>auto simp: length_put_bytes nth_put_bytes\<close>)

text \<open>A content, if there is one, that fits its place in the mapped file.\<close>

definition fitting :: "nat \<Rightarrow> u16 \<Rightarrow> byte list option \<Rightarrow> server \<Rightarrow> bool" where
  "fitting n i c sv \<longleftrightarrow> (\<forall>x. c = Some x \<longrightarrow> unat (ucast i * sv_split_len sv) + length x \<le> n)"

definition apart :: "u16 \<Rightarrow> byte list option \<Rightarrow> u16 \<Rightarrow> byte list option \<Rightarrow> server \<Rightarrow> bool" where
  "apart i c j d sv \<longleftrightarrow> (\<forall>x y. c = Some x \<longrightarrow> d = Some y \<longrightarrow>
     unat (ucast i * sv_split_len sv) + length x \<le> unat (ucast j * sv_split_len sv) \<or>
     unat (ucast j * sv_split_len sv) + length y \<le> unat (ucast i * sv_split_len sv))"

lemma effect_agree:
  assumes "i \<noteq> j" and "ready sv mem" and "fitting (length mem) i c sv"
  shows "agree j sv (effect i e c sv)"
  using assms by (cases c) (auto simp: agree_def effect_def ready_def fitting_def length_put_bytes)

lemma effect_commute:
  assumes "i \<noteq> j" and "ready sv mem" and "fitting (length mem) i c sv" and "fitting (length mem) j d sv" and "apart i c j d sv"
  shows "effect j e' d (effect i e c sv) = effect i e c (effect j e' d sv)"
proof -
  have st: "sv_start sv = Mapped mem" and tw: "(sv_mmap sv)(i := e, j := e') = (sv_mmap sv)(j := e', i := e)"
    using assms(1,2) by (auto simp: ready_def fun_upd_twist)
  show ?thesis
  proof (cases "c = None \<or> d = None")
    case True
    then show ?thesis using st tw by (cases c; cases d) (simp_all add: effect_def)
  next
    case False
    then obtain x y where "c = Some x" "d = Some y" by auto
    moreover from this assms(3-5) have "put_bytes (put_bytes mem (unat (ucast i * sv_split_len sv)) x) (unat (ucast j * sv_split_len sv)) y
        = put_bytes (put_bytes mem (unat (ucast j * sv_split_len sv)) y) (unat (ucast i * sv_split_len sv)) x"
      by (intro put_bytes_commute) (simp_all add: fitting_def apart_def)
    ultimately show ?thesis using st tw by (simp add: effect_def)
  qed
qed

subsection \<open>Rounds commute\<close>

text \<open>The round of a live handler in a state of the transfer, as an effect.\<close>

lemma round_effect:
  assumes inv: "net_inv z fed made frame fl data ys n" and j: "j < length (nt_conns n)"
    and live: "cn_result (nt_conns n ! j) = None"
    and rd: "conn_round z map_file (nt_server n) (nt_conns n ! j) w = Some (Inr (sv, c))"
  obtains e d where "d = None \<or> d = Some (slice_bytes (split_slices fl data ! j))"
    and "\<And>sv'. agree (of_nat j) (nt_server n) sv' \<Longrightarrow>
      conn_round z map_file sv' (nt_conns n ! j) w = Some (Inr (effect (of_nat j) e d sv', c))"
    and "sv = effect (of_nat j) e d (nt_server n)"
proof -
  let ?c = "nt_conns n ! j" and ?sv = "nt_server n"
  from inv obtain mem where mem: "ready ?sv mem" "length mem = length data"
    and su: "transfer_setup frame fl data ys (sv_split_len ?sv)"
    and ct: "decompressor_contract z fed made frame" and jl: "j < length ys"
    and ci: "conn_inv fl data ys ?sv mem j ?c"
    using j by (auto simp: net_inv_def)
  have fr: "frame (slice_bytes (split_slices fl data ! j)) (ys ! j)" using su jl by (simp add: transfer_setup_def Let_def)
  have rc: "receiving ?sv (cn_local ?c) (of_nat j) (slice_bytes (split_slices fl data ! j)) (ys ! j) (cn_pending ?c)"
    using ci live by (simp add: conn_inv_def)
  from iter_effect [OF ct fr mem(1) setup_fits [OF su jl mem(2)] rc, of map_file w]
  obtain e d r p where d: "d = None \<or> d = Some (slice_bytes (split_slices fl data ! j))"
    and it: "\<And>sv'. agree (of_nat j) ?sv sv' \<Longrightarrow>
      recv_iter z map_file sv' (cn_local ?c) w (cn_pending ?c) = (with_server (effect (of_nat j) e d sv') r, p)" by blast
  note it0 = it [OF agree_refl [OF mem(1)]]
  have "sv = effect (of_nat j) e d ?sv" using rd it0 by (cases r) (auto simp: conn_round_def)
  moreover have "conn_round z map_file sv' ?c w = Some (Inr (effect (of_nat j) e d sv', c))"
    if "agree (of_nat j) ?sv sv'" for sv'
    using rd it0 it [OF that] by (cases r) (auto simp: conn_round_def)
  ultimately show ?thesis using that d by blast
qed

lemma net_rounds_commute:
  assumes inv: "net_inv z fed made frame fl data ys n" and ij: "i < length (nt_conns n)" "j < length (nt_conns n)" "i \<noteq> j"
    and live: "cn_result (nt_conns n ! i) = None" "cn_result (nt_conns n ! j) = None"
    and ri: "conn_round z map_file (nt_server n) (nt_conns n ! i) w = Some (Inr (sv, c))"
    and rj: "conn_round z map_file sv (nt_conns n ! j) w' = Some (Inr (sv2, d))"
  shows "\<exists>sv'. conn_round z map_file (nt_server n) (nt_conns n ! j) w' = Some (Inr (sv', d)) \<and>
    conn_round z map_file sv' (nt_conns n ! i) w = Some (Inr (sv2, c))"
proof -
  let ?sv = "nt_server n" and ?fs = "split_slices fl data" and ?i = "of_nat i :: u16" and ?j = "of_nat j :: u16"
  from inv obtain mem where mem: "ready ?sv mem" "length mem = length data"
    and su: "transfer_setup frame fl data ys (sv_split_len ?sv)" and len: "length (nt_conns n) = length ys"
    by (auto simp: net_inv_def)
  have ok: "split_ok (fl, data)" and ys: "length ys = length ?fs" using su by (auto simp: transfer_setup_def)
  have il: "i < length ys" and jl: "j < length ys" using ij len by simp_all
  note si = setup_slice [OF su il] and sj = setup_slice [OF su jl]
  have ne: "?i \<noteq> ?j" using si(2) sj(2) ij(3) index_inj by blast
  obtain e x where x: "x = None \<or> x = Some (slice_bytes (?fs ! i))"
    and ei: "\<And>sv'. agree ?i ?sv sv' \<Longrightarrow> conn_round z map_file sv' (nt_conns n ! i) w = Some (Inr (effect ?i e x sv', c))"
    and sv: "sv = effect ?i e x ?sv"
    by (rule round_effect [OF inv ij(1) live(1) ri]) (rule that)
  have fx: "fitting (length mem) ?i x ?sv" using x si(3,6,8) mem(2) by (auto simp: fitting_def)
  define n1 where "n1 = \<lparr>nt_server = sv, nt_conns = (nt_conns n)[i := c]\<rparr>"
  have inv1: "net_inv z fed made frame fl data ys n1"
    unfolding n1_def by (rule net_step_inv [OF inv conn_round_net [OF ij(1) live(1) ri]])
  have n1: "nt_server n1 = sv" "nt_conns n1 ! j = nt_conns n ! j" "j < length (nt_conns n1)"
    using ij by (simp_all add: n1_def)
  obtain e' y where y: "y = None \<or> y = Some (slice_bytes (?fs ! j))"
    and ej: "\<And>sv'. agree ?j sv sv' \<Longrightarrow> conn_round z map_file sv' (nt_conns n ! j) w' = Some (Inr (effect ?j e' y sv', d))"
    and sv2: "sv2 = effect ?j e' y sv"
    by (rule round_effect [OF inv1 n1(3), of map_file w' sv2 d, unfolded n1, OF live(2) rj]) (rule that)
  have fy: "fitting (length mem) ?j y ?sv" using y sj(3,6,8) mem(2) by (auto simp: fitting_def)
  have ap: "apart ?i x ?j y ?sv"
    using slices.pieces_disjoint [OF ok, of i j] il jl ys ij(3) x y si(3,6) sj(3,6) by (auto simp: apart_def)
  have "agree ?j ?sv sv" unfolding sv by (rule effect_agree [OF ne mem(1) fx])
  then have "agree ?j sv ?sv" by (auto simp: agree_def)
  moreover have "agree ?i ?sv (effect ?j e' y ?sv)" by (rule effect_agree [OF ne [symmetric] mem(1) fy])
  ultimately show ?thesis
    using ej ei sv2 sv effect_commute [OF ne mem(1) fx fy ap] by simp
qed

end
