(* ===== verification/Thread_Pool.thy ===== *)
theory Thread_Pool
  imports Prelude "HOL-Library.Multiset"
begin

section \<open>The thread pool (util/thread_pool.h)\<close>

text \<open>
  Both programs run their work on a \<open>ThreadPool\<close>: a queue of tasks behind a mutex and a condition
  variable, and worker threads that take the tasks. A step of the model is one critical section
  of a worker or a client, one notification, or the end of a task; between the steps the threads
  interleave freely. A notification wakes any one blocked worker, and a blocked worker may also
  wake up for no reason. The pool is used until its destructor runs: \<open>enqueue\<close> after that is not
  a step.
\<close>

subsection \<open>State and operations\<close>

text \<open>A worker is about to look at the queue, blocked in \<open>cv_.wait\<close>, running a task, or gone.\<close>

datatype 'a worker = Checking | Blocked | Busy 'a | Exited

text \<open>Besides the members of the class, the notifications that were not delivered yet and, to state
  properties, the tasks that were enqueued, started and finished so far.\<close>

record 'a ThreadPool =
  tp_stop :: bool
  tp_tasks :: "'a list"
  tp_threads :: "'a worker list"
  tp_notify :: nat
  tp_notify_all :: bool
  tp_enqueued :: "'a list"
  tp_started :: "'a list"
  tp_finished :: "'a list"

definition make_pool :: "nat \<Rightarrow> 'a ThreadPool" where
  "make_pool sz = \<lparr>tp_stop = False, tp_tasks = [], tp_threads = replicate sz Checking, tp_notify = 0,
     tp_notify_all = False, tp_enqueued = [], tp_started = [], tp_finished = []\<rparr>"

text \<open>The critical section of worker \<open>i\<close>: block, leave, or take the first task.\<close>

definition worker_check :: "nat \<Rightarrow> 'a ThreadPool \<Rightarrow> 'a ThreadPool" where
  "worker_check i p =
     (if tp_stop p \<or> tp_tasks p \<noteq> []
      then
        (if tp_stop p \<and> tp_tasks p = [] then p\<lparr>tp_threads := (tp_threads p)[i := Exited]\<rparr>
         else p\<lparr>tp_threads := (tp_threads p)[i := Busy (hd (tp_tasks p))],
                tp_tasks := tl (tp_tasks p), tp_started := tp_started p @ [hd (tp_tasks p)]\<rparr>)
      else p\<lparr>tp_threads := (tp_threads p)[i := Blocked]\<rparr>)"

definition worker_finish :: "nat \<Rightarrow> 'a \<Rightarrow> 'a ThreadPool \<Rightarrow> 'a ThreadPool" where
  "worker_finish i t p = p\<lparr>tp_threads := (tp_threads p)[i := Checking], tp_finished := tp_finished p @ [t]\<rparr>"

definition worker_wake :: "nat \<Rightarrow> 'a ThreadPool \<Rightarrow> 'a ThreadPool" where
  "worker_wake i p = p\<lparr>tp_threads := (tp_threads p)[i := Checking]\<rparr>"

text \<open>\<open>enqueue\<close>: the task goes to the end of the queue, then one notification is due.\<close>

definition enqueue :: "'a \<Rightarrow> 'a ThreadPool \<Rightarrow> 'a ThreadPool" where
  "enqueue t p = p\<lparr>tp_tasks := tp_tasks p @ [t], tp_enqueued := tp_enqueued p @ [t], tp_notify := Suc (tp_notify p)\<rparr>"

text \<open>The destructor: stop, then wake everybody; it returns when all workers are gone.\<close>

definition pool_stop :: "'a ThreadPool \<Rightarrow> 'a ThreadPool" where
  "pool_stop p = p\<lparr>tp_stop := True, tp_notify_all := True\<rparr>"

definition wake_all :: "'a ThreadPool \<Rightarrow> 'a ThreadPool" where
  "wake_all p = p\<lparr>tp_threads := map (\<lambda>w. if w = Blocked then Checking else w) (tp_threads p), tp_notify_all := False\<rparr>"

definition joined :: "'a ThreadPool \<Rightarrow> bool" where
  "joined p \<longleftrightarrow> tp_stop p \<and> (\<forall>w \<in> set (tp_threads p). w = Exited)"

text \<open>Steps of the pool itself, then those of its clients and the wake-ups for no reason.\<close>

inductive pool_work :: "'a ThreadPool \<Rightarrow> 'a ThreadPool \<Rightarrow> bool" where
  check: "i < length (tp_threads p) \<Longrightarrow> tp_threads p ! i = Checking \<Longrightarrow> pool_work p (worker_check i p)"
| finish: "i < length (tp_threads p) \<Longrightarrow> tp_threads p ! i = Busy t \<Longrightarrow> pool_work p (worker_finish i t p)"
| notify: "i < length (tp_threads p) \<Longrightarrow> tp_threads p ! i = Blocked \<Longrightarrow> tp_notify p = Suc k \<Longrightarrow>
    pool_work p ((worker_wake i p)\<lparr>tp_notify := k\<rparr>)"
| notify_none: "Blocked \<notin> set (tp_threads p) \<Longrightarrow> tp_notify p = Suc k \<Longrightarrow> pool_work p (p\<lparr>tp_notify := k\<rparr>)"
| notify_all: "tp_notify_all p \<Longrightarrow> pool_work p (wake_all p)"

inductive pool_step :: "'a ThreadPool \<Rightarrow> 'a ThreadPool \<Rightarrow> bool" where
  work: "pool_work p p' \<Longrightarrow> pool_step p p'"
| enq: "\<not> tp_stop p \<Longrightarrow> pool_step p (enqueue t p)"
| stop: "\<not> tp_stop p \<Longrightarrow> pool_step p (pool_stop p)"
| spurious: "i < length (tp_threads p) \<Longrightarrow> tp_threads p ! i = Blocked \<Longrightarrow> pool_step p (worker_wake i p)"

subsection \<open>The invariant\<close>

fun running :: "'a worker \<Rightarrow> 'a multiset" where
  "running (Busy t) = {#t#}"
| "running _ = {#}"

definition active :: "'a worker \<Rightarrow> bool" where
  "active w \<longleftrightarrow> w \<noteq> Blocked \<and> w \<noteq> Exited"

text \<open>Tasks start in the order in which they came and none is lost or run twice; workers leave only
  after the last task; nobody sleeps after the final wake-up; and while there is a task, some
  worker is awake or will be woken.\<close>

definition pool_inv :: "'a ThreadPool \<Rightarrow> bool" where
  "pool_inv p \<longleftrightarrow>
     tp_enqueued p = tp_started p @ tp_tasks p \<and>
     mset (tp_started p) = mset (tp_finished p) + sum_list (map running (tp_threads p)) \<and>
     (Exited \<in> set (tp_threads p) \<longrightarrow> tp_stop p \<and> tp_tasks p = []) \<and>
     (tp_stop p \<and> \<not> tp_notify_all p \<longrightarrow> Blocked \<notin> set (tp_threads p)) \<and>
     (tp_notify_all p \<longrightarrow> tp_stop p) \<and>
     (tp_threads p \<noteq> [] \<and> tp_tasks p \<noteq> [] \<and> \<not> tp_stop p \<longrightarrow> 0 < tp_notify p \<or> (\<exists>w \<in> set (tp_threads p). active w))"

lemma sum_running_upd:
  assumes "i < length ws" and "running (ws ! i) = {#}"
  shows "sum_list (map running (ws[i := w])) = sum_list (map running ws) + running w"
proof -
  have "sum_list (map running ws) = sum_list (map running (take i ws)) + sum_list (map running (drop (Suc i) ws))"
    by (subst id_take_nth_drop [OF assms(1)]) (simp add: assms(2))
  then show ?thesis by (simp add: upd_conv_take_nth_drop [OF assms(1)] ac_simps)
qed

lemma sum_running_drop:
  assumes "i < length ws" and "running w = {#}"
  shows "sum_list (map running (ws[i := w])) + running (ws ! i) = sum_list (map running ws)"
proof -
  have "sum_list (map running ws)
      = sum_list (map running (take i ws)) + running (ws ! i) + sum_list (map running (drop (Suc i) ws))"
    by (subst id_take_nth_drop [OF assms(1)]) (simp add: add.assoc)
  then show ?thesis by (simp add: upd_conv_take_nth_drop [OF assms(1)] assms(2) ac_simps)
qed

lemma sum_running_wake_all:
  "sum_list (map running (map (\<lambda>w. if w = Blocked then Checking else w) ws)) = sum_list (map running ws)"
  by (induction ws) auto

lemma inv_check:
  assumes inv: "pool_inv p" and i: "i < length (tp_threads p)" and w: "tp_threads p ! i = Checking"
  shows "pool_inv (worker_check i p)"
proof -
  have run: "sum_list (map running ((tp_threads p)[i := w])) = sum_list (map running (tp_threads p)) + running w" for w
    using sum_running_upd [OF i] w by simp
  consider "tp_tasks p = []" "tp_stop p" | "tp_tasks p = []" "\<not> tp_stop p" | t ts where "tp_tasks p = t # ts"
    by (cases "tp_tasks p") auto
  then show ?thesis
  proof cases
    case 1
    then show ?thesis using inv i run [of Exited]
      by (auto simp: pool_inv_def worker_check_def dest: set_upd_old)
  next
    case 2
    then show ?thesis using inv i run [of Blocked]
      by (auto simp: pool_inv_def worker_check_def dest: set_upd_old)
  next
    case (3 t ts)
    have "\<exists>w \<in> set ((tp_threads p)[i := Busy t]). active w"
      using i by (intro bexI [of _ "Busy t"]) (auto simp: active_def set_update_memI)
    then show ?thesis using 3 inv i run [of "Busy t"]
      by (auto simp: pool_inv_def worker_check_def dest: set_upd_old)
  qed
qed

lemma inv_finish:
  assumes inv: "pool_inv p" and i: "i < length (tp_threads p)" and w: "tp_threads p ! i = Busy t"
  shows "pool_inv (worker_finish i t p)"
proof -
  have run: "sum_list (map running ((tp_threads p)[i := Checking])) + {#t#} = sum_list (map running (tp_threads p))"
    using sum_running_drop [OF i, of Checking] w by simp
  then have "mset (tp_started p) = mset (tp_finished p) + {#t#} + sum_list (map running ((tp_threads p)[i := Checking]))"
    using inv by (simp add: pool_inv_def ac_simps flip: run)
  moreover have "\<exists>w \<in> set ((tp_threads p)[i := Checking]). active w"
    using i by (intro bexI [of _ Checking]) (auto simp: active_def set_update_memI)
  ultimately show ?thesis using inv i
    by (auto simp: pool_inv_def worker_finish_def dest: set_upd_old)
qed

lemma inv_wake:
  assumes inv: "pool_inv p" and i: "i < length (tp_threads p)" and w: "tp_threads p ! i = Blocked"
  shows "pool_inv ((worker_wake i p)\<lparr>tp_notify := k\<rparr>)"
proof -
  have "sum_list (map running ((tp_threads p)[i := Checking])) = sum_list (map running (tp_threads p))"
    using sum_running_upd [OF i, of Checking] w by simp
  moreover have "\<exists>w \<in> set ((tp_threads p)[i := Checking]). active w"
    using i by (intro bexI [of _ Checking]) (auto simp: active_def set_update_memI)
  ultimately show ?thesis using inv i
    by (auto simp: pool_inv_def worker_wake_def dest: set_upd_old)
qed

lemma inv_notify_none:
  assumes "pool_inv p" and "Blocked \<notin> set (tp_threads p)"
  shows "pool_inv (p\<lparr>tp_notify := k\<rparr>)"
proof -
  have "\<exists>w \<in> set (tp_threads p). active w" if "tp_threads p \<noteq> []" "\<not> tp_stop p"
    using assms that by (cases "tp_threads p") (auto simp: pool_inv_def active_def)
  then show ?thesis using assms by (auto simp: pool_inv_def)
qed

lemma inv_wake_all: "pool_inv p \<Longrightarrow> tp_notify_all p \<Longrightarrow> pool_inv (wake_all p)"
  using sum_running_wake_all [of "tp_threads p"] by (auto simp: pool_inv_def wake_all_def comp_def)

lemma worker_wake_same: "worker_wake i p = (worker_wake i p)\<lparr>tp_notify := tp_notify p\<rparr>"
  by (simp add: worker_wake_def)

lemma pool_work_inv: "pool_work p p' \<Longrightarrow> pool_inv p \<Longrightarrow> pool_inv p'"
  by (induction rule: pool_work.induct)
    (simp_all add: inv_check inv_finish inv_wake inv_notify_none inv_wake_all)

lemma pool_step_inv: "pool_step p p' \<Longrightarrow> pool_inv p \<Longrightarrow> pool_inv p'"
proof (induction rule: pool_step.induct)
  case (work p p')
  then show ?case by (simp add: pool_work_inv)
next
  case (enq p t)
  then show ?case by (auto simp: pool_inv_def enqueue_def)
next
  case (stop p)
  then show ?case by (auto simp: pool_inv_def pool_stop_def)
next
  case (spurious i p)
  then show ?case using inv_wake [of p i "tp_notify p"] by (simp flip: worker_wake_same)
qed

interpretation pool: invariant_system "\<lambda>p. \<exists>sz. p = make_pool sz" pool_step pool_inv
proof (unfold_locales, goal_cases)
  case (1 p)
  have "sum_list (replicate sz ({#} :: 'a multiset)) = {#}" for sz by (induction sz) simp_all
  then show ?case using 1 by (auto simp: pool_inv_def make_pool_def)
qed (simp add: pool_step_inv)

subsection \<open>Work gets done\<close>

lemma work_threads: "pool_work p p' \<Longrightarrow> length (tp_threads p') = length (tp_threads p)"
  by (induction rule: pool_work.induct)
    (simp_all add: worker_check_def worker_finish_def worker_wake_def wake_all_def)

lemma step_threads: "pool_step p p' \<Longrightarrow> length (tp_threads p') = length (tp_threads p)"
  by (induction rule: pool_step.induct) (simp_all add: work_threads enqueue_def pool_stop_def worker_wake_def)

lemma steps_threads: "rtranclp pool_step (make_pool sz) p \<Longrightarrow> length (tp_threads p) = sz"
  by (induction rule: rtranclp_induct) (simp_all add: step_threads make_pool_def)

text \<open>How much the pool has to do before it comes to rest.\<close>

fun worker_load :: "'a worker \<Rightarrow> nat" where
  "worker_load Checking = 1"
| "worker_load (Busy t) = 2"
| "worker_load _ = 0"

definition pool_load :: "'a ThreadPool \<Rightarrow> nat" where
  "pool_load p = 3 * length (tp_tasks p) + sum_list (map worker_load (tp_threads p)) + 2 * tp_notify p
     + (if tp_notify_all p then Suc (length (tp_threads p)) else 0)"

lemma load_wake_all:
  "sum_list (map worker_load (map (\<lambda>w. if w = Blocked then Checking else w) ws)) \<le> sum_list (map worker_load ws) + length ws"
  by (induction ws) auto

lemma pool_work_load: "pool_work p p' \<Longrightarrow> pool_load p' < pool_load p"
proof (induction rule: pool_work.induct)
  case (check i p)
  have "sum_list (map worker_load ((tp_threads p)[i := w])) + 1 = sum_list (map worker_load (tp_threads p)) + worker_load w" for w
    using sum_list_upd [OF check(1), of worker_load w] check(2) by simp
  from this [of Exited] this [of Blocked] this [of "Busy (hd (tp_tasks p))"] show ?case
    by (cases "tp_tasks p") (auto simp: pool_load_def worker_check_def)
next
  case (finish i p t)
  then show ?case
    using sum_list_upd [OF finish(1), of worker_load Checking] by (simp add: pool_load_def worker_finish_def)
next
  case (notify i p k)
  then show ?case
    using sum_list_upd [OF notify(1), of worker_load Checking] by (simp add: pool_load_def worker_wake_def)
next
  case (notify_all p)
  then show ?case
    using load_wake_all [of "tp_threads p"] by (simp add: pool_load_def wake_all_def comp_def)
qed (simp add: pool_load_def)

text \<open>A pool with nothing left to do has an empty queue, and is joined when it was told to stop.\<close>

lemma active_works:
  assumes "w \<in> set (tp_threads p)" and "active w"
  shows "\<exists>p'. pool_work p p'"
proof -
  obtain i where i: "i < length (tp_threads p)" "tp_threads p ! i = w" using assms(1) by (auto simp: in_set_conv_nth)
  then show ?thesis using assms(2) pool_work.check [of i p] pool_work.finish [of i p]
    by (cases w) (auto simp: active_def)
qed

lemma notify_works: "0 < tp_notify p \<Longrightarrow> \<exists>p'. pool_work p p'"
  using pool_work.notify [of _ p] pool_work.notify_none [of p]
  by (cases "tp_notify p"; cases "Blocked \<in> set (tp_threads p)") (auto simp: in_set_conv_nth)

lemma pool_rest:
  assumes "pool_inv p" and "\<nexists>p'. pool_work p p'" and "tp_threads p \<noteq> []"
  shows "tp_tasks p = []" and "tp_stop p \<Longrightarrow> joined p"
proof -
  have na: "\<not> active w" if "w \<in> set (tp_threads p)" for w using active_works that assms(2) by blast
  have nn: "\<not> tp_notify_all p" using pool_work.notify_all assms(2) by blast
  have ex: "\<forall>w \<in> set (tp_threads p). w = Exited" if "tp_stop p"
    using that na nn assms(1) by (auto simp: pool_inv_def active_def)
  then show "tp_stop p \<Longrightarrow> joined p" by (simp add: joined_def)
  show "tp_tasks p = []"
  proof (cases "tp_stop p")
    case True
    then have "Exited \<in> set (tp_threads p)" using ex assms(3) by (cases "tp_threads p") auto
    then show ?thesis using assms(1) by (simp add: pool_inv_def)
  next
    case False
    then show ?thesis using assms na notify_works [of p] by (auto simp: pool_inv_def)
  qed
qed

lemma work_keeps: "pool_work p p' \<Longrightarrow> tp_stop p' = tp_stop p \<and> tp_enqueued p' = tp_enqueued p"
  by (induction rule: pool_work.induct)
    (simp_all add: worker_check_def worker_finish_def worker_wake_def wake_all_def)

lemma pool_comes_to_rest:
  "pool_inv p \<Longrightarrow> tp_threads p \<noteq> [] \<Longrightarrow>
    \<exists>p'. rtranclp pool_work p p' \<and> pool_inv p' \<and> tp_threads p' \<noteq> [] \<and> tp_stop p' = tp_stop p
      \<and> tp_enqueued p' = tp_enqueued p \<and> (\<nexists>p''. pool_work p' p'')"
proof (induction "pool_load p" arbitrary: p rule: less_induct)
  case less
  show ?case
  proof (cases "\<exists>p'. pool_work p p'")
    case True
    then obtain p' where w: "pool_work p p'" by blast
    have "tp_threads p' \<noteq> []" using work_threads [OF w] less.prems(2) by auto
    from less.hyps [OF pool_work_load [OF w] pool_work_inv [OF w less.prems(1)] this] work_keeps [OF w] w
    show ?thesis by (metis converse_rtranclp_into_rtranclp)
  next
    case False
    then show ?thesis using less.prems by blast
  qed
qed

lemma reach_pool_inv: "rtranclp pool_step (make_pool sz) p \<Longrightarrow> pool_inv p"
  by (rule pool.reach_inv) blast+

lemma reach_threads: "rtranclp pool_step (make_pool sz) p \<Longrightarrow> 0 < sz \<Longrightarrow> tp_threads p \<noteq> []"
  using steps_threads by fastforce

lemma exited_idle: "\<forall>w \<in> set ws. w = Exited \<Longrightarrow> sum_list (map running ws) = {#}"
  by (induction ws) auto

lemma joined_drained:
  assumes "pool_inv p" and "joined p" and "tp_threads p \<noteq> []"
  shows "tp_tasks p = [] \<and> mset (tp_finished p) = mset (tp_enqueued p)"
proof -
  have ex: "\<forall>w \<in> set (tp_threads p). w = Exited" using assms(2) by (simp add: joined_def)
  then have "Exited \<in> set (tp_threads p)" using assms(3) by (cases "tp_threads p") auto
  moreover from ex have "sum_list (map running (tp_threads p)) = {#}" by (rule exited_idle)
  ultimately show ?thesis using assms(1) by (simp add: pool_inv_def)
qed

lemma work_steps: "rtranclp pool_work p q \<Longrightarrow> rtranclp pool_step p q"
  by (induction rule: rtranclp_induct) (auto intro: rtranclp.rtrancl_into_rtrancl pool_step.work)

lemma stopped_finishes:
  assumes "rtranclp pool_step (make_pool sz) p" and "0 < sz" and "tp_stop p"
  shows "\<exists>p'. rtranclp pool_work p p' \<and> joined p' \<and> mset (tp_finished p') = mset (tp_enqueued p)"
proof -
  obtain p' where p': "rtranclp pool_work p p'" "pool_inv p'" "tp_threads p' \<noteq> []" "tp_stop p' = tp_stop p"
    "tp_enqueued p' = tp_enqueued p" "\<nexists>p''. pool_work p' p''"
    using pool_comes_to_rest [OF reach_pool_inv [OF assms(1)] reach_threads [OF assms(1,2)]] by blast
  have "joined p'" using pool_rest(2) [OF p'(2,6,3)] p'(4) assms(3) by simp
  then show ?thesis using joined_drained [OF p'(2) _ p'(3)] p'(1,5) by auto
qed

text \<open>For the programs that use a pool.\<close>

lemma work_finished: "pool_work p p' \<Longrightarrow> set (tp_finished p) \<subseteq> set (tp_finished p')"
  by (induction rule: pool_work.induct)
    (auto simp: worker_check_def worker_finish_def worker_wake_def wake_all_def)

lemma busy_enqueued:
  assumes "pool_inv p" and "Busy t \<in> set (tp_threads p)"
  shows "t \<in> set (tp_enqueued p)"
proof -
  from assms(2) obtain ws vs where "tp_threads p = ws @ Busy t # vs" by (auto simp: in_set_conv_decomp)
  then have "t \<in># sum_list (map running (tp_threads p))" by simp
  then have "t \<in># mset (tp_started p)" using assms(1) by (simp add: pool_inv_def)
  then show ?thesis using assms(1) by (simp add: pool_inv_def)
qed

lemma busy_upd: "Busy t \<in> set ws \<Longrightarrow> ws ! i \<noteq> Busy t \<Longrightarrow> Busy t \<in> set (ws[i := w])"
  by (auto simp: in_set_conv_nth) (metis nth_list_update_neq)

lemma busy_kept:
  assumes "pool_work p p'" and "Busy t \<in> set (tp_threads p)"
  shows "Busy t \<in> set (tp_threads p') \<or> t \<in> set (tp_finished p')"
  using assms
proof cases
  case (check i)
  then show ?thesis using busy_upd [OF assms(2), of i] by (simp add: worker_check_def)
next
  case (finish i u)
  then show ?thesis using busy_upd [OF assms(2), of i] by (cases "u = t") (simp_all add: worker_finish_def)
next
  case (notify i k)
  then show ?thesis using busy_upd [OF assms(2), of i] by (simp add: worker_wake_def)
qed (auto simp: wake_all_def)

lemma finished_enqueued: "pool_inv p \<Longrightarrow> set (tp_finished p) \<subseteq> set (tp_enqueued p)"
proof -
  assume inv: "pool_inv p"
  then have "mset (tp_started p) = mset (tp_finished p) + sum_list (map running (tp_threads p))" by (simp add: pool_inv_def)
  then have "set (tp_finished p) \<subseteq> set (tp_started p)" by (metis mset_subset_eq_add_left set_mset_mono set_mset_mset)
  then show ?thesis using inv by (auto simp: pool_inv_def)
qed

lemma enqueue_inv: "pool_inv p \<Longrightarrow> \<not> tp_stop p \<Longrightarrow> pool_inv (enqueue t p)"
  by (rule pool_step_inv [OF pool_step.enq])

lemma stop_inv: "pool_inv p \<Longrightarrow> \<not> tp_stop p \<Longrightarrow> pool_inv (pool_stop p)"
  by (rule pool_step_inv [OF pool_step.stop])

subsection \<open>What a pool promises\<close>

text \<open>The specification: a queue that hands out its tasks in order, with no threads in it. Tasks wait,
  run and are done; a closed queue takes no more.\<close>

record 'a work_queue =
  wq_waiting :: "'a list"
  wq_running :: "'a multiset"
  wq_done :: "'a multiset"
  wq_closed :: bool

inductive wq_step :: "'a work_queue \<Rightarrow> 'a work_queue \<Rightarrow> bool" where
  submit: "\<not> wq_closed q \<Longrightarrow> wq_step q (q\<lparr>wq_waiting := wq_waiting q @ [t]\<rparr>)"
| start: "wq_waiting q = t # ts \<Longrightarrow> wq_step q (q\<lparr>wq_waiting := ts, wq_running := add_mset t (wq_running q)\<rparr>)"
| complete: "wq_running q = add_mset t r \<Longrightarrow> wq_step q (q\<lparr>wq_running := r, wq_done := add_mset t (wq_done q)\<rparr>)"
| close: "\<not> wq_closed q \<Longrightarrow> wq_step q (q\<lparr>wq_closed := True\<rparr>)"

definition wq_of :: "'a ThreadPool \<Rightarrow> 'a work_queue" where
  "wq_of p = \<lparr>wq_waiting = tp_tasks p, wq_running = sum_list (map running (tp_threads p)),
     wq_done = mset (tp_finished p), wq_closed = tp_stop p\<rparr>"

lemma wq_check:
  assumes i: "i < length (tp_threads p)" and w: "tp_threads p ! i = Checking"
  shows "wq_step (wq_of p) (wq_of (worker_check i p)) \<or> wq_of (worker_check i p) = wq_of p"
proof -
  have run: "sum_list (map running ((tp_threads p)[i := w])) = sum_list (map running (tp_threads p)) + running w" for w
    using sum_running_upd [OF i] w by simp
  show ?thesis
  proof (cases "tp_tasks p")
    case Nil
    then show ?thesis using run by (simp add: worker_check_def wq_of_def)
  next
    case (Cons t ts)
    then have "wq_of (worker_check i p) = (wq_of p)\<lparr>wq_waiting := ts, wq_running := add_mset t (wq_running (wq_of p))\<rparr>"
      using run [of "Busy t"] by (simp add: worker_check_def wq_of_def)
    moreover have "wq_waiting (wq_of p) = t # ts" using Cons by (simp add: wq_of_def)
    ultimately show ?thesis using wq_step.start by metis
  qed
qed

lemma wq_finish:
  assumes i: "i < length (tp_threads p)" and w: "tp_threads p ! i = Busy t"
  shows "wq_step (wq_of p) (wq_of (worker_finish i t p))"
proof -
  let ?r = "sum_list (map running ((tp_threads p)[i := Checking]))"
  have "wq_running (wq_of p) = add_mset t ?r"
    using sum_running_drop [OF i, of Checking] w by (simp add: wq_of_def)
  moreover have "wq_of (worker_finish i t p) = (wq_of p)\<lparr>wq_running := ?r, wq_done := add_mset t (wq_done (wq_of p))\<rparr>"
    by (simp add: wq_of_def worker_finish_def)
  ultimately show ?thesis using wq_step.complete by metis
qed

lemma wq_wake:
  assumes "i < length (tp_threads p)" and "tp_threads p ! i = Blocked"
  shows "wq_of ((worker_wake i p)\<lparr>tp_notify := k\<rparr>) = wq_of p"
  using sum_running_upd [OF assms(1), of Checking] assms(2) by (simp add: worker_wake_def wq_of_def)

interpretation pool_spec: simulation pool_step wq_step wq_of
proof
  fix p p' :: "'a ThreadPool"
  assume "pool_step p p'"
  then show "wq_step (wq_of p) (wq_of p') \<or> wq_of p' = wq_of p"
  proof cases
    case work
    then show ?thesis
    proof cases
      case notify_all
      then show ?thesis using sum_running_wake_all [of "tp_threads p"] by (simp add: wq_of_def wake_all_def)
    qed (simp_all add: wq_check wq_finish wq_wake, simp add: wq_of_def)
  next
    case (enq t)
    then have "wq_of p' = (wq_of p)\<lparr>wq_waiting := wq_waiting (wq_of p) @ [t]\<rparr>" by (simp add: wq_of_def enqueue_def)
    then show ?thesis using wq_step.submit [of "wq_of p" t] enq(2) by (simp add: wq_of_def)
  next
    case stop
    then have "wq_of p' = (wq_of p)\<lparr>wq_closed := True\<rparr>" by (simp add: wq_of_def pool_stop_def)
    then show ?thesis using wq_step.close [of "wq_of p"] stop(2) by (simp add: wq_of_def)
  next
    case (spurious i)
    then show ?thesis using wq_wake [of i p "tp_notify p"] by (simp flip: worker_wake_same)
  qed
qed

subsection \<open>A pool with one worker and its first task\<close>

definition one_task :: "'a \<Rightarrow> 'a ThreadPool \<Rightarrow> bool" where
  "one_task t p \<longleftrightarrow> length (tp_threads p) = 1 \<and> tp_finished p = [] \<and> (tp_started p = [] \<or> tp_started p = [t]) \<and>
     (\<exists>ts. tp_enqueued p = t # ts)"

lemma one_task_busy:
  assumes "one_task t p" and "pool_inv p" and "Busy u \<in> set (tp_threads p)"
  shows "u = t"
proof -
  obtain w where "tp_threads p = [w]" using assms(1) by (auto simp: one_task_def length_Suc_conv)
  then have "mset (tp_started p) = {#u#}" using assms by (auto simp: one_task_def pool_inv_def)
  then show ?thesis using assms(1) by (auto simp: one_task_def)
qed

lemma one_task_work:
  assumes "one_task t p" and "pool_inv p" and "pool_work p p'" and "t \<notin> set (tp_finished p')"
  shows "one_task t p'"
proof -
  have f: "tp_finished p' = []"
    using assms(3)
  proof cases
    case (finish i u)
    then have "Busy u \<in> set (tp_threads p)" by (metis nth_mem)
    then have "u = t" by (rule one_task_busy [OF assms(1,2)])
    then show ?thesis using finish(1) assms(4) by (simp add: worker_finish_def)
  qed (use assms(1) in \<open>simp_all add: one_task_def worker_check_def worker_wake_def wake_all_def\<close>)
  have "tp_started p' = [] \<or> tp_started p' = [t]"
    using assms(3)
  proof cases
    case (check i)
    have "tp_threads p = [Checking]" using assms(1) check by (auto simp: one_task_def length_Suc_conv)
    then have st: "tp_started p = []" using assms(1,2) by (simp add: one_task_def pool_inv_def)
    then have "hd (tp_tasks p) = t" using assms(1,2) by (auto simp: one_task_def pool_inv_def)
    then show ?thesis using check st by (simp add: worker_check_def)
  qed (use assms(1) in \<open>simp_all add: one_task_def worker_finish_def worker_wake_def wake_all_def\<close>)
  then show ?thesis using assms(1) f work_threads [OF assms(3)] work_keeps [OF assms(3)] by (simp add: one_task_def)
qed

lemma one_task_client:
  "one_task t p \<Longrightarrow> one_task t (enqueue u p)" "one_task t p \<Longrightarrow> one_task t (pool_stop p)"
  "one_task t p \<Longrightarrow> one_task t (worker_wake i p)"
  by (auto simp: one_task_def enqueue_def pool_stop_def worker_wake_def)

subsection \<open>Properties\<close>

text \<open>(C15) First in, first out, exactly once: at every moment the tasks that were started are the
  first of those enqueued, in order, the queue is the rest, and each started task is finished or
  running on one worker.\<close>

theorem pool_fifo:
  assumes "rtranclp pool_step (make_pool sz) p"
  shows "tp_enqueued p = tp_started p @ tp_tasks p
    \<and> mset (tp_started p) = mset (tp_finished p) + sum_list (map running (tp_threads p))"
  using reach_pool_inv [OF assms] by (simp add: pool_inv_def)

lemma sample_pool:
  "rtranclp pool_step (make_pool 2) (worker_check 1 (enqueue (8 :: nat) (enqueue 7 (make_pool 2))))"
proof -
  have "rtranclp pool_step (make_pool 2) (enqueue (7 :: nat) (make_pool 2))"
    by (intro r_into_rtranclp pool_step.enq) (simp add: make_pool_def)
  also have "pool_step (enqueue 7 (make_pool 2)) (enqueue (8 :: nat) (enqueue 7 (make_pool 2)))"
    by (intro pool_step.enq) (simp add: make_pool_def enqueue_def)
  also have "pool_step (enqueue (8 :: nat) (enqueue 7 (make_pool 2))) (worker_check 1 (enqueue 8 (enqueue 7 (make_pool 2))))"
    by (intro pool_step.work pool_work.check) (simp_all add: make_pool_def enqueue_def)
  finally show ?thesis .
qed

theorem pool_fifo_witness:
  "tp_started (worker_check 1 (enqueue (8 :: nat) (enqueue 7 (make_pool 2)))) = [7] \<and>
   tp_enqueued (worker_check 1 (enqueue (8 :: nat) (enqueue 7 (make_pool 2)))) = [7] @ [8]"
  using pool_fifo [OF sample_pool] by (simp add: worker_check_def enqueue_def make_pool_def)

text \<open>The pool cannot work for ever on its own: without new tasks and wake-ups for no reason it
  comes to rest.\<close>

theorem pool_work_terminates: "wfp (\<lambda>p' p. pool_work p p')"
  by (rule wfp_if_convertible_to_nat [where f = pool_load]) (rule pool_work_load)

text \<open>No lost wake-up: while the queue is not empty the pool can make a step of its own, so the
  workers are never all asleep on a task.\<close>

theorem pool_no_lost_wakeup:
  assumes "rtranclp pool_step (make_pool sz) p" and "0 < sz" and "tp_tasks p \<noteq> []"
  shows "\<exists>p'. pool_work p p'"
  using pool_rest(1) [OF reach_pool_inv [OF assms(1)] _ reach_threads [OF assms(1,2)]] assms(3) by blast

theorem pool_no_lost_wakeup_witness:
  "\<exists>p'. pool_work (worker_check 1 (enqueue (8 :: nat) (enqueue 7 (make_pool 2)))) p'"
  by (rule pool_no_lost_wakeup [OF sample_pool]) (simp_all add: worker_check_def enqueue_def make_pool_def)

text \<open>(C16) The destructor can always finish, and when it does every task that was ever enqueued has
  been run to its end exactly once.\<close>

theorem pool_destructor:
  assumes "rtranclp pool_step (make_pool sz) p" and "0 < sz" and "tp_stop p"
  shows "\<exists>p'. rtranclp pool_work p p' \<and> joined p' \<and> mset (tp_finished p') = mset (tp_enqueued p)"
  using assms by (rule stopped_finishes)

theorem pool_destructor_witness:
  "\<exists>p'. rtranclp pool_work (pool_stop (worker_check 1 (enqueue (8 :: nat) (enqueue 7 (make_pool 2))))) p' \<and> joined p' \<and>
    mset (tp_finished p') = mset (tp_enqueued (pool_stop (worker_check 1 (enqueue (8 :: nat) (enqueue 7 (make_pool 2))))))"
proof (rule pool_destructor)
  show "rtranclp pool_step (make_pool 2) (pool_stop (worker_check 1 (enqueue (8 :: nat) (enqueue 7 (make_pool 2)))))"
    by (rule rtranclp.rtrancl_into_rtrancl [OF sample_pool])
      (intro pool_step.stop, simp add: worker_check_def enqueue_def make_pool_def)
qed (simp_all add: pool_stop_def)

text \<open>Once the destructor has joined all workers, however they were scheduled, no task is left
  behind.\<close>

theorem pool_joined:
  assumes "rtranclp pool_step (make_pool sz) p" and "0 < sz" and "joined p"
  shows "tp_tasks p = [] \<and> mset (tp_finished p) = mset (tp_enqueued p)"
  by (rule joined_drained [OF reach_pool_inv [OF assms(1)] assms(3) reach_threads [OF assms(1,2)]])

theorem pool_joined_witness:
  "\<exists>p. rtranclp pool_step (make_pool 2) p \<and> joined p \<and> tp_tasks p = [] \<and> mset (tp_finished p) = mset (tp_enqueued (p :: nat ThreadPool))"
proof -
  have "rtranclp pool_step (make_pool 2) (pool_stop (worker_check 1 (enqueue (8 :: nat) (enqueue 7 (make_pool 2)))))"
    by (rule rtranclp.rtrancl_into_rtrancl [OF sample_pool])
      (intro pool_step.stop, simp add: worker_check_def enqueue_def make_pool_def)
  moreover from stopped_finishes [OF this] obtain p where
    "rtranclp pool_work (pool_stop (worker_check 1 (enqueue (8 :: nat) (enqueue 7 (make_pool 2))))) p" "joined p"
    by (auto simp: pool_stop_def)
  ultimately have "rtranclp pool_step (make_pool 2) p" "joined p" using work_steps rtranclp_trans by metis+
  then show ?thesis using pool_joined [of 2 p] by auto
qed

text \<open>(C14) The pool implements a work queue: every run of the pool, with all its threads, wake-ups and
  notifications, is a run of the specification, in which tasks are handed out in the order they
  came, each once, and nothing is taken after closing.\<close>

theorem pool_refines_queue:
  fixes p :: "'a ThreadPool"
  assumes "rtranclp pool_step (make_pool sz) p"
  shows "rtranclp wq_step \<lparr>wq_waiting = [], wq_running = {#}, wq_done = {#}, wq_closed = False\<rparr> (wq_of p)"
proof -
  have "sum_list (replicate sz {#}) = ({#} :: 'a multiset)" by (induction sz) simp_all
  then have "wq_of (make_pool sz :: 'a ThreadPool) = \<lparr>wq_waiting = [], wq_running = {#}, wq_done = {#}, wq_closed = False\<rparr>"
    by (simp add: wq_of_def make_pool_def)
  then show ?thesis using pool_spec.run_simulates [OF assms] by simp
qed

theorem pool_refines_queue_witness:
  "rtranclp wq_step \<lparr>wq_waiting = [], wq_running = {#}, wq_done = {#}, wq_closed = False\<rparr>
    \<lparr>wq_waiting = [8 :: nat], wq_running = {#7#}, wq_done = {#}, wq_closed = False\<rparr>"
  using pool_refines_queue [OF sample_pool] by (simp add: wq_of_def worker_check_def enqueue_def make_pool_def numeral_2_eq_2)

end
