(* ===== verification/Recv_Supervise.thy ===== *)
theory Recv_Supervise
  imports Recv_Flow Thread_Pool
begin

section \<open>The receiver's main loop and supervisor (util/recv_flow.h)\<close>

text \<open>
  \<open>Server::Run\<close> accepts connections and enqueues a handler for each on the pool, whose first task is
  \<open>Server::Supervise\<close>: it waits until the header and all slices have their handlers, collects
  their results, and reports to the sender. The first part models the accept loop, the second the
  waiting, where the counters and the condition variable interact, the third what the supervisor
  does once it has been let through.
\<close>

subsection \<open>Accepting connections\<close>

datatype server_task = TSupervise | TRecv int

text \<open>\<open>p_\<close>, the futures (by the connection they belong to), \<open>slices_th_num_\<close> (an \<open>atomic_short\<close>) and the
  notifications of the supervisor.\<close>

record run_state =
  rs_pool :: "server_task ThreadPool"
  rs_res :: "int list"
  rs_th_num :: u16
  rs_notified :: nat

definition accept_conn :: "int \<Rightarrow> run_state \<Rightarrow> run_state" where
  "accept_conn conn_fd s =
     s\<lparr>rs_pool := enqueue (TRecv conn_fd) (rs_pool s), rs_res := rs_res s @ [conn_fd],
       rs_th_num := rs_th_num s + 1, rs_notified := Suc (rs_notified s)\<rparr>"

text \<open>The accept loop, over what \<open>accept\<close> returns; it ends with the first result that is not positive.
  \<open>None\<close> is a loop that has not ended yet.\<close>

fun accept_loop :: "run_state \<Rightarrow> int list \<Rightarrow> (run_state \<times> int list) option" where
  "accept_loop s [] = None"
| "accept_loop s (conn_fd # rest) =
     (if 0 < conn_fd then accept_loop (accept_conn conn_fd s) rest else Some (s, rest))"

fun accept_events :: "nat \<Rightarrow> run_state \<Rightarrow> int list \<Rightarrow> (run_state \<times> int list) option" where
  "accept_events 0 s fds = Some (s, fds)"
| "accept_events (Suc n) s fds =
     (case accept_loop s fds of None \<Rightarrow> None | Some (s', fds') \<Rightarrow> accept_events n s' fds')"

text \<open>The main loop, over the results of \<open>epoll_wait\<close>. It only ends when that fails.\<close>

fun run_loop :: "run_state \<Rightarrow> int list \<Rightarrow> int list \<Rightarrow> run_state \<times> int option" where
  "run_loop s [] fds = (s, None)"
| "run_loop s (num_fds # waits) fds =
     (if num_fds = -1 then (s, Some (-1))
      else
        (case accept_events (nat num_fds) s fds of
           None \<Rightarrow> (s, None)
         | Some (s', fds') \<Rightarrow> run_loop s' waits fds'))"

definition run_start :: "s32 \<Rightarrow> run_state" where
  "run_start jobs = \<lparr>rs_pool = enqueue TSupervise (make_pool (nat (sint (jobs + 1)))), rs_res = [],
     rs_th_num = 0, rs_notified = 0\<rparr>"

definition Server_Run :: "s32 \<Rightarrow> int list \<Rightarrow> int list \<Rightarrow> run_state \<times> int option" where
  "Server_Run jobs waits fds = run_loop (run_start jobs) waits fds"

text \<open>The program main_recv.cc: nothing to set up or take down, and what \<open>Run\<close> returned is ignored.\<close>

definition main_recv :: "s32 \<Rightarrow> int list \<Rightarrow> int list \<Rightarrow> run_state \<times> int option" where
  "main_recv jobs waits fds = (case Server_Run jobs waits fds of (s, r) \<Rightarrow> (s, map_option (\<lambda>_. 0) r))"

subsection \<open>Waiting for all connections\<close>

text \<open>The condition. \<open>slices_th_num_\<close> is a 16-bit signed number that is converted to the unsigned 32-bit
  type of \<open>slices_num_ + 1\<close>.\<close>

definition supervise_ready :: "u16 \<Rightarrow> u32 \<Rightarrow> bool" where
  "supervise_ready th_num slices_num \<longleftrightarrow> (scast th_num :: u32) \<ge> slices_num + 1 \<and> slices_num \<noteq> 0"

text \<open>Where the supervisor is: about to evaluate the condition, found it false and about to sleep,
  asleep, or through. The main loop and the handler of the header change the counters without the
  mutex, so that can happen at any of these points; a notification reaches the supervisor only
  when it is asleep.\<close>

datatype sup_pc = SupEval | SupSleepy | SupAsleep | SupGo

record sup_state =
  su_th_num :: u16
  su_slices_num :: u32
  su_notify :: nat
  su_pc :: sup_pc
  su_accepted :: nat

definition sup_start :: sup_state where
  "sup_start = \<lparr>su_th_num = 0, su_slices_num = 0, su_notify = 0, su_pc = SupEval, su_accepted = 0\<rparr>"

definition sup_accept :: "sup_state \<Rightarrow> sup_state" where
  "sup_accept s = s\<lparr>su_th_num := su_th_num s + 1, su_notify := Suc (su_notify s), su_accepted := Suc (su_accepted s)\<rparr>"

definition sup_notify :: "sup_state \<Rightarrow> sup_state" where
  "sup_notify s = s\<lparr>su_notify := su_notify s - 1, su_pc := (if su_pc s = SupAsleep then SupEval else su_pc s)\<rparr>"

definition sup_eval :: "sup_state \<Rightarrow> sup_state" where
  "sup_eval s = s\<lparr>su_pc := (if supervise_ready (su_th_num s) (su_slices_num s) then SupGo else SupSleepy)\<rparr>"

inductive sup_step :: "sup_state \<Rightarrow> sup_state \<Rightarrow> bool" where
  accept: "sup_step s (sup_accept s)"
| header: "su_slices_num s = 0 \<Longrightarrow> k \<noteq> 0 \<Longrightarrow> sup_step s (s\<lparr>su_slices_num := k\<rparr>)"
| notify: "0 < su_notify s \<Longrightarrow> sup_step s (sup_notify s)"
| eval: "su_pc s = SupEval \<Longrightarrow> sup_step s (sup_eval s)"
| sleep: "su_pc s = SupSleepy \<Longrightarrow> sup_step s (s\<lparr>su_pc := SupAsleep\<rparr>)"

subsection \<open>The report\<close>

text \<open>The report is written by simple loops. \<open>num_wr\<close> is what \<open>write\<close> returns, -1 included, and is added
  to \<open>wr_index\<close> without a look. The first loop compares as \<open>int\<close>, the second as \<open>size_t\<close>.\<close>

fun write_end :: "int \<Rightarrow> byte list \<Rightarrow> int list \<Rightarrow> (byte list \<times> int list) run" where
  "write_end wr_index out [] = Running"
| "write_end wr_index out (r # rs) =
     (let num_wr = min r (2 - wr_index)
      in if wr_index < 0 then Crash BadMemory
         else
           (let out' = out @ take (nat num_wr) (drop (nat wr_index) [69, 0]);
                wr_index' = wr_index + num_wr
            in if wr_index' < 2 then write_end wr_index' out' rs else Done (out', rs)))"

fun write_report :: "byte list \<Rightarrow> int \<Rightarrow> byte list \<Rightarrow> int list \<Rightarrow> (byte list \<times> int list) run" where
  "write_report res wr_index out [] = Running"
| "write_report res wr_index out (r # rs) =
     (let num_wr = min r (int (length res) - wr_index);
          out' = out @ take (nat num_wr) (drop (nat wr_index) res);
          wr_index' = wr_index + num_wr
      in if 0 \<le> wr_index' \<and> wr_index' < int (length res) then write_report res wr_index' out' rs
         else Done (out', rs))"

text \<open>The results of the handlers, in the order of the futures. \<open>get\<close> throws what the handler threw.\<close>

fun collect :: "handler_result list \<Rightarrow> c_error + nat" where
  "collect [] = Inr 0"
| "collect (Threw e # fs) = Inl e"
| "collect (Returned r # fs) = map_sum id (\<lambda>n. if r \<noteq> 0 then Suc n else n) (collect fs)"

text \<open>The end of the supervisor: what went out to the sender and how it ended. \<open>valid_res\<close> is what
  \<open>ValidUtil::getValidResult\<close> returned, \<open>bufs\<close> the buffers in the map. The mapping is unmapped and
  then passed to \<open>free\<close>, although it never came from \<open>malloc\<close>.\<close>

datatype sup_result = SReturn int | SThrow c_error | SFault c_error

definition sup_cleanup :: "cbuf list \<Rightarrow> mapping \<Rightarrow> sup_result" where
  "sup_cleanup bufs start =
     (if CFreed \<in> set bufs then SFault BadFree
      else if start \<noteq> MapNull then SFault BadFree
      else SReturn 0)"

definition Server_Supervise ::
    "bool \<Rightarrow> handler_result list \<Rightarrow> byte list \<Rightarrow> cbuf list \<Rightarrow> mapping \<Rightarrow> int list \<Rightarrow> (sup_result \<times> byte list) run" where
  "Server_Supervise connected futures valid_res bufs start ws =
     (if \<not> connected then Done (SReturn (-1), [])
      else
        (case collect futures of
           Inl e \<Rightarrow> Done (SThrow e, [])
         | Inr _ \<Rightarrow>
             (case write_end 0 [] ws of
                Running \<Rightarrow> Running
              | Crash e \<Rightarrow> Crash e
              | Done (out, ws') \<Rightarrow>
                  (case write_report valid_res 0 out ws' of
                     Running \<Rightarrow> Running
                   | Crash e \<Rightarrow> Crash e
                   | Done (out', _) \<Rightarrow> Done (sup_cleanup bufs start, out')))))"

subsection \<open>Facts about the accept loop\<close>

lemma accept_loop_runs:
  "list_all ((<) 0) fds \<Longrightarrow> e \<le> 0 \<Longrightarrow> accept_loop s (fds @ e # rest) = Some (fold accept_conn fds s, rest)"
  by (induction fds arbitrary: s) simp_all

lemma fold_accept:
  "rs_res (fold accept_conn fds s) = rs_res s @ fds"
  "rs_th_num (fold accept_conn fds s) = rs_th_num s + of_nat (length fds)"
  "rs_notified (fold accept_conn fds s) = rs_notified s + length fds"
  "tp_tasks (rs_pool (fold accept_conn fds s)) = tp_tasks (rs_pool s) @ map TRecv fds"
  "tp_enqueued (rs_pool (fold accept_conn fds s)) = tp_enqueued (rs_pool s) @ map TRecv fds"
  by (induction fds arbitrary: s) (simp_all add: accept_conn_def enqueue_def)

subsection \<open>The wait: invariant\<close>

lemma supervise_ready_small:
  assumes "n < 2 ^ 15" and "unat k + 1 < 2 ^ 32"
  shows "supervise_ready (of_nat n) k \<longleftrightarrow> unat k + 1 \<le> n \<and> k \<noteq> 0"
proof -
  have "int n < 2 ^ 15" using assms(1) by (metis of_nat_less_iff of_nat_numeral of_nat_power)
  then have "sint (of_nat n :: u16) = int n" by (simp add: signed_of_nat signed_take_bit_int_eq_self)
  then have "(scast (of_nat n :: u16) :: u32) = of_nat n" by (metis of_int_of_nat_eq of_int_sint)
  moreover have "unat (of_nat n :: u32) = n" using assms(1) by (simp add: unat_of_nat)
  moreover have "unat (k + 1) = unat k + 1"
    using assms(2) by (subst unat_add_lem [THEN iffD1]) simp_all
  ultimately show ?thesis by (simp add: supervise_ready_def word_le_nat_alt)
qed

text \<open>The counter is the number of connections modulo \<open>2 ^ 16\<close>; a supervisor that is through has seen
  them all, as long as the counter has not turned negative.\<close>

definition sup_inv :: "sup_state \<Rightarrow> bool" where
  "sup_inv s \<longleftrightarrow> su_th_num s = of_nat (su_accepted s) \<and>
     (su_pc s = SupGo \<and> su_accepted s < 2 ^ 15 \<and> unat (su_slices_num s) + 1 < 2 ^ 32 \<longrightarrow>
        su_slices_num s \<noteq> 0 \<and> unat (su_slices_num s) + 1 \<le> su_accepted s)"

lemma go_slices: "su_pc s = SupGo \<Longrightarrow> sup_inv s \<Longrightarrow> su_slices_num s = 0 \<Longrightarrow> 2 ^ 15 \<le> su_accepted s"
  by (auto simp: sup_inv_def)

interpretation sup: invariant_system "\<lambda>s. s = sup_start" sup_step sup_inv
proof (unfold_locales, goal_cases)
  case (1 s)
  then show ?case by (simp add: sup_inv_def sup_start_def)
next
  case (2 s t)
  from 2(2,1) show ?case
  proof (induction rule: sup_step.induct)
    case (header s k)
    then show ?case using go_slices [of s] by (auto simp: sup_inv_def)
  next
    case (eval s)
    then show ?case using supervise_ready_small [of "su_accepted s" "su_slices_num s"]
      by (auto simp: sup_inv_def sup_eval_def)
  qed (auto simp: sup_inv_def sup_accept_def sup_notify_def)
qed

text \<open>A schedule in which the supervisor misses everything: it finds the condition false, and before
  it falls asleep all connections are accepted and notified.\<close>

lemma missed_notifications:
  "rtranclp sup_step (sup_start\<lparr>su_pc := SupSleepy\<rparr>)
    \<lparr>su_th_num = of_nat n, su_slices_num = 0, su_notify = 0, su_pc = SupSleepy, su_accepted = n\<rparr>"
proof (induction n)
  case 0
  then show ?case by (simp add: sup_start_def)
next
  case (Suc n)
  let ?s = "\<lparr>su_th_num = of_nat n, su_slices_num = 0, su_notify = 0, su_pc = SupSleepy, su_accepted = n\<rparr>"
  have "sup_step (sup_accept ?s) (sup_notify (sup_accept ?s))"
    by (rule sup_step.notify) (simp add: sup_accept_def)
  with Suc sup_step.accept [of ?s] have "rtranclp sup_step (sup_start\<lparr>su_pc := SupSleepy\<rparr>) (sup_notify (sup_accept ?s))"
    by (meson rtranclp.rtrancl_into_rtrancl)
  then show ?case by (simp add: sup_notify_def sup_accept_def add.commute)
qed

definition sup_stuck :: "nat \<Rightarrow> sup_state" where
  "sup_stuck k = \<lparr>su_th_num = of_nat (Suc k), su_slices_num = of_nat k, su_notify = 0, su_pc = SupAsleep,
     su_accepted = Suc k\<rparr>"

lemma sup_stuck_reachable:
  assumes "(of_nat k :: u32) \<noteq> 0"
  shows "rtranclp sup_step sup_start (sup_stuck k)"
proof -
  let ?s = "\<lparr>su_th_num = of_nat (Suc k), su_slices_num = 0, su_notify = 0, su_pc = SupSleepy, su_accepted = Suc k\<rparr>"
  have "sup_step sup_start (sup_eval sup_start)" by (rule sup_step.eval) (simp add: sup_start_def)
  moreover have "sup_eval sup_start = sup_start\<lparr>su_pc := SupSleepy\<rparr>"
    by (simp add: sup_eval_def sup_start_def supervise_ready_def)
  ultimately have "rtranclp sup_step sup_start ?s"
    using missed_notifications [of "Suc k"] by (simp add: converse_rtranclp_into_rtranclp)
  also have "sup_step ?s (?s\<lparr>su_pc := SupAsleep\<rparr>)" by (rule sup_step.sleep) simp
  also have "sup_step (?s\<lparr>su_pc := SupAsleep\<rparr>) (?s\<lparr>su_pc := SupAsleep, su_slices_num := of_nat k\<rparr>)"
    using sup_step.header [of "?s\<lparr>su_pc := SupAsleep\<rparr>" "of_nat k"] assms by simp
  finally show ?thesis by (simp add: sup_stuck_def)
qed

subsection \<open>The report goes out\<close>

lemma write_end_all:
  "list_all ((<) 0) rs \<Longrightarrow> 2 \<le> length rs \<Longrightarrow>
    \<exists>rs'. write_end 0 [] rs = Done ([69, 0], rs') \<and> list_all ((<) 0) rs' \<and> length rs - 2 \<le> length rs'"
  by (cases rs; cases "tl rs") (auto simp: Let_def min_def)

lemma write_report_all:
  "list_all ((<) 0) rs \<Longrightarrow> j \<le> length res \<Longrightarrow> length res - j < length rs \<Longrightarrow>
    \<exists>rs'. write_report res (int j) (out @ take j res) rs = Done (out @ res, rs')"
proof (induction rs arbitrary: j)
  case Nil
  then show ?case by simp
next
  case (Cons r rs)
  define k where "k = min (nat r) (length res - j)"
  have num: "min r (int (length res) - int j) = int k" using Cons.prems(1,2) by (auto simp: k_def min_def)
  have idx: "int j + int k = int (j + k)" by simp
  have tk: "(out @ take j res) @ take k (drop j res) = out @ take (j + k) res" by (simp add: take_add)
  have unf: "write_report res (int j) (out @ take j res) (r # rs)
      = (if j + k < length res then write_report res (int (j + k)) (out @ take (j + k) res) rs
         else Done (out @ take (j + k) res, rs))"
    by (simp only: write_report.simps Let_def num nat_int idx tk of_nat_less_iff of_nat_0_le_iff simp_thms)
  show ?case
  proof (cases "j + k < length res")
    case True
    then have "0 < k" using Cons.prems(1) by (auto simp: k_def)
    with True unf Cons.IH [of "j + k"] Cons.prems show ?thesis by auto
  next
    case False
    then show ?thesis using unf by auto
  qed
qed

lemma supervise_report_sent:
  assumes "collect futures = Inr failed" and "list_all ((<) 0) ws" and "length valid_res + 3 \<le> length ws"
  shows "Server_Supervise True futures valid_res bufs start ws = Done (sup_cleanup bufs start, [69, 0] @ valid_res)"
proof -
  obtain ws' where w: "write_end 0 [] ws = Done ([69, 0], ws')" "list_all ((<) 0) ws'" "length ws - 2 \<le> length ws'"
    using write_end_all [OF assms(2)] assms(3) by auto
  have "\<exists>rs'. write_report valid_res (int 0) ([69, 0] @ take 0 valid_res) ws' = Done ([69, 0] @ valid_res, rs')"
    by (rule write_report_all [OF w(2)]) (use w(3) assms(3) in simp_all)
  then show ?thesis using w(1) assms(1) by (auto simp: Server_Supervise_def)
qed

subsection \<open>Properties\<close>

lemma run_loop_batches:
  "list_all (list_all ((<) 0)) bs \<Longrightarrow>
    run_loop s (replicate (length bs) 1 @ [-1]) (concat (map (\<lambda>b. b @ [-1]) bs)) = (fold accept_conn (concat bs) s, Some (-1))"
proof (induction bs arbitrary: s)
  case (Cons b bs)
  have "accept_loop s (b @ -1 # concat (map (\<lambda>b. b @ [-1]) bs))
      = Some (fold accept_conn b s, concat (map (\<lambda>b. b @ [-1]) bs))"
    using Cons.prems by (intro accept_loop_runs) simp_all
  then show ?case using Cons by simp
qed simp

text \<open>Every connection the main loop accepts gets one handler: they are enqueued in the order of
  the connections, after the supervisor, each has a future, and the counter goes up by one for
  each, modulo \<open>2 ^ 16\<close>. \<open>bs\<close> are the connections of each round, after which \<open>accept\<close> fails.\<close>

theorem Server_Run_handlers:
  assumes "list_all (list_all ((<) 0)) bs"
  shows "\<exists>s. Server_Run jobs (replicate (length bs) 1 @ [-1]) (concat (map (\<lambda>b. b @ [-1]) bs)) = (s, Some (-1))
    \<and> tp_enqueued (rs_pool s) = TSupervise # map TRecv (concat bs) \<and> rs_res s = concat bs
    \<and> rs_th_num s = of_nat (length (concat bs)) \<and> rs_notified s = length (concat bs)"
proof -
  have "tp_enqueued (rs_pool (run_start jobs)) = [TSupervise]" "rs_res (run_start jobs) = []"
    "rs_th_num (run_start jobs) = 0" "rs_notified (run_start jobs) = 0"
    by (simp_all add: run_start_def enqueue_def make_pool_def)
  then show ?thesis using run_loop_batches [OF assms] by (simp add: Server_Run_def fold_accept)
qed

theorem Server_Run_handlers_witness:
  "\<exists>s. Server_Run 4 (replicate (length [[7], [8, 9 :: int]]) 1 @ [-1]) (concat (map (\<lambda>b. b @ [-1]) [[7], [8, 9]])) = (s, Some (-1))
    \<and> tp_enqueued (rs_pool s) = TSupervise # map TRecv (concat [[7], [8, 9]]) \<and> rs_res s = concat [[7], [8, 9]]
    \<and> rs_th_num s = of_nat (length (concat [[7], [8, 9 :: int]])) \<and> rs_notified s = length (concat [[7], [8, 9 :: int]])"
  by (rule Server_Run_handlers) simp

text \<open>The supervisor does not go on too early: with fewer than 32768 connections so far, a
  supervisor that is past its wait has seen the header and a connection for the header and for
  each slice.\<close>

theorem supervise_waits:
  assumes "rtranclp sup_step sup_start s" and "su_pc s = SupGo" and "su_accepted s < 2 ^ 15"
    and "unat (su_slices_num s) + 1 < 2 ^ 32"
  shows "su_slices_num s \<noteq> 0 \<and> unat (su_slices_num s) + 1 \<le> su_accepted s"
  using sup.reach_inv [OF refl assms(1)] assms(2-4) by (simp add: sup_inv_def)

lemma sup_sample:
  "rtranclp sup_step sup_start
    \<lparr>su_th_num = 2, su_slices_num = 1, su_notify = 2, su_pc = SupGo, su_accepted = 2\<rparr>"
proof -
  let ?s = "\<lambda>n k c. \<lparr>su_th_num = of_nat n, su_slices_num = k, su_notify = n, su_pc = c, su_accepted = n\<rparr>"
  have acc: "sup_step (?s n k c) (?s (Suc n) k c)" for n k c
    using sup_step.accept [of "?s n k c"] by (simp add: sup_accept_def add.commute)
  have "rtranclp sup_step (?s 0 0 SupEval) (?s (Suc 0) 0 SupEval)" using acc by blast
  also have "sup_step (?s (Suc 0) 0 SupEval) (?s (Suc (Suc 0)) 0 SupEval)" by (rule acc)
  also have "sup_step (?s (Suc (Suc 0)) 0 SupEval) (?s (Suc (Suc 0)) 1 SupEval)"
    using sup_step.header [of "?s (Suc (Suc 0)) 0 SupEval" 1] by simp
  also have "sup_step (?s (Suc (Suc 0)) 1 SupEval) (?s (Suc (Suc 0)) 1 SupGo)"
    using sup_step.eval [of "?s (Suc (Suc 0)) 1 SupEval"] by (simp add: sup_eval_def supervise_ready_def)
  finally show ?thesis by (simp add: sup_start_def numeral_2_eq_2)
qed

theorem supervise_waits_witness:
  "\<exists>s. rtranclp sup_step sup_start s \<and> su_pc s = SupGo \<and> su_slices_num s \<noteq> 0 \<and> unat (su_slices_num s) + 1 \<le> su_accepted s"
  using supervise_waits [OF sup_sample] sup_sample by fastforce

text \<open>(C39) The supervisor can sleep for ever: there is a schedule, for any number of slices, after which
  all connections are there and the header has been processed, so that the condition holds, but
  the supervisor is asleep with no notification under way, and only another connection could
  wake it.\<close>

theorem supervise_lost_wakeup:
  assumes "0 < k" and "k < 2 ^ 15 - 1"
  shows "rtranclp sup_step sup_start (sup_stuck k) \<and> supervise_ready (su_th_num (sup_stuck k)) (su_slices_num (sup_stuck k))
    \<and> {s'. sup_step (sup_stuck k) s'} = {sup_accept (sup_stuck k)}"
proof -
  have k: "unat (of_nat k :: u32) = k" using assms(2) by (simp add: unat_of_nat)
  then have ne: "(of_nat k :: u32) \<noteq> 0" using assms(1) by auto
  have "supervise_ready (of_nat (Suc k)) (of_nat k)"
    using supervise_ready_small [of "Suc k" "of_nat k"] assms k ne by simp
  moreover have "{s'. sup_step (sup_stuck k) s'} = {sup_accept (sup_stuck k)}"
    using ne sup_step.accept [of "sup_stuck k"] by (auto simp: sup_stuck_def elim: sup_step.cases)
  ultimately show ?thesis using sup_stuck_reachable [OF ne] by (simp add: sup_stuck_def)
qed

theorem supervise_lost_wakeup_witness:
  "rtranclp sup_step sup_start (sup_stuck 4) \<and> supervise_ready (su_th_num (sup_stuck 4)) (su_slices_num (sup_stuck 4))
    \<and> {s'. sup_step (sup_stuck 4) s'} = {sup_accept (sup_stuck 4)}"
  by (rule supervise_lost_wakeup) simp_all

text \<open>The 16-bit counter: with 32768 to 65535 connections it is negative, which the comparison
  takes for a huge number, so the supervisor goes on however many slices are still to come.\<close>

theorem supervise_counter_wraps:
  assumes "2 ^ 15 \<le> n" and "n < 2 ^ 16" and "k \<noteq> 0" and "unat k < 2 ^ 31"
  shows "supervise_ready (of_nat n) k"
proof -
  have "n div 2 ^ 15 = 1" using assms(1,2) by simp
  then have "bit n 15" by (simp add: bit_iff_odd)
  then have b: "bit (scast (of_nat n :: u16) :: u32) 31" by (simp add: bit_simps)
  have "2 ^ 31 \<le> unat (w :: u32)" if "bit w 31" for w
  proof -
    have "bit (unat w) 31" using that by (simp add: bit_unsigned_iff)
    then have "odd (unat w div 2 ^ 31)" unfolding bit_iff_odd .
    then show ?thesis by (metis div_less even_zero linorder_not_less)
  qed
  then have "2 ^ 31 \<le> unat (scast (of_nat n :: u16) :: u32)" using b by blast
  moreover have "unat (k + 1) = unat k + 1"
    using assms(4) by (subst unat_add_lem [THEN iffD1]) simp_all
  ultimately show ?thesis using assms(3,4) by (simp add: supervise_ready_def word_le_nat_alt)
qed

theorem supervise_counter_wraps_witness: "supervise_ready (of_nat 32768) 40000"
  by (rule supervise_counter_wraps) simp_all

text \<open>The report does not depend on the outcome of the transfer: when no handler threw and the
  connection takes the writes, the sender gets the end mark and the validation text, however many
  handlers failed.\<close>

theorem Server_Supervise_reports:
  assumes "collect futures = Inr failed" and "list_all ((<) 0) ws" and "length valid_res + 3 \<le> length ws"
  shows "Server_Supervise True futures valid_res bufs start ws = Done (sup_cleanup bufs start, [69, 0] @ valid_res)"
  using assms by (rule supervise_report_sent)

theorem Server_Supervise_reports_witness:
  "Server_Supervise True [Returned 0, Returned (-1)] [1, 2, 3] [CBuf [5]] (Mapped [9]) [1, 2, 2, 2, 2, 2]
    = Done (sup_cleanup [CBuf [5]] (Mapped [9]), [69, 0] @ [1, 2, 3])"
  by (rule Server_Supervise_reports [where failed = 1]) simp_all

text \<open>The supervisor never ends cleanly after a transfer: with the output mapped it either stops
  early, or it passes a pointer to \<open>free\<close> that does not come from \<open>malloc\<close>.\<close>

theorem Server_Supervise_bad_free:
  assumes "Server_Supervise connected futures valid_res bufs (Mapped mem) ws = Done (r, out)"
  shows "(r = SReturn (-1) \<and> \<not> connected) \<or> (\<exists>e. r = SThrow e \<and> Threw e \<in> set futures) \<or> r = SFault BadFree"
proof -
  have th: "collect fs = Inl e \<Longrightarrow> Threw e \<in> set fs" for fs e
  proof (induction fs rule: collect.induct)
    case (3 r fs)
    then show ?case by (cases "collect fs") auto
  qed auto
  show ?thesis
    using assms by (auto simp: Server_Supervise_def sup_cleanup_def th split: if_splits sum.splits run.splits)
qed

theorem Server_Supervise_bad_free_witness:
  "Server_Supervise True [Returned 0] [1] [CBuf [5]] (Mapped [9]) [2, 1] = Done (SFault BadFree, [69, 0, 1])"
proof -
  have "Server_Supervise True [Returned 0] [1] [CBuf [5]] (Mapped [9]) [2, 1] = Done (sup_cleanup [CBuf [5]] (Mapped [9]), [69, 0, 1])"
    by (simp add: Server_Supervise_def Let_def)
  with Server_Supervise_bad_free [OF this] show ?thesis by simp
qed

end
