(* ===== verification/Send_Supervise.thy ===== *)
theory Send_Supervise
  imports Sending_Flow
begin

section \<open>The sender's supervisor (util/sending_flow.h)\<close>

text \<open>
  \<open>SendingFlow::Supervise\<close> listens on port 10050 for the receiver's report: an end mark, on which the
  time is taken, and a validation text, on which it returns. The events come from \<open>epoll_wait\<close>; what
  the peers have sent and the supervisor has not read is a map from connections to bytes.
\<close>

subsection \<open>Looking at a report\<close>

text \<open>\<open>string_view::find\<close>. The literal \<open>"E\0"\<close> is a C string here, so the pattern is the letter alone.\<close>

fun contains :: "byte list \<Rightarrow> byte list \<Rightarrow> bool" where
  "contains pat [] = (pat = [])"
| "contains pat (b # bs) = (prefix pat (b # bs) \<or> contains pat bs)"

definition end_mark :: "byte list" where
  "end_mark = [69]"

definition strings2 :: "byte list" where
  "strings2 = [115, 116, 114, 105, 110, 103, 115, 50, 58]"

text \<open>What is read is looked at on its own: whether the time was taken, and then an exception of
  \<open>substr\<close>, the text found, or nothing.\<close>

definition look_at :: "byte list \<Rightarrow> bool \<times> (c_error + byte list option)" where
  "look_at res =
     (if contains end_mark res
      then (True, if length res < 2 then Inl Out_of_range
                  else Inr (if contains strings2 (drop 2 res) then Some (drop 2 res) else None))
      else (False, Inr (if contains strings2 res then Some res else None)))"

subsection \<open>The event loop\<close>

text \<open>An event on the listening socket, with what \<open>accept\<close> returns and whether the new connection could
  be added to the epoll instance; an event on a connection, with the results of the reads; or one
  that is not \<open>EPOLLIN\<close>.\<close>

datatype sup_event = EvAccept "(int \<times> bool) list" | EvRead int "nat sys list" | EvOther

datatype wait_result = WaitErr | WaitOk "sup_event list"

text \<open>Where the supervisor is: in its loop, with the unread bytes and how often the time was taken;
  returned, with the text it logged; left by an exception; or in a read loop that has not ended.\<close>

datatype ss_result =
    SSLoop "int \<Rightarrow> byte list" nat
  | SSReturn int "byte list option" nat
  | SSThrow c_error
  | SSReading

definition kSupvervisorInfoBuffSize :: nat where
  "kSupvervisorInfoBuffSize = 512"

definition ss_event :: "sup_event \<Rightarrow> (int \<Rightarrow> byte list) \<Rightarrow> nat \<Rightarrow> ss_result" where
  "ss_event ev pend t =
     (case ev of
        EvAccept cs \<Rightarrow>
          (if list_all snd (takeWhile (\<lambda>c. 0 < fst c) cs) then SSLoop pend t else SSReturn (-1) None t)
      | EvOther \<Rightarrow> SSLoop pend t
      | EvRead conn_fd rs \<Rightarrow>
          (case read_loop kSupvervisorInfoBuffSize (pend conn_fd) [] rs of
             ReadMore \<Rightarrow> SSReading
           | ReadError _ \<Rightarrow> SSReturn (-1) None t
           | ReadDone bs rest _ \<Rightarrow>
               (if bs = [] then SSReturn (-1) None t
                else
                  (case look_at bs of (timed, r) \<Rightarrow>
                     let t' = (if timed then Suc t else t)
                     in case r of
                          Inl e \<Rightarrow> SSThrow e
                        | Inr (Some text) \<Rightarrow> SSReturn 0 (Some text) t'
                        | Inr None \<Rightarrow> SSLoop (pend(conn_fd := rest)) t'))))"

fun ss_events :: "sup_event list \<Rightarrow> (int \<Rightarrow> byte list) \<Rightarrow> nat \<Rightarrow> ss_result" where
  "ss_events [] pend t = SSLoop pend t"
| "ss_events (ev # evs) pend t =
     (case ss_event ev pend t of SSLoop pend' t' \<Rightarrow> ss_events evs pend' t' | r \<Rightarrow> r)"

fun ss_loop :: "wait_result list \<Rightarrow> (int \<Rightarrow> byte list) \<Rightarrow> nat \<Rightarrow> ss_result" where
  "ss_loop [] pend t = SSLoop pend t"
| "ss_loop (WaitErr # ws) pend t = SSReturn (-1) None t"
| "ss_loop (WaitOk evs # ws) pend t =
     (case ss_events evs pend t of SSLoop pend' t' \<Rightarrow> ss_loop ws pend' t' | r \<Rightarrow> r)"

definition SendingFlow_Supervise :: "wait_result list \<Rightarrow> (int \<Rightarrow> byte list) \<Rightarrow> ss_result" where
  "SendingFlow_Supervise ws pend = ss_loop ws pend 0"

subsection \<open>Lemmas\<close>

lemma look_at_report:
  assumes "contains strings2 text"
  shows "look_at ([69, 0] @ text) = (True, Inr (Some text))"
  using assms by (simp add: look_at_def end_mark_def)

lemma contains_single: "contains [b] bs \<longleftrightarrow> b \<in> set bs"
  by (induction bs) auto

lemma ss_event_pieces:
  assumes "pend fd = bs" and "bs \<noteq> []" and "length bs \<le> 512" and "list_all ((<) 0) ks" and "length bs \<le> sum_list ks"
  shows "ss_event (EvRead fd (map Ok ks @ [Err EAGAIN])) pend t =
    (case look_at bs of (timed, r) \<Rightarrow>
       case r of
         Inl e \<Rightarrow> SSThrow e
       | Inr (Some text) \<Rightarrow> SSReturn 0 (Some text) (if timed then Suc t else t)
       | Inr None \<Rightarrow> SSLoop (pend(fd := [])) (if timed then Suc t else t))"
proof -
  obtain rs' where "read_loop 512 bs [] (map Ok ks @ [Err EAGAIN]) = ReadDone bs [] rs'"
    using read_loop_pieces [OF assms(4,5), of "[]" 512] assms(3) by auto
  then show ?thesis
    using assms(1,2) by (simp add: ss_event_def kSupvervisorInfoBuffSize_def Let_def)
qed

lemma ss_event_part:
  assumes "pend fd = a @ rest" and "a \<noteq> []" and "length a \<le> 512"
  shows "ss_event (EvRead fd [Ok (length a), Err EAGAIN]) pend t =
    (case look_at a of (timed, r) \<Rightarrow>
       case r of
         Inl e \<Rightarrow> SSThrow e
       | Inr (Some text) \<Rightarrow> SSReturn 0 (Some text) (if timed then Suc t else t)
       | Inr None \<Rightarrow> SSLoop (pend(fd := rest)) (if timed then Suc t else t))"
proof -
  obtain rs' where "read_loop 512 (a @ rest) [] [Ok (length a), Err EAGAIN] = ReadDone a rest rs'"
    using assms(2,3) by (cases "length a < 512") (auto simp: Let_def IsSocketError_def)
  then show ?thesis
    using assms(1,2) by (simp add: ss_event_def kSupvervisorInfoBuffSize_def Let_def del: read_loop.simps)
qed

text \<open>Events by which a report of up to \<open>n\<close> bytes on connection \<open>fd\<close> gets to the supervisor in one batch:
  no wait and no \<open>epoll_ctl\<close> fails, and the first event on a connection is one on \<open>fd\<close> at which the reads,
  of any sizes, bring all of it.\<close>

fun whole_read :: "nat \<Rightarrow> nat sys list \<Rightarrow> bool" where
  "whole_read n [] = False"
| "whole_read n (Ok k # rs) \<longleftrightarrow> 0 < k \<and> whole_read (n - k) rs"
| "whole_read n (Err e # rs) \<longleftrightarrow> e = EAGAIN \<and> n = 0 \<and> rs = []"

fun quiet_event :: "sup_event \<Rightarrow> bool" where
  "quiet_event (EvAccept cs) \<longleftrightarrow> list_all snd (takeWhile (\<lambda>c. 0 < fst c) cs)"
| "quiet_event (EvRead fd rs) \<longleftrightarrow> False"
| "quiet_event EvOther \<longleftrightarrow> True"

fun brings :: "nat \<Rightarrow> int \<Rightarrow> sup_event list \<Rightarrow> bool" where
  "brings n fd [] = False"
| "brings n fd (EvRead c rs # evs) \<longleftrightarrow> c = fd \<and> whole_read n rs"
| "brings n fd (ev # evs) \<longleftrightarrow> quiet_event ev \<and> brings n fd evs"

fun one_batch :: "nat \<Rightarrow> int \<Rightarrow> wait_result list \<Rightarrow> bool" where
  "one_batch n fd [] = False"
| "one_batch n fd (WaitErr # ws) = False"
| "one_batch n fd (WaitOk evs # ws) \<longleftrightarrow> brings n fd evs \<or> list_all quiet_event evs \<and> one_batch n fd ws"

lemma whole_read_pieces: "whole_read n rs \<Longrightarrow> \<exists>ks. rs = map Ok ks @ [Err EAGAIN] \<and> list_all ((<) 0) ks \<and> n \<le> sum_list ks"
proof (induction n rs rule: whole_read.induct)
  case (2 n k rs)
  then obtain ks where "rs = map Ok ks @ [Err EAGAIN]" "list_all ((<) 0) ks" "n - k \<le> sum_list ks" "0 < k" by auto
  then show ?case by (intro exI [of _ "k # ks"]) auto
qed auto

lemma whole_read_map: "list_all ((<) 0) ks \<Longrightarrow> n \<le> sum_list ks \<Longrightarrow> whole_read n (map Ok ks @ [Err EAGAIN])"
  by (induction ks arbitrary: n) (simp_all add: diff_le_mono le_diff_conv)

lemma quiet_event_loop: "quiet_event ev \<Longrightarrow> ss_event ev pend t = SSLoop pend t"
  by (cases ev) (simp_all add: ss_event_def)

lemma quiet_events_loop: "list_all quiet_event evs \<Longrightarrow> ss_events evs pend t = SSLoop pend t"
  by (induction evs) (simp_all add: quiet_event_loop)

text \<open>A report that gets to the supervisor in one batch is found.\<close>

lemma report_event:
  assumes "contains strings2 msg" and "length msg \<le> 510" and "pend fd = [69, 0] @ msg"
    and "whole_read n rs" and "length msg + 2 \<le> n"
  shows "ss_event (EvRead fd rs) pend t = SSReturn 0 (Some msg) (Suc t)"
proof -
  obtain ks where "rs = map Ok ks @ [Err EAGAIN]" "list_all ((<) 0) ks" "length msg + 2 \<le> sum_list ks"
    using whole_read_pieces [OF assms(4)] assms(5) that by fastforce
  then show ?thesis
    using ss_event_pieces [where pend = pend and fd = fd and ks = ks and t = t, OF assms(3)] assms(2) look_at_report [OF assms(1)] by simp
qed

lemma brings_found:
  assumes "contains strings2 msg" and "length msg \<le> 510" and "pend fd = [69, 0] @ msg" and "length msg + 2 \<le> n"
  shows "brings n fd evs \<Longrightarrow> ss_events evs pend t = SSReturn 0 (Some msg) (Suc t)"
proof (induction evs)
  case (Cons ev evs)
  show ?case
  proof (cases "\<exists>c rs. ev = EvRead c rs")
    case True
    with Cons.prems obtain rs where "ev = EvRead fd rs" "whole_read n rs" by auto
    then show ?thesis using report_event [where pend = pend and fd = fd, OF assms(1-3) _ assms(4)] by simp
  next
    case False
    then have "quiet_event ev" "brings n fd evs" using Cons.prems by (cases ev; simp)+
    then show ?thesis using Cons.IH by (simp add: quiet_event_loop)
  qed
qed simp

lemma one_batch_found:
  assumes "contains strings2 msg" and "length msg \<le> 510" and "pend fd = [69, 0] @ msg" and "length msg + 2 \<le> n" and "one_batch n fd ws"
  shows "SendingFlow_Supervise ws pend = SSReturn 0 (Some msg) 1"
proof -
  have "ss_loop ws pend t = SSReturn 0 (Some msg) (Suc t)" for t
    using assms(5)
  proof (induction ws)
    case (Cons w ws)
    then obtain evs where w: "w = WaitOk evs" by (cases w) auto
    then consider "brings n fd evs" | "list_all quiet_event evs" "one_batch n fd ws" using Cons.prems by auto
    then show ?case
    proof cases
      case 1
      then show ?thesis using brings_found [where pend = pend and fd = fd, OF assms(1-4)] w by simp
    next
      case 2
      then show ?thesis using Cons.IH w by (simp add: quiet_events_loop)
    qed
  qed simp
  then show ?thesis by (simp add: SendingFlow_Supervise_def)
qed

text \<open>The simplest such events.\<close>

lemma one_batch_simple:
  "list_all ((<) 0) ks \<Longrightarrow> n \<le> sum_list ks \<Longrightarrow>
    one_batch n fd [WaitOk [EvAccept [(fd, True), (-1, True)]], WaitOk [EvRead fd (map Ok ks @ [Err EAGAIN])]]"
  by (simp add: whole_read_map)

lemma report_found:
  assumes "contains strings2 msg" and "length msg \<le> 510" and "pend fd = [69, 0] @ msg"
    and "list_all ((<) 0) ks" and "length msg + 2 \<le> sum_list ks"
  shows "SendingFlow_Supervise [WaitOk [EvAccept [(fd, True), (-1, True)]], WaitOk [EvRead fd (map Ok ks @ [Err EAGAIN])]] pend
    = SSReturn 0 (Some msg) 1"
  by (rule one_batch_found [where pend = pend and fd = fd, OF assms(1-3) order_refl one_batch_simple [OF assms(4,5)]])

subsection \<open>Properties\<close>

text \<open>The report arrives: when the end mark and the validation text come in one batch, in whatever
  pieces, the supervisor takes the time once, finds the text and returns 0.\<close>

theorem SendingFlow_Supervise_returns:
  assumes "contains strings2 text" and "length text \<le> 510" and "pend fd = [69, 0] @ text"
    and "list_all ((<) 0) ks" and "length text + 2 \<le> sum_list ks"
  shows "SendingFlow_Supervise [WaitOk [EvAccept [(fd, True), (-1, True)]], WaitOk [EvRead fd (map Ok ks @ [Err EAGAIN])]] pend
    = SSReturn 0 (Some text) 1"
  using assms by (rule report_found)

theorem SendingFlow_Supervise_returns_witness:
  "SendingFlow_Supervise [WaitOk [EvAccept [(5, True), (-1, True)]], WaitOk [EvRead 5 (map Ok [1, 20] @ [Err EAGAIN])]]
      ((\<lambda>_. [])(5 := [69, 0] @ strings2)) = SSReturn 0 (Some strings2) 1"
  by (rule SendingFlow_Supervise_returns) (simp_all add: strings2_def)

text \<open>An end mark that comes alone, without its zero byte, ends the supervisor with an exception.\<close>

theorem SendingFlow_Supervise_torn_mark:
  assumes "pend fd = 69 # rest"
  shows "SendingFlow_Supervise (WaitOk (EvRead fd [Ok 1, Err EAGAIN] # evs) # ws) pend = SSThrow Out_of_range"
  using ss_event_part [of pend fd "[69]" rest 0] assms
  by (simp add: SendingFlow_Supervise_def look_at_def end_mark_def)

theorem SendingFlow_Supervise_torn_mark_witness:
  "SendingFlow_Supervise (WaitOk (EvRead 5 [Ok 1, Err EAGAIN] # []) # []) ((\<lambda>_. [])(5 := 69 # 0 # strings2))
    = SSThrow Out_of_range"
  by (rule SendingFlow_Supervise_torn_mark) simp

text \<open>A validation text that comes in two rounds can be missed: when neither part has the keyword
  in it, the supervisor goes on waiting, although all of the report has been read.\<close>

theorem SendingFlow_Supervise_split_text:
  assumes "pend fd = a @ b" and "a \<noteq> []" and "b \<noteq> []" and "length a \<le> 512" and "length b \<le> 512"
    and "69 \<notin> set (a @ b)" and "\<not> contains strings2 a" and "\<not> contains strings2 b"
  shows "SendingFlow_Supervise
      [WaitOk [EvRead fd [Ok (length a), Err EAGAIN]], WaitOk [EvRead fd [Ok (length b), Err EAGAIN]]] pend
    = SSLoop (pend(fd := [])) 0"
proof -
  have la: "look_at a = (False, Inr None)" and lb: "look_at b = (False, Inr None)"
    using assms(6-8) by (simp_all add: look_at_def end_mark_def contains_single)
  have "ss_event (EvRead fd [Ok (length a), Err EAGAIN]) pend 0 = SSLoop (pend(fd := b)) 0"
    using ss_event_part [of pend fd a b 0] assms(1,2,4) la by simp
  moreover have "ss_event (EvRead fd [Ok (length b), Err EAGAIN]) (pend(fd := b)) 0 = SSLoop (pend(fd := [])) 0"
    using ss_event_part [of "pend(fd := b)" fd b "[]" 0] assms(3,5) lb by simp
  ultimately show ?thesis by (simp add: SendingFlow_Supervise_def)
qed

theorem SendingFlow_Supervise_split_text_witness:
  "contains strings2 ([115, 116, 114, 105] @ [110, 103, 115, 50, 58]) \<and>
   SendingFlow_Supervise [WaitOk [EvRead 5 [Ok (length [115, 116, 114, 105 :: byte]), Err EAGAIN]],
      WaitOk [EvRead 5 [Ok (length [110, 103, 115, 50, 58 :: byte]), Err EAGAIN]]]
      ((\<lambda>_. [])(5 := [115, 116, 114, 105] @ [110, 103, 115, 50, 58]))
    = SSLoop (((\<lambda>_. [])(5 := [115, 116, 114, 105] @ [110, 103, 115, 50, 58]))(5 := [])) 0"
  by (rule conjI, simp add: strings2_def, rule SendingFlow_Supervise_split_text) (simp_all add: strings2_def)

end
