(* ===== verification/Random_Util.thy ===== *)
theory Random_Util
  imports Prelude
begin

section \<open>Random test data (util/RandomUtil.h)\<close>

text \<open>
  The generator of test files draws from \<open>std::random_device\<close>. Every call makes a new engine and
  distribution, so a draw is a number of its own: the draws are a parameter, and what the
  distributions promise, a value between their bounds, is a hypothesis where it matters.
\<close>

definition base_string :: "byte list" where
  "base_string = map of_nat ([97..<123] @ [48..<58])"

text \<open>The private overload: \<open>draw i\<close> is the result of the \<open>i\<close>-th call of the distribution. \<open>reserve\<close> of
  a negative length throws.\<close>

definition randomString_from :: "(nat \<Rightarrow> nat) \<Rightarrow> byte list \<Rightarrow> int \<Rightarrow> c_error + byte list" where
  "randomString_from draw baseString len =
     (if baseString = [] then Inr []
      else if len < 0 then Inl Length_error
      else Inr (map (\<lambda>i. baseString ! draw i) [0..<nat len]))"

definition randomString :: "(nat \<Rightarrow> nat) \<Rightarrow> int \<Rightarrow> c_error + byte list" where
  "randomString draw len = randomString_from draw base_string len"

text \<open>\<open>randomInt\<close> and \<open>randomDouble\<close> return what their distribution returns.\<close>

definition randomInt :: "(int \<Rightarrow> int \<Rightarrow> int) \<Rightarrow> int \<Rightarrow> int \<Rightarrow> int" where
  "randomInt uniform lo hi = uniform lo hi"

definition randomDouble :: "(int \<Rightarrow> int \<Rightarrow> 'x) \<Rightarrow> int \<Rightarrow> int \<Rightarrow> 'x" where
  "randomDouble uniform lo hi = uniform lo hi"

lemma length_base_string: "length base_string = 36"
  by (simp add: base_string_def)

lemma randomString_text:
  assumes "0 \<le> len" and "\<And>i. draw i < 36"
  obtains t where "randomString draw len = Inr t" and "length t = nat len" and "set t \<subseteq> set base_string"
proof
  have "base_string \<noteq> []" using length_base_string by auto
  then show "randomString draw len = Inr (map (\<lambda>i. base_string ! draw i) [0..<nat len])"
    using assms(1) by (simp add: randomString_def randomString_from_def)
  show "set (map (\<lambda>i. base_string ! draw i) [0..<nat len]) \<subseteq> set base_string"
    using assms(2) by (auto simp: length_base_string intro: nth_mem)
qed simp

end
