(* ===== verification/Doubles.thy ===== *)
theory Doubles
  imports Complex_Main Decimal
begin

section \<open>Double precision numbers\<close>

text \<open>
  The validation computes averages in \<open>double\<close> and prints them with four decimals. A finite double is
  a sign, a significand of at most 53 bits and an exponent; the operations compute the exact
  result as a fraction of naturals and round it to nearest, ties to even, as IEEE 754 has it.
  What is printed is again the exact value, rounded to four decimals. All of it is executable; the
  real value of a double, \<open>dval\<close>, only serves the theorems.
\<close>

datatype double = Fin bool nat int | Inf bool | NaN

definition dbl_zero :: double where
  "dbl_zero = Fin False 0 (-1074)"

definition dval :: "double \<Rightarrow> real" where
  "dval d = (case d of Fin s m e \<Rightarrow> (if s then -1 else 1) * (real m * 2 powi e) | _ \<Rightarrow> 0)"

text \<open>The well-formed values: normalised, or with the smallest exponent.\<close>

definition dbl_wf :: "double \<Rightarrow> bool" where
  "dbl_wf d = (case d of
     Fin s m e \<Rightarrow> m < 2 ^ 53 \<and> -1074 \<le> e \<and> e \<le> 971 \<and> (2 ^ 52 \<le> m \<or> e = -1074)
   | _ \<Rightarrow> True)"

subsection \<open>Rounding\<close>

fun bitlen :: "nat \<Rightarrow> nat" where
  "bitlen n = (if n = 0 then 0 else Suc (bitlen (n div 2)))"

declare bitlen.simps [simp del]

text \<open>\<open>p / q \<ge> 2 ^ k\<close>\<close>

definition frac_ge :: "nat \<Rightarrow> nat \<Rightarrow> int \<Rightarrow> bool" where
  "frac_ge p q k = (if 0 \<le> k then q * 2 ^ nat k \<le> p else q \<le> p * 2 ^ nat (- k))"

definition log_frac :: "nat \<Rightarrow> nat \<Rightarrow> int" where
  "log_frac p q = (let k = int (bitlen p) - int (bitlen q) in if frac_ge p q k then k else k - 1)"

text \<open>Numerator and denominator of \<open>(p / q) / 2 ^ e\<close>.\<close>

definition scale_num :: "nat \<Rightarrow> int \<Rightarrow> nat" where
  "scale_num p e = (if 0 \<le> e then p else p * 2 ^ nat (- e))"

definition scale_den :: "nat \<Rightarrow> int \<Rightarrow> nat" where
  "scale_den q e = (if 0 \<le> e then q * 2 ^ nat e else q)"

definition round_half_even :: "nat \<Rightarrow> nat \<Rightarrow> nat" where
  "round_half_even n d =
     (let f = n div d; r = n mod d
      in if 2 * r < d \<or> (2 * r = d \<and> even f) then f else Suc f)"

definition round_exp :: "nat \<Rightarrow> nat \<Rightarrow> int" where
  "round_exp p q = max (-1074) (log_frac p q - 52)"

definition round_sig :: "nat \<Rightarrow> nat \<Rightarrow> nat" where
  "round_sig p q = round_half_even (scale_num p (round_exp p q)) (scale_den q (round_exp p q))"

definition dbl_round :: "bool \<Rightarrow> nat \<Rightarrow> nat \<Rightarrow> double" where
  "dbl_round s p q =
     (if p = 0 then Fin s 0 (-1074)
      else
        (let e = round_exp p q; m = round_sig p q;
             (m', e') = (if m = 2 ^ 53 then (2 ^ 52, e + 1) else (m, e))
         in if e' > 971 then Inf s else Fin s m' e'))"

subsection \<open>Arithmetic\<close>

definition dbl_of_int :: "int \<Rightarrow> double" where
  "dbl_of_int i = dbl_round (i < 0) (nat \<bar>i\<bar>) 1"

definition with_sign :: "bool \<Rightarrow> nat \<Rightarrow> int" where
  "with_sign s n = (if s then - int n else int n)"

fun dbl_add :: "double \<Rightarrow> double \<Rightarrow> double" where
  "dbl_add (Fin s m e) (Fin s' m' e') =
     (let c = min e e';
          v = with_sign s (m * 2 ^ nat (e - c)) + with_sign s' (m' * 2 ^ nat (e' - c))
      in if v = 0 then Fin (s \<and> s') 0 (-1074)
         else dbl_round (v < 0) (scale_num (nat \<bar>v\<bar>) (- c)) (scale_den 1 (- c)))"
| "dbl_add (Inf s) (Inf s') = (if s = s' then Inf s else NaN)"
| "dbl_add (Inf s) (Fin _ _ _) = Inf s"
| "dbl_add (Fin _ _ _) (Inf s) = Inf s"
| "dbl_add _ _ = NaN"

fun dbl_div :: "double \<Rightarrow> double \<Rightarrow> double" where
  "dbl_div (Fin s m e) (Fin s' m' e') =
     (if m' = 0 then (if m = 0 then NaN else Inf (s \<noteq> s'))
      else dbl_round (s \<noteq> s') (scale_num m (e' - e)) (scale_den m' (e' - e)))"
| "dbl_div (Inf s) (Fin s' _ _) = Inf (s \<noteq> s')"
| "dbl_div (Fin s _ _) (Inf s') = Fin (s \<noteq> s') 0 (-1074)"
| "dbl_div _ _ = NaN"

subsection \<open>Printing with \<open>%.4f\<close>\<close>

definition pad4 :: "nat \<Rightarrow> byte list" where
  "pad4 n = map (\<lambda>k. of_nat (48 + n div k mod 10)) [1000, 100, 10, 1]"

text \<open>The exact value in units of 0.0001, rounded.\<close>

definition dec4 :: "nat \<Rightarrow> int \<Rightarrow> nat" where
  "dec4 m e = round_half_even (10000 * scale_num m (- e)) (scale_den 1 (- e))"

text \<open>How a NaN is printed depends on its sign bit, which the model does not keep: \<open>nan_text\<close>.\<close>

definition fmt4 :: "byte list \<Rightarrow> double \<Rightarrow> byte list" where
  "fmt4 nan_text d = (case d of
     Fin s m e \<Rightarrow> (if s then [45] else []) @ print_nat (dec4 m e div 10000) @ [46] @ pad4 (dec4 m e mod 10000)
   | Inf s \<Rightarrow> (if s then [45] else []) @ [105, 110, 102]
   | NaN \<Rightarrow> nan_text)"

subsection \<open>Rounding is to nearest\<close>

lemma two_powi_pos [simp]: "0 < (2 :: real) powi k"
  by (rule zero_less_power_int) simp

lemma powi_nat: "0 \<le> k \<Longrightarrow> (2 :: real) powi k = 2 ^ nat k"
  by (simp add: power_int_def)

lemma powi_neg: "k < 0 \<Longrightarrow> (2 :: real) powi k = 1 / 2 ^ nat (- k)"
  by (simp add: power_int_def power_one_over inverse_eq_divide)

lemma powi_le_iff: "(2 :: real) powi a \<le> 2 powi b \<longleftrightarrow> a \<le> b"
  using power_int_strict_increasing [of b a "2 :: real"] power_int_increasing [of a b "2 :: real"]
  by (metis linorder_not_le one_less_numeral_iff one_le_numeral semiring_norm(76))

lemma powi_quot: "2 powi a / 2 powi b = (2 :: real) powi (a - b)"
  by (simp add: power_int_diff)

lemma bitlen_bounds: "0 < n \<Longrightarrow> 2 ^ (bitlen n - 1) \<le> n \<and> n < 2 ^ bitlen n \<and> 0 < bitlen n"
proof (induction n rule: bitlen.induct)
  case (1 n)
  show ?case
  proof (cases "n div 2 = 0")
    case True
    then have "n = 1" using 1(2) by linarith
    then show ?thesis by (simp add: bitlen.simps)
  next
    case False
    then have b: "2 ^ (bitlen (n div 2) - 1) \<le> n div 2" "n div 2 < 2 ^ bitlen (n div 2)" "0 < bitlen (n div 2)"
      using 1 by auto
    have len: "bitlen n = Suc (bitlen (n div 2))" using 1(2) by (subst bitlen.simps) simp
    have "2 ^ bitlen (n div 2) = 2 * (2 :: nat) ^ (bitlen (n div 2) - 1)"
      using b(3) by (metis One_nat_def Suc_pred power_Suc)
    then have "2 ^ bitlen (n div 2) \<le> n" and "n < 2 * 2 ^ bitlen (n div 2)" using b by linarith+
    then show ?thesis by (simp add: len)
  qed
qed

lemma frac_ge_iff:
  assumes "0 < q"
  shows "frac_ge p q k \<longleftrightarrow> 2 powi k \<le> real p / real q"
proof (cases "0 \<le> k")
  case True
  have "q * 2 ^ nat k \<le> p \<longleftrightarrow> real (q * 2 ^ nat k) \<le> real p" by (simp only: of_nat_le_iff)
  then show ?thesis using True assms by (simp add: frac_ge_def powi_nat pos_le_divide_eq mult.commute)
next
  case False
  have "q \<le> p * 2 ^ nat (- k) \<longleftrightarrow> real q \<le> real (p * 2 ^ nat (- k))" by (simp only: of_nat_le_iff)
  then show ?thesis using False assms
    by (simp add: frac_ge_def powi_neg pos_le_divide_eq pos_divide_le_eq mult.commute)
qed

lemma log_frac_bounds:
  assumes "0 < p" and "0 < q"
  shows "2 powi log_frac p q \<le> real p / real q" and "real p / real q < 2 powi (log_frac p q + 1)"
proof -
  let ?a = "bitlen p" and ?b = "bitlen q"
  have p: "2 ^ (?a - 1) \<le> p" "p < 2 ^ ?a" "0 < ?a" and q: "2 ^ (?b - 1) \<le> q" "q < 2 ^ ?b" "0 < ?b"
    using bitlen_bounds assms by auto
  define k where "k = int ?a - int ?b"
  have pr: "2 ^ (?a - 1) \<le> real p" "real p < 2 ^ ?a" using p by (metis of_nat_le_iff of_nat_less_iff of_nat_numeral of_nat_power)+
  have qr: "2 ^ (?b - 1) \<le> real q" "real q < 2 ^ ?b" using q by (metis of_nat_le_iff of_nat_less_iff of_nat_numeral of_nat_power)+
  have pw: "(2 :: real) ^ n = 2 powi int n" for n by (simp add: powi_nat)
  have "real p / real q < 2 ^ ?a / 2 ^ (?b - 1)"
    using pr(2) qr(1) by (intro frac_less) simp_all
  also have "\<dots> = 2 powi (k + 1)"
    unfolding pw powi_quot using q(3) by (simp add: of_nat_diff k_def algebra_simps)
  finally have up: "real p / real q < 2 powi (k + 1)" .
  have "2 powi (k - 1) = (2 :: real) ^ (?a - 1) / 2 ^ ?b"
    unfolding pw powi_quot using p(3) by (simp add: of_nat_diff k_def algebra_simps)
  also have "\<dots> \<le> real p / real q"
    using pr(1) qr(2) assms(2) by (intro frac_le) simp_all
  finally have lo: "2 powi (k - 1) \<le> real p / real q" .
  show "2 powi log_frac p q \<le> real p / real q"
    using lo frac_ge_iff [OF assms(2), of p k] by (simp add: log_frac_def Let_def flip: k_def)
  show "real p / real q < 2 powi (log_frac p q + 1)"
    using up frac_ge_iff [OF assms(2), of p k] by (simp add: log_frac_def Let_def flip: k_def)
qed

lemma scale_frac:
  assumes "0 < q"
  shows "real (scale_num p e) / real (scale_den q e) = real p / real q / 2 powi e" and "0 < scale_den q e"
  using assms by (auto simp: scale_num_def scale_den_def powi_nat powi_neg)

lemma round_half_even_near:
  assumes "0 < d"
  shows "\<bar>real (round_half_even n d) - real n / real d\<bar> \<le> 1 / 2"
proof -
  define f r where "f = n div d" and "r = n mod d"
  have n: "real n = real f * real d + real r" and r: "r < d"
    using assms by (simp_all add: f_def r_def flip: of_nat_mult of_nat_add)
  have eq: "real n / real d = real f + real r / real d" using n assms by (simp add: add_divide_distrib)
  have "2 * r \<le> d \<Longrightarrow> real r / real d \<le> 1 / 2" and "d \<le> 2 * r \<Longrightarrow> 1 / 2 \<le> real r / real d"
    using assms by (simp_all add: pos_divide_le_eq pos_le_divide_eq)
  moreover have "0 \<le> real r / real d" "real r / real d \<le> 1" using r assms by simp_all
  ultimately show ?thesis
    unfolding eq round_half_even_def Let_def f_def [symmetric] r_def [symmetric]
    by (cases "2 * r < d"; cases "2 * r = d") (auto simp: abs_le_iff)
qed

lemma round_half_even_le:
  assumes "0 < d" and "real n / real d \<le> real b"
  shows "round_half_even n d \<le> b"
proof -
  have "real n \<le> real (b * d)" using assms by (simp add: pos_divide_le_eq)
  then have "n \<le> b * d" by (simp only: of_nat_le_iff)
  then have "n div d \<le> b" and "n div d = b \<Longrightarrow> n mod d = 0"
    using assms(1) by (metis div_le_mono div_mult_self_is_m, metis add_le_cancel_left add.right_neutral div_mult_mod_eq le_zero_eq)
  then show ?thesis using assms(1)
    by (cases "n div d = b") (simp_all add: round_half_even_def Let_def)
qed

lemma round_half_even_ge:
  assumes "0 < d" and "real b \<le> real n / real d"
  shows "b \<le> round_half_even n d"
proof -
  have "real (b * d) \<le> real n" using assms by (simp add: pos_le_divide_eq)
  then have "b * d \<le> n" by (simp only: of_nat_le_iff)
  then have "b \<le> n div d" using assms(1) by (simp add: less_eq_div_iff_mult_less_eq)
  then show ?thesis by (auto simp: round_half_even_def Let_def)
qed

text \<open>The significand and the exponent before overflow is looked at.\<close>

lemma round_sig_frac:
  assumes "0 < q"
  shows "real (scale_num p (round_exp p q)) / real (scale_den q (round_exp p q)) = real p / real q / 2 powi round_exp p q"
    and "0 < scale_den q (round_exp p q)"
  using scale_frac [OF assms] by simp_all

lemma round_sig_near:
  assumes "0 < q"
  shows "\<bar>real (round_sig p q) * 2 powi round_exp p q - real p / real q\<bar> \<le> 2 powi round_exp p q / 2"
proof -
  let ?e = "round_exp p q"
  have "\<bar>real (round_sig p q) - real p / real q / 2 powi ?e\<bar> \<le> 1 / 2"
    using round_half_even_near [OF round_sig_frac(2) [OF assms, of p], of "scale_num p ?e"]
    unfolding round_sig_frac(1) [OF assms] round_sig_def .
  then have "\<bar>real (round_sig p q) - real p / real q / 2 powi ?e\<bar> * 2 powi ?e \<le> 1 / 2 * 2 powi ?e"
    by (rule mult_right_mono) simp
  moreover have "\<bar>real (round_sig p q) - real p / real q / 2 powi ?e\<bar> * 2 powi ?e
      = \<bar>(real (round_sig p q) - real p / real q / 2 powi ?e) * 2 powi ?e\<bar>"
    by (simp add: abs_mult)
  moreover have "(real (round_sig p q) - real p / real q / 2 powi ?e) * 2 powi ?e
      = real (round_sig p q) * 2 powi ?e - real p / real q"
    by (simp add: left_diff_distrib)
  ultimately show ?thesis by linarith
qed

lemma powi_nat_le_cast: "0 \<le> k \<Longrightarrow> real (2 ^ nat k) = 2 powi k"
  by (simp add: powi_nat)

text \<open>Rounding does not pass a power of two.\<close>

lemma round_sig_le:
  assumes "0 < q" and "real p / real q \<le> 2 powi k" and "round_exp p q \<le> k"
  shows "round_sig p q \<le> 2 ^ nat (k - round_exp p q)"
proof -
  have "real p / real q / 2 powi round_exp p q \<le> 2 powi k / 2 powi round_exp p q"
    using assms(2) by (intro divide_right_mono) simp_all
  then show ?thesis
    unfolding round_sig_def using assms(3)
    by (intro round_half_even_le [OF round_sig_frac(2) [OF assms(1)]])
      (simp add: round_sig_frac(1) [OF assms(1)] powi_quot powi_nat)
qed

lemma round_sig_ge:
  assumes "0 < q" and "2 powi k \<le> real p / real q" and "round_exp p q \<le> k"
  shows "2 ^ nat (k - round_exp p q) \<le> round_sig p q"
proof -
  have "2 powi k / 2 powi round_exp p q \<le> real p / real q / 2 powi round_exp p q"
    using assms(2) by (intro divide_right_mono) simp_all
  then show ?thesis
    unfolding round_sig_def using assms(3)
    by (intro round_half_even_ge [OF round_sig_frac(2) [OF assms(1)]])
      (simp add: round_sig_frac(1) [OF assms(1)] powi_quot powi_nat)
qed

lemma round_sig_53:
  assumes "0 < p" and "0 < q"
  shows "round_sig p q \<le> 2 ^ 53" and "-1074 < round_exp p q \<Longrightarrow> 2 ^ 52 \<le> round_sig p q"
proof -
  let ?e = "round_exp p q"
  have "log_frac p q + 1 \<le> ?e + 53" by (simp add: round_exp_def)
  then have "2 powi (log_frac p q + 1) \<le> (2 :: real) powi (?e + 53)" by (simp only: powi_le_iff)
  then have "real p / real q \<le> 2 powi (?e + 53)" using log_frac_bounds(2) [OF assms] by linarith
  from round_sig_le [OF assms(2) this] show "round_sig p q \<le> 2 ^ 53" by simp
  assume "-1074 < ?e"
  then have "log_frac p q = ?e + 52" by (simp add: round_exp_def max_def split: if_splits)
  then have "2 powi (?e + 52) \<le> real p / real q" using log_frac_bounds(1) [OF assms] by simp
  from round_sig_ge [OF assms(2) this] show "2 ^ 52 \<le> round_sig p q" by simp
qed

text \<open>The two shapes of the result.\<close>

lemma dbl_round_cases:
  assumes "0 < p" and "0 < q"
  obtains (Inf) "dbl_round s p q = Inf s"
    | (Fin) m e where "dbl_round s p q = Fin s m e" and "real m * 2 powi e = real (round_sig p q) * 2 powi round_exp p q"
        and "m < 2 ^ 53" and "-1074 \<le> e" and "e \<le> 971" and "2 ^ 52 \<le> m \<or> e = -1074"
proof -
  let ?e = "round_exp p q" and ?m = "round_sig p q"
  have e: "-1074 \<le> ?e" by (simp add: round_exp_def)
  consider "?m = 2 ^ 53" | "?m < 2 ^ 53" using round_sig_53(1) [OF assms] by linarith
  then show ?thesis
  proof cases
    case 1
    have "real (2 ^ 52) * 2 powi (?e + 1) = real ?m * 2 powi ?e" by (simp add: 1 power_int_add)
    then show ?thesis using 1 assms(1) e Inf Fin [of "2 ^ 52" "?e + 1"]
      by (cases "?e + 1 > 971") (simp_all add: dbl_round_def Let_def)
  next
    case 2
    have "2 ^ 52 \<le> ?m \<or> ?e = -1074" using round_sig_53(2) [OF assms] e by linarith
    then show ?thesis using 2 assms(1) e Inf Fin [of ?m ?e]
      by (cases "?e > 971") (simp_all add: dbl_round_def Let_def)
  qed
qed

subsection \<open>Operations give well-formed values\<close>

lemma dbl_wf_round: "0 < q \<Longrightarrow> dbl_wf (dbl_round s p q)"
proof (cases "p = 0")
  case True
  then show ?thesis by (simp add: dbl_round_def dbl_wf_def)
next
  case False
  assume q: "0 < q"
  from False have p: "0 < p" by simp
  show ?thesis by (rule dbl_round_cases [OF p q, of s]) (auto simp: dbl_wf_def)
qed

lemma scale_den_pos: "0 < q \<Longrightarrow> 0 < scale_den q e"
  by (simp add: scale_den_def)

lemma dbl_wf_of_int: "dbl_wf (dbl_of_int i)"
  by (simp add: dbl_of_int_def dbl_wf_round)

lemma dbl_wf_add: "dbl_wf (dbl_add a b)"
proof (cases a)
  case (Fin s m e)
  then show ?thesis
    by (cases b) (auto simp: Let_def dbl_wf_round scale_den_pos, simp_all add: dbl_wf_def)
qed (cases b; simp add: dbl_wf_def)+

lemma dbl_wf_div: "dbl_wf (dbl_div a b)"
proof (cases a)
  case (Fin s m e)
  then show ?thesis
    by (cases b) (auto simp: dbl_wf_round scale_den_pos, simp_all add: dbl_wf_def)
qed (cases b; simp add: dbl_wf_def)+

subsection \<open>Size of a result\<close>

lemma log_frac_le:
  assumes "0 < p" "0 < q" "real p / real q \<le> 2 powi k"
  shows "log_frac p q \<le> k"
  using log_frac_bounds(1) [OF assms(1,2)] assms(3) powi_le_iff [of "log_frac p q" k] by linarith

lemma round_value_le:
  assumes "0 < p" "0 < q" "real p / real q \<le> 2 powi k" "-1074 \<le> k"
  shows "real (round_sig p q) * 2 powi round_exp p q \<le> 2 powi k"
proof -
  let ?e = "round_exp p q"
  have ek: "?e \<le> k" using log_frac_le [OF assms(1-3)] assms(4) by (simp add: round_exp_def)
  from round_sig_le [OF assms(2,3) ek] have "real (round_sig p q) \<le> real (2 ^ nat (k - ?e))" by (simp only: of_nat_le_iff)
  also have "\<dots> = 2 powi (k - ?e)" using ek by (simp add: powi_nat)
  finally have "real (round_sig p q) * 2 powi ?e \<le> 2 powi (k - ?e) * 2 powi ?e" by (rule mult_right_mono) simp
  then show ?thesis by (simp flip: power_int_add)
qed

lemma round_value_ge:
  assumes "0 < p" "0 < q" "2 powi k \<le> real p / real q" "-1074 \<le> k"
  shows "2 powi k \<le> real (round_sig p q) * 2 powi round_exp p q"
proof (cases "round_exp p q \<le> k")
  case True
  let ?e = "round_exp p q"
  have "2 powi (k - ?e) = real (2 ^ nat (k - ?e))" using True by (simp add: powi_nat)
  also have "\<dots> \<le> real (round_sig p q)" using round_sig_ge [OF assms(2,3) True] by (simp only: of_nat_le_iff)
  finally have "2 powi (k - ?e) * 2 powi ?e \<le> real (round_sig p q) * 2 powi ?e" by (rule mult_right_mono) simp
  then show ?thesis by (simp flip: power_int_add)
next
  case False
  then have "-1074 < round_exp p q" using assms(4) by simp
  then have "real 1 \<le> real (round_sig p q)" using round_sig_53(2) [OF assms(1,2)] by (simp only: of_nat_le_iff) simp
  then have "1 * 2 powi k \<le> real (round_sig p q) * 2 powi round_exp p q"
    using False powi_le_iff [of k "round_exp p q"] by (intro mult_mono) simp_all
  then show ?thesis by simp
qed

text \<open>Below \<open>2 ^ 1000\<close> nothing overflows.\<close>

lemma dbl_round_fin:
  assumes "0 < p" "0 < q" "real p / real q \<le> 2 powi k" "-1074 \<le> k" "k \<le> 1000"
  obtains m e where "dbl_round s p q = Fin s m e" and "dbl_wf (Fin s m e)"
    and "real m * 2 powi e = real (round_sig p q) * 2 powi round_exp p q" and "real m * 2 powi e \<le> 2 powi k"
proof -
  have "round_exp p q \<le> 948" using log_frac_le [OF assms(1-3)] assms(5) by (simp add: round_exp_def)
  then have "dbl_round s p q \<noteq> Inf s" by (simp add: dbl_round_def Let_def)
  then show ?thesis
    using dbl_wf_round [OF assms(2), of s p] round_value_le [OF assms(1-4)] that
    by (cases rule: dbl_round_cases [OF assms(1,2), of s]) auto
qed

text \<open>A quotient that is a whole number of at most 53 bits is exact.\<close>

lemma round_exact:
  assumes "0 < n" "n < 2 ^ 53" "0 < q"
  obtains m e where "dbl_round s (n * q) q = Fin s m e" and "real m * 2 powi e = real n" and "e \<le> 0"
    and "dbl_wf (Fin s m e)"
proof -
  let ?p = "n * q"
  have fr: "real ?p / real q = real n" and pos: "0 < ?p" using assms by simp_all
  have "real n < 2 ^ 53" using assms(2) by (metis of_nat_less_iff of_nat_numeral of_nat_power)
  then have "2 powi log_frac ?p q < (2 :: real) powi 53"
    using log_frac_bounds(1) [OF pos assms(3)] fr by (simp add: powi_nat)
  then have "\<not> 53 \<le> log_frac ?p q" using powi_le_iff [of 53 "log_frac ?p q"] by linarith
  then have e: "round_exp ?p q \<le> 0" by (simp add: round_exp_def)
  have "real n / 2 powi round_exp ?p q = real (n * 2 ^ nat (- round_exp ?p q))"
    using e by (cases "round_exp ?p q = 0") (simp_all add: powi_neg)
  then have "real ?p / real q / 2 powi round_exp ?p q = real (n * 2 ^ nat (- round_exp ?p q))" using fr by simp
  then have sig: "round_sig ?p q = n * 2 ^ nat (- round_exp ?p q)"
    unfolding round_sig_def using round_sig_frac [OF assms(3), of ?p]
    by (intro order_antisym round_half_even_le round_half_even_ge) simp_all
  have "real n * real (2 ^ nat (- round_exp ?p q)) * 2 powi round_exp ?p q = real n"
    using e by (cases "round_exp ?p q = 0") (simp_all add: powi_neg)
  then have val: "real (round_sig ?p q) * 2 powi round_exp ?p q = real n" by (simp add: sig)
  have "log_frac ?p q + 1 \<le> 53 + round_exp ?p q" by (simp add: round_exp_def)
  then have "real n < 2 powi (53 + round_exp ?p q)"
    using log_frac_bounds(2) [OF pos assms(3)] fr powi_le_iff [of "log_frac ?p q + 1" "53 + round_exp ?p q"] by linarith
  then have "real n < 2 ^ 53 * 2 powi round_exp ?p q" by (simp add: power_int_add powi_nat)
  then have "round_sig ?p q \<noteq> 2 ^ 53" using val by auto
  then have "dbl_round s ?p q = Fin s (round_sig ?p q) (round_exp ?p q)"
    using pos e by (simp add: dbl_round_def Let_def)
  then show ?thesis using that val e dbl_wf_round [OF assms(3), of s ?p] by metis
qed

lemma dbl_of_int_pos:
  assumes "0 < i" "i < 2 ^ 53"
  obtains m e where "dbl_of_int i = Fin False m e" and "real m * 2 powi e = real_of_int i" and "dbl_wf (Fin False m e)"
    and "m \<noteq> 0"
proof -
  have n: "0 < nat i" "nat i < 2 ^ 53" using assms by (simp_all add: nat_less_iff)
  from round_exact [OF n, of 1 False] obtain m e where
    *: "dbl_round False (nat i * 1) 1 = Fin False m e" "real m * 2 powi e = real (nat i)" "dbl_wf (Fin False m e)"
    using zero_less_one by blast
  moreover have "m \<noteq> 0"
  proof
    assume "m = 0"
    then show False using *(2) n(1) by simp
  qed
  ultimately show ?thesis using that assms by (auto simp: dbl_of_int_def)
qed

lemma dbl_of_int_0: "dbl_of_int 0 = dbl_zero"
  by (simp add: dbl_of_int_def dbl_round_def dbl_zero_def)

subsection \<open>Printed texts\<close>

lemma dec4_frac:
  shows "real (10000 * scale_num m (- e)) / real (scale_den 1 (- e)) = 10000 * (real m * 2 powi e)"
    and "0 < scale_den 1 (- e)"
proof -
  have "real (scale_num m (- e)) / real (scale_den 1 (- e)) = real m * 2 powi e"
    using scale_frac(1) [of 1 m "- e"] by (simp add: power_int_minus field_simps)
  then show "real (10000 * scale_num m (- e)) / real (scale_den 1 (- e)) = 10000 * (real m * 2 powi e)"
    by (simp flip: times_divide_eq_right)
qed (simp add: scale_den_pos)

lemma dec4_near: "\<bar>real (dec4 m e) / 10000 - real m * 2 powi e\<bar> \<le> 1 / 20000"
proof -
  have "\<bar>real (dec4 m e) - 10000 * (real m * 2 powi e)\<bar> \<le> 1 / 2"
    using round_half_even_near [OF dec4_frac(2) [of e], of "10000 * scale_num m (- e)"]
    unfolding dec4_frac(1) dec4_def .
  then show ?thesis by (simp add: abs_le_iff field_simps)
qed

lemma dec4_exact:
  assumes "real m * 2 powi e = real n"
  shows "dec4 m e = 10000 * n"
proof -
  have "real (10000 * scale_num m (- e)) / real (scale_den 1 (- e)) = real (10000 * n)"
    unfolding dec4_frac assms by simp
  then show ?thesis
    unfolding dec4_def
    by (intro order_antisym round_half_even_le [OF dec4_frac(2)] round_half_even_ge [OF dec4_frac(2)]) linarith+
qed

lemma dec4_le:
  assumes "real m * 2 powi e \<le> 2 ^ k"
  shows "dec4 m e div 10000 \<le> 2 ^ k"
proof -
  have "dec4 m e \<le> 10000 * 2 ^ k"
    unfolding dec4_def by (rule round_half_even_le [OF dec4_frac(2)]) (simp only: dec4_frac, use assms in simp)
  then have "dec4 m e div 10000 \<le> (10000 * 2 ^ k) div 10000" by (rule div_le_mono)
  then show ?thesis by simp
qed

lemma length_pad4 [simp]: "length (pad4 n) = 4"
  by (simp add: pad4_def)

lemma length_fmt4_fin:
  assumes "real m * 2 powi e \<le> 2 ^ k" and "(2 :: nat) ^ k < 10 ^ j" and "0 < j"
  shows "length (fmt4 nan_text (Fin s m e)) \<le> j + 6"
proof -
  have "dec4 m e div 10000 < 10 ^ j" using dec4_le [OF assms(1)] assms(2) by linarith
  then have "length (print_nat (dec4 m e div 10000)) \<le> j" using assms(3) by (rule length_print_nat_le)
  then show ?thesis by (simp add: fmt4_def)
qed

lemma length_fmt4:
  assumes "dbl_wf d" and "length nan_text \<le> 5"
  shows "length (fmt4 nan_text d) \<le> 315"
proof (cases d)
  case (Fin s m e)
  have "real m \<le> 2 ^ 53" using assms(1) Fin by (simp add: dbl_wf_def)
  moreover have "2 powi e \<le> (2 :: real) powi 971" using assms(1) Fin powi_le_iff [of e 971] by (simp add: dbl_wf_def)
  ultimately have "real m * 2 powi e \<le> 2 ^ 53 * 2 powi 971" by (intro mult_mono) simp_all
  also have "2 ^ 53 * 2 powi 971 = (2 :: real) ^ 1024"
    by (simp add: powi_nat flip: power_add)
  finally have le: "real m * 2 powi e \<le> 2 ^ 1024" .
  have "(2 :: nat) ^ 1024 < 10 ^ 309" by simp
  from length_fmt4_fin [OF le this] Fin show ?thesis by simp
next
  case (Inf s)
  then show ?thesis by (simp add: fmt4_def)
next
  case NaN
  then show ?thesis using assms(2) by (simp add: fmt4_def)
qed

end
