(* ===== verification/Arrow_Util.thy ===== *)
theory Arrow_Util
  imports Random_Util Doubles Mmap_File
begin

section \<open>Columns and Arrow files (util/ArrowUtil.h, protocol/ColValue.h)\<close>

text \<open>
  A test file has four columns. \<open>ArrowUtil\<close> makes one up, writes it with the Arrow library and reads
  it back into arrays of a given length. The library is a parameter: how it encodes a table, and
  how it takes a file apart into record batches. The arrays of \<open>ColValue\<close> are lists of exactly
  \<open>total\<close> elements, value-initialised by \<open>make_unique\<close>.
\<close>

subsection \<open>Data\<close>

record ColValue =
  cv_total :: int
  stringVal1 :: "byte list list"
  intVal :: "s32 list"
  doubles :: "double list"
  stringVal2 :: "byte list list"

text \<open>A record batch: the number of rows and the columns by name.\<close>

record batch =
  num_rows :: nat
  col_s1 :: "byte list list"
  col_i1 :: "s32 list"
  col_d1 :: "double list"
  col_s2 :: "byte list list"

text \<open>The library: \<open>write_table\<close> for the columns of a table, and the batches of a file. \<open>None\<close> is a
  status that is not OK, which the macros turn into an exception.\<close>

record arrow =
  write_table :: "batch \<Rightarrow> byte list option"
  open_reader :: "byte list \<Rightarrow> batch option list option"

subsection \<open>Making up a file\<close>

text \<open>What the draws for row \<open>i\<close> are.\<close>

record row_draws =
  draw_s1 :: "nat \<Rightarrow> nat"
  draw_i1 :: "int \<Rightarrow> int \<Rightarrow> int"
  draw_d1 :: "int \<Rightarrow> int \<Rightarrow> double"
  draw_s2 :: "nat \<Rightarrow> nat"

fun create_rows :: "(nat \<Rightarrow> row_draws) \<Rightarrow> nat \<Rightarrow> nat \<Rightarrow> ColValue \<Rightarrow> c_error + ColValue" where
  "create_rows rnd i 0 cv = Inr cv"
| "create_rows rnd i (Suc n) cv =
     (case randomString (draw_s1 (rnd i)) 20 of
        Inl e \<Rightarrow> Inl e
      | Inr s1 \<Rightarrow>
          (case randomString (draw_s2 (rnd i)) 2 of
             Inl e \<Rightarrow> Inl e
           | Inr s2 \<Rightarrow>
               create_rows rnd (Suc i) n
                 (cv\<lparr>stringVal1 := (stringVal1 cv)[i := s1],
                     intVal := (intVal cv)[i := word_of_int (randomInt (draw_i1 (rnd i)) 1 10)],
                     doubles := (doubles cv)[i := randomDouble (draw_d1 (rnd i)) 0 1000000000],
                     stringVal2 := (stringVal2 cv)[i := s2]\<rparr>)))"

text \<open>Arrays of \<open>total\<close> elements; a negative \<open>total\<close> is a huge size.\<close>

definition empty_cols :: "int \<Rightarrow> c_error + ColValue" where
  "empty_cols tot =
     (if tot < 0 then Inl Bad_alloc
      else Inr \<lparr>cv_total = tot, stringVal1 = replicate (nat tot) [], intVal = replicate (nat tot) 0,
                doubles = replicate (nat tot) dbl_zero, stringVal2 = replicate (nat tot) []\<rparr>)"

subsection \<open>Writing\<close>

text \<open>The builders get the first \<open>total\<close> elements of the arrays; the results of \<open>Append\<close> and \<open>Finish\<close> are
  ignored. The file is replaced by what the library wrote; opening it can fail.\<close>

definition take_col :: "int \<Rightarrow> 'x list \<Rightarrow> c_error + 'x list" where
  "take_col tot xs = (if tot \<le> int (length xs) then Inr (take (nat tot) xs) else Inl BadMemory)"

definition writeDataToFile ::
    "arrow \<Rightarrow> bool \<Rightarrow> ColValue \<Rightarrow> string \<Rightarrow> file_system \<Rightarrow> c_error + file_system" where
  "writeDataToFile ar opened cv filePath fs =
     (case (take_col (cv_total cv) (stringVal1 cv), take_col (cv_total cv) (intVal cv),
            take_col (cv_total cv) (doubles cv), take_col (cv_total cv) (stringVal2 cv)) of
        (Inr s1, Inr i1, Inr d1, Inr s2) \<Rightarrow>
          (if \<not> opened then Inl Library_error
           else
             (case write_table ar \<lparr>num_rows = length s1, col_s1 = s1, col_i1 = i1, col_d1 = d1, col_s2 = s2\<rparr> of
                None \<Rightarrow> Inl Library_error
              | Some bytes \<Rightarrow> Inr (fs(filePath \<mapsto> bytes))))
      | _ \<Rightarrow> Inl BadMemory)"

definition createDataFile ::
    "arrow \<Rightarrow> (nat \<Rightarrow> row_draws) \<Rightarrow> bool \<Rightarrow> int \<Rightarrow> string \<Rightarrow> file_system \<Rightarrow> c_error + file_system" where
  "createDataFile ar rnd opened tot filePath fs =
     (case empty_cols tot of
        Inl e \<Rightarrow> Inl e
      | Inr cv0 \<Rightarrow>
          (case create_rows rnd 0 (nat tot) cv0 of
             Inl e \<Rightarrow> Inl e
           | Inr cv \<Rightarrow> writeDataToFile ar opened cv filePath fs))"

subsection \<open>Reading\<close>

text \<open>One column of a batch: \<open>count\<close> elements to the places from \<open>data_offset\<close> on. Reading past the
  column or writing past the array is undefined behaviour, and so is counting past \<open>INT_MAX\<close>.\<close>

definition copy_col :: "nat \<Rightarrow> nat \<Rightarrow> 'x list \<Rightarrow> 'x list \<Rightarrow> c_error + 'x list" where
  "copy_col data_offset cnt col arr =
     (if cnt = 0 then Inr arr
      else if 2 ^ 31 \<le> cnt then Inl Int_overflow
      else if length col < cnt \<or> length arr < data_offset + cnt then Inl BadMemory
      else Inr (put_bytes arr data_offset (take cnt col)))"

definition read_batch :: "nat \<Rightarrow> batch \<Rightarrow> ColValue \<Rightarrow> c_error + ColValue" where
  "read_batch off b cv =
     (case (copy_col off (num_rows b) (col_s1 b) (stringVal1 cv), copy_col off (num_rows b) (col_i1 b) (intVal cv),
            copy_col off (num_rows b) (col_d1 b) (doubles cv), copy_col off (num_rows b) (col_s2 b) (stringVal2 cv)) of
        (Inr s1, Inr i1, Inr d1, Inr s2) \<Rightarrow>
          Inr (cv\<lparr>stringVal1 := s1, intVal := i1, doubles := d1, stringVal2 := s2\<rparr>)
      | (Inl e, _, _, _) \<Rightarrow> Inl e
      | (_, Inl e, _, _) \<Rightarrow> Inl e
      | (_, _, Inl e, _) \<Rightarrow> Inl e
      | (_, _, _, Inl e) \<Rightarrow> Inl e)"

fun read_batches :: "nat \<Rightarrow> batch option list \<Rightarrow> ColValue \<Rightarrow> c_error + ColValue" where
  "read_batches off [] cv = Inr cv"
| "read_batches off (None # bs) cv = Inl Library_error"
| "read_batches off (Some b # bs) cv =
     (case read_batch off b cv of Inl e \<Rightarrow> Inl e | Inr cv' \<Rightarrow> read_batches (off + num_rows b) bs cv')"

definition readDataFromFile :: "arrow \<Rightarrow> file_system \<Rightarrow> string \<Rightarrow> int \<Rightarrow> c_error + ColValue" where
  "readDataFromFile ar fs filePath tot =
     (case empty_cols tot of
        Inl e \<Rightarrow> Inl e
      | Inr cv \<Rightarrow>
          (case fs filePath of
             None \<Rightarrow> Inl Library_error
           | Some bytes \<Rightarrow>
               (case open_reader ar bytes of
                  None \<Rightarrow> Inl Library_error
                | Some bs \<Rightarrow> read_batches 0 bs cv)))"

subsection \<open>What the code relies on\<close>

definition batch_ok :: "batch \<Rightarrow> bool" where
  "batch_ok b \<longleftrightarrow> length (col_s1 b) = num_rows b \<and> length (col_i1 b) = num_rows b \<and>
     length (col_d1 b) = num_rows b \<and> length (col_s2 b) = num_rows b"

text \<open>Documented: a table that was written is read back, in batches that have the length they say.\<close>

definition arrow_contract :: "arrow \<Rightarrow> bool" where
  "arrow_contract ar \<longleftrightarrow> (\<forall>t bytes. write_table ar t = Some bytes \<longrightarrow>
     (\<exists>bs. open_reader ar bytes = Some (map Some bs) \<and>
        (\<forall>b \<in> set bs. batch_ok b) \<and>
        concat (map col_s1 bs) = col_s1 t \<and> concat (map col_i1 bs) = col_i1 t \<and>
        concat (map col_d1 bs) = col_d1 t \<and> concat (map col_s2 bs) = col_s2 t))"

definition cols_ok :: "ColValue \<Rightarrow> bool" where
  "cols_ok cv \<longleftrightarrow> 0 \<le> cv_total cv \<and> length (stringVal1 cv) = nat (cv_total cv) \<and> length (intVal cv) = nat (cv_total cv) \<and>
     length (doubles cv) = nat (cv_total cv) \<and> length (stringVal2 cv) = nat (cv_total cv)"

subsection \<open>Reading back\<close>

text \<open>Batches fill an array from the front.\<close>

lemma copy_col_fill:
  assumes "length col = cnt" and "cnt < 2 ^ 31" and "length done' = off" and "length arr = off + cnt + r"
    and "take off arr = done'"
  shows "\<exists>arr'. copy_col off cnt col arr = Inr arr' \<and> length arr' = length arr \<and> take (off + cnt) arr' = done' @ col"
  using assms by (auto simp: copy_col_def put_bytes_def)

lemma read_batches_fill:
  assumes "\<forall>b \<in> set bs. batch_ok b \<and> num_rows b < 2 ^ 31"
    and "cols_ok cv" and "off + length (concat (map col_s1 bs)) \<le> nat (cv_total cv)"
  shows "\<exists>cv'. read_batches off (map Some bs) cv = Inr cv' \<and> cols_ok cv' \<and> cv_total cv' = cv_total cv
    \<and> take (off + length (concat (map col_s1 bs))) (stringVal1 cv') = take off (stringVal1 cv) @ concat (map col_s1 bs)
    \<and> take (off + length (concat (map col_i1 bs))) (intVal cv') = take off (intVal cv) @ concat (map col_i1 bs)
    \<and> take (off + length (concat (map col_d1 bs))) (doubles cv') = take off (doubles cv) @ concat (map col_d1 bs)
    \<and> take (off + length (concat (map col_s2 bs))) (stringVal2 cv') = take off (stringVal2 cv) @ concat (map col_s2 bs)"
  using assms
proof (induction bs arbitrary: off cv)
  case Nil
  then show ?case by simp
next
  case (Cons b bs)
  have b: "length (col_s1 b) = num_rows b" "length (col_i1 b) = num_rows b" "length (col_d1 b) = num_rows b"
    "length (col_s2 b) = num_rows b" "num_rows b < 2 ^ 31" using Cons.prems(1) by (simp_all add: batch_ok_def)
  define r where "r = nat (cv_total cv) - (off + num_rows b)"
  have r: "nat (cv_total cv) = off + num_rows b + r" using Cons.prems(3) b(1) by (simp add: r_def)
  have len: "length (stringVal1 cv) = off + num_rows b + r" "length (intVal cv) = off + num_rows b + r"
    "length (doubles cv) = off + num_rows b + r" "length (stringVal2 cv) = off + num_rows b + r"
    using Cons.prems(2) r by (simp_all add: cols_ok_def)
  from copy_col_fill [OF b(1,5) _ len(1) refl] len obtain s1 where s1: "copy_col off (num_rows b) (col_s1 b) (stringVal1 cv) = Inr s1"
    "length s1 = length (stringVal1 cv)" "take (off + num_rows b) s1 = take off (stringVal1 cv) @ col_s1 b" by auto
  from copy_col_fill [OF b(2,5) _ len(2) refl] len obtain i1 where i1: "copy_col off (num_rows b) (col_i1 b) (intVal cv) = Inr i1"
    "length i1 = length (intVal cv)" "take (off + num_rows b) i1 = take off (intVal cv) @ col_i1 b" by auto
  from copy_col_fill [OF b(3,5) _ len(3) refl] len obtain d1 where d1: "copy_col off (num_rows b) (col_d1 b) (doubles cv) = Inr d1"
    "length d1 = length (doubles cv)" "take (off + num_rows b) d1 = take off (doubles cv) @ col_d1 b" by auto
  from copy_col_fill [OF b(4,5) _ len(4) refl] len obtain s2 where s2: "copy_col off (num_rows b) (col_s2 b) (stringVal2 cv) = Inr s2"
    "length s2 = length (stringVal2 cv)" "take (off + num_rows b) s2 = take off (stringVal2 cv) @ col_s2 b" by auto
  let ?cv = "cv\<lparr>stringVal1 := s1, intVal := i1, doubles := d1, stringVal2 := s2\<rparr>"
  have rb: "read_batch off b cv = Inr ?cv" using s1(1) i1(1) d1(1) s2(1) by (simp add: read_batch_def)
  have ok: "cols_ok ?cv" using Cons.prems(2) s1(2) i1(2) d1(2) s2(2) by (simp add: cols_ok_def)
  from Cons.IH [of ?cv "off + num_rows b"] Cons.prems(1,3) ok b show ?case
    using s1(3) i1(3) d1(3) s2(3) by (simp add: rb add.assoc)
qed

lemma length_batches:
  assumes "\<forall>b \<in> set bs. length (col_s1 b) = num_rows b" and "b \<in> set bs"
  shows "num_rows b \<le> length (concat (map col_s1 bs))"
proof -
  have "num_rows b \<in> set (map (length \<circ> col_s1) bs)" using assms by force
  from member_le_sum_list [OF this] show ?thesis by (simp add: length_concat comp_def)
qed

lemma written_batches:
  assumes "arrow_contract ar" and "cols_ok cv" and "cv_total cv < 2 ^ 31"
    and "writeDataToFile ar opened cv filePath fs = Inr fs'"
  obtains bs bytes where "fs' filePath = Some bytes" and "open_reader ar bytes = Some (map Some bs)"
    and "\<forall>b \<in> set bs. batch_ok b \<and> num_rows b < 2 ^ 31"
    and "concat (map col_s1 bs) = stringVal1 cv" and "concat (map col_i1 bs) = intVal cv"
    and "concat (map col_d1 bs) = doubles cv" and "concat (map col_s2 bs) = stringVal2 cv"
proof -
  let ?t = "\<lparr>num_rows = length (stringVal1 cv), col_s1 = stringVal1 cv, col_i1 = intVal cv, col_d1 = doubles cv,
      col_s2 = stringVal2 cv\<rparr>"
  have tk: "take_col (cv_total cv) xs = Inr xs" if "length xs = nat (cv_total cv)" for xs :: "'x list"
    using that assms(2) by (simp add: take_col_def cols_ok_def)
  from assms(2,4) obtain bytes where w: "write_table ar ?t = Some bytes" and fs': "fs' = fs(filePath \<mapsto> bytes)"
    by (auto simp: writeDataToFile_def tk cols_ok_def split: if_splits option.splits)
  from assms(1) [unfolded arrow_contract_def, rule_format, OF w]
  obtain bs where bs: "open_reader ar bytes = Some (map Some bs)"
    "\<forall>b \<in> set bs. batch_ok b"
    "concat (map col_s1 bs) = stringVal1 cv" "concat (map col_i1 bs) = intVal cv"
    "concat (map col_d1 bs) = doubles cv" "concat (map col_s2 bs) = stringVal2 cv"
    by (elim exE conjE) (rule that, simp_all only: batch.simps)
  have "num_rows b < 2 ^ 31" if "b \<in> set bs" for b
  proof -
    have "num_rows b \<le> length (stringVal1 cv)" using length_batches [of bs b] bs(2,3) that by (simp add: batch_ok_def)
    also have "\<dots> = nat (cv_total cv)" using assms(2) by (simp add: cols_ok_def)
    also have "\<dots> < 2 ^ 31" using assms(3) by (simp add: nat_less_iff)
    finally show ?thesis .
  qed
  then show ?thesis using that fs' bs by simp
qed

lemma read_back:
  assumes "arrow_contract ar" and "cols_ok cv" and "cv_total cv < 2 ^ 31"
    and "writeDataToFile ar opened cv filePath fs = Inr fs'"
  shows "readDataFromFile ar fs' filePath (cv_total cv) = Inr cv"
proof -
  obtain bs bytes where f: "fs' filePath = Some bytes" "open_reader ar bytes = Some (map Some bs)"
    and bs: "\<forall>b \<in> set bs. batch_ok b \<and> num_rows b < 2 ^ 31"
    and cols: "concat (map col_s1 bs) = stringVal1 cv" "concat (map col_i1 bs) = intVal cv"
      "concat (map col_d1 bs) = doubles cv" "concat (map col_s2 bs) = stringVal2 cv"
    by (rule written_batches [OF assms])
  have tot: "0 \<le> cv_total cv" and len: "length (stringVal1 cv) = nat (cv_total cv)" "length (intVal cv) = nat (cv_total cv)"
    "length (doubles cv) = nat (cv_total cv)" "length (stringVal2 cv) = nat (cv_total cv)"
    using assms(2) by (simp_all add: cols_ok_def)
  let ?cv0 = "\<lparr>cv_total = cv_total cv, stringVal1 = replicate (nat (cv_total cv)) [], intVal = replicate (nat (cv_total cv)) 0,
      doubles = replicate (nat (cv_total cv)) dbl_zero, stringVal2 = replicate (nat (cv_total cv)) []\<rparr>"
  have "cols_ok ?cv0" using tot by (simp add: cols_ok_def)
  from read_batches_fill [OF bs this, of 0] cols len obtain cv' where
    rb: "read_batches 0 (map Some bs) ?cv0 = Inr cv'" "cols_ok cv'" "cv_total cv' = cv_total cv"
    "take (nat (cv_total cv)) (stringVal1 cv') = stringVal1 cv" "take (nat (cv_total cv)) (intVal cv') = intVal cv"
    "take (nat (cv_total cv)) (doubles cv') = doubles cv" "take (nat (cv_total cv)) (stringVal2 cv') = stringVal2 cv"
    by auto
  have "cv' = cv" using rb(2-7) by (simp add: cols_ok_def)
  then show ?thesis using rb(1) tot f by (simp add: readDataFromFile_def empty_cols_def)
qed

subsection \<open>Properties\<close>

text \<open>(C19) What was written is what is read: a file of columns written by \<open>writeDataToFile\<close> and read with
  the same number of rows gives the same columns, in whatever batches the library stores it.\<close>

theorem Arrow_round_trip:
  assumes "arrow_contract ar" and "cols_ok cv" and "cv_total cv < 2 ^ 31"
    and "writeDataToFile ar opened cv filePath fs = Inr fs'"
  shows "readDataFromFile ar fs' filePath (cv_total cv) = Inr cv"
  using assms by (rule read_back)

text \<open>A library that knows one table and stores it in two batches.\<close>

definition sample_table :: batch where
  "sample_table = \<lparr>num_rows = 3, col_s1 = [[97], [98], [99]], col_i1 = [1, 2, 3],
     col_d1 = [dbl_zero, dbl_zero, dbl_zero], col_s2 = [[], [], []]\<rparr>"

definition sample_arrow :: arrow where
  "sample_arrow = \<lparr>write_table = (\<lambda>t. if t = sample_table then Some [1] else None),
     open_reader = (\<lambda>_. Some [
       Some \<lparr>num_rows = 2, col_s1 = [[97], [98]], col_i1 = [1, 2], col_d1 = [dbl_zero, dbl_zero], col_s2 = [[], []]\<rparr>,
       Some \<lparr>num_rows = 1, col_s1 = [[99]], col_i1 = [3], col_d1 = [dbl_zero], col_s2 = [[]]\<rparr>])\<rparr>"

definition sample_cols :: ColValue where
  "sample_cols = \<lparr>cv_total = 3, stringVal1 = [[97], [98], [99]], intVal = [1, 2, 3],
     doubles = [dbl_zero, dbl_zero, dbl_zero], stringVal2 = [[], [], []]\<rparr>"

lemma sample_arrow_contract: "arrow_contract sample_arrow"
  unfolding arrow_contract_def
proof (intro allI impI)
  fix t bytes assume "write_table sample_arrow t = Some bytes"
  then have t: "t = sample_table" by (simp add: sample_arrow_def split: if_splits)
  let ?bs = "[\<lparr>num_rows = 2, col_s1 = [[97], [98]], col_i1 = [1, 2], col_d1 = [dbl_zero, dbl_zero], col_s2 = [[], []]\<rparr>,
      \<lparr>num_rows = 1, col_s1 = [[99]], col_i1 = [3], col_d1 = [dbl_zero], col_s2 = [[]]\<rparr>]"
  show "\<exists>bs. open_reader sample_arrow bytes = Some (map Some bs) \<and>
        (\<forall>b \<in> set bs. batch_ok b) \<and>
        concat (map col_s1 bs) = col_s1 t \<and> concat (map col_i1 bs) = col_i1 t \<and>
        concat (map col_d1 bs) = col_d1 t \<and> concat (map col_s2 bs) = col_s2 t"
    by (rule exI [of _ ?bs]) (simp add: sample_arrow_def t sample_table_def batch_ok_def)
qed

lemma sample_written:
  "writeDataToFile sample_arrow True sample_cols ''a'' (\<lambda>_. None) = Inr ((\<lambda>_. None)(''a'' \<mapsto> [1]))"
  by (simp add: writeDataToFile_def sample_cols_def take_col_def sample_arrow_def sample_table_def)

theorem Arrow_round_trip_witness:
  "readDataFromFile sample_arrow ((\<lambda>_. None)(''a'' \<mapsto> [1])) ''a'' (cv_total sample_cols) = Inr sample_cols"
  by (rule Arrow_round_trip [OF sample_arrow_contract _ _ sample_written]) (simp_all add: cols_ok_def sample_cols_def)

text \<open>Whatever the file holds, what is read has the size that was asked for.\<close>

lemma length_copy_col: "copy_col off cnt col arr = Inr arr' \<Longrightarrow> length arr' = length arr"
  by (auto simp: copy_col_def length_put_bytes split: if_splits)

lemma read_batch_ok: "read_batch off b cv = Inr cv' \<Longrightarrow> cols_ok cv \<Longrightarrow> cols_ok cv' \<and> cv_total cv' = cv_total cv"
  by (auto simp: read_batch_def cols_ok_def dest: length_copy_col split: sum.splits)

lemma read_batches_ok: "read_batches off bs cv = Inr cv' \<Longrightarrow> cols_ok cv \<Longrightarrow> cols_ok cv' \<and> cv_total cv' = cv_total cv"
  by (induction off bs cv rule: read_batches.induct) (auto dest: read_batch_ok split: sum.splits)

lemma readDataFromFile_ok: "readDataFromFile ar fs filePath tot = Inr cv \<Longrightarrow> cols_ok cv \<and> cv_total cv = tot"
  by (auto simp: readDataFromFile_def empty_cols_def cols_ok_def split: if_splits option.splits
      dest!: read_batches_ok [unfolded cols_ok_def])

subsection \<open>Too few rows asked for\<close>

lemma copy_col_short:
  assumes "length col = cnt" and "cnt < 2 ^ 31" and "length arr < off + cnt" and "off \<le> length arr"
  shows "copy_col off cnt col arr = Inl BadMemory"
  using assms by (simp add: copy_col_def)

lemma copy_col_fits:
  assumes "length col = cnt" and "cnt < 2 ^ 31" and "off + cnt \<le> length arr"
  shows "copy_col off cnt col arr = Inr (put_bytes arr off col)"
  using assms by (auto simp: copy_col_def put_bytes_def)

lemma read_batches_short:
  assumes "\<forall>b \<in> set bs. batch_ok b \<and> num_rows b < 2 ^ 31" and "cols_ok cv" and "off \<le> nat (cv_total cv)"
    and "nat (cv_total cv) < off + length (concat (map col_s1 bs))"
  shows "read_batches off (map Some bs) cv = Inl BadMemory"
  using assms
proof (induction bs arbitrary: off cv)
  case Nil
  then show ?case by simp
next
  case (Cons b bs)
  have b: "length (col_s1 b) = num_rows b" "length (col_i1 b) = num_rows b" "length (col_d1 b) = num_rows b"
    "length (col_s2 b) = num_rows b" "num_rows b < 2 ^ 31" using Cons.prems(1) by (simp_all add: batch_ok_def)
  show ?case
  proof (cases "off + num_rows b \<le> nat (cv_total cv)")
    case False
    then have "copy_col off (num_rows b) (col_s1 b) (stringVal1 cv) = Inl BadMemory"
      using Cons.prems(2,3) b by (intro copy_col_short) (simp_all add: cols_ok_def)
    then show ?thesis by (simp add: read_batch_def)
  next
    case True
    let ?cv = "cv\<lparr>stringVal1 := put_bytes (stringVal1 cv) off (col_s1 b), intVal := put_bytes (intVal cv) off (col_i1 b),
        doubles := put_bytes (doubles cv) off (col_d1 b), stringVal2 := put_bytes (stringVal2 cv) off (col_s2 b)\<rparr>"
    have rb: "read_batch off b cv = Inr ?cv"
      using Cons.prems(2) True b by (simp add: read_batch_def copy_col_fits cols_ok_def)
    have "cols_ok ?cv" using Cons.prems(2) True b by (simp add: cols_ok_def length_put_bytes)
    from Cons.IH [OF _ this, of "off + num_rows b"] Cons.prems(1,4) True b show ?thesis by (simp add: rb)
  qed
qed

lemma empty_cols_ok: "0 \<le> tot \<Longrightarrow> \<exists>cv. empty_cols tot = Inr cv \<and> cols_ok cv \<and> cv_total cv = tot"
  by (simp add: empty_cols_def cols_ok_def)

text \<open>(C37) The number of rows to read is taken on trust: when it is smaller than what the file has, the
  reader writes past the end of its arrays.\<close>

theorem readDataFromFile_overrun:
  assumes "arrow_contract ar" and "cols_ok cv" and "cv_total cv < 2 ^ 31"
    and "writeDataToFile ar opened cv filePath fs = Inr fs'" and "0 \<le> tot" and "tot < cv_total cv"
  shows "readDataFromFile ar fs' filePath tot = Inl BadMemory"
proof -
  obtain bs bytes where f: "fs' filePath = Some bytes" "open_reader ar bytes = Some (map Some bs)"
    and bs: "\<forall>b \<in> set bs. batch_ok b \<and> num_rows b < 2 ^ 31" and s1: "concat (map col_s1 bs) = stringVal1 cv"
    by (rule written_batches [OF assms(1-4)])
  from empty_cols_ok [OF assms(5)] obtain cv0 where cv0: "empty_cols tot = Inr cv0" "cols_ok cv0" "cv_total cv0 = tot"
    by blast
  have "read_batches 0 (map Some bs) cv0 = Inl BadMemory"
    by (rule read_batches_short [OF bs cv0(2)]) (use assms cv0(3) s1 in \<open>simp_all add: cols_ok_def\<close>)
  then show ?thesis using f cv0(1) by (simp add: readDataFromFile_def)
qed

theorem readDataFromFile_overrun_witness:
  "readDataFromFile sample_arrow ((\<lambda>_. None)(''a'' \<mapsto> [1])) ''a'' 2 = Inl BadMemory"
  by (rule readDataFromFile_overrun [OF sample_arrow_contract _ _ sample_written])
    (simp_all add: cols_ok_def sample_cols_def)

subsection \<open>What the generator makes\<close>

text \<open>The distributions promise values between their bounds.\<close>

definition draws_ok :: "row_draws \<Rightarrow> bool" where
  "draws_ok d \<longleftrightarrow> (\<forall>i. draw_s1 d i < 36 \<and> draw_s2 d i < 36) \<and> 1 \<le> draw_i1 d 1 10 \<and> draw_i1 d 1 10 \<le> 10 \<and>
     dbl_wf (draw_d1 d 0 1000000000) \<and> 0 \<le> dval (draw_d1 d 0 1000000000) \<and> dval (draw_d1 d 0 1000000000) < 1000000000"

text \<open>A row of a generated file.\<close>

definition row_ok :: "ColValue \<Rightarrow> nat \<Rightarrow> bool" where
  "row_ok cv k \<longleftrightarrow> length (stringVal1 cv ! k) = 20 \<and> set (stringVal1 cv ! k) \<subseteq> set base_string \<and>
     1 \<le> sint (intVal cv ! k) \<and> sint (intVal cv ! k) \<le> 10 \<and>
     dbl_wf (doubles cv ! k) \<and> 0 \<le> dval (doubles cv ! k) \<and> dval (doubles cv ! k) < 1000000000 \<and>
     length (stringVal2 cv ! k) = 2 \<and> set (stringVal2 cv ! k) \<subseteq> set base_string"

lemma sint_small: "- (2 ^ 31) \<le> i \<Longrightarrow> i < 2 ^ 31 \<Longrightarrow> sint (word_of_int i :: s32) = i"
  by (simp add: signed_of_int signed_take_bit_int_eq_self)

lemma create_rows_ok:
  assumes "\<forall>k. draws_ok (rnd k)" and "cols_ok cv" and "i + n = nat (cv_total cv)" and "\<forall>k < i. row_ok cv k"
  shows "\<exists>cv'. create_rows rnd i n cv = Inr cv' \<and> cols_ok cv' \<and> cv_total cv' = cv_total cv \<and> (\<forall>k < i + n. row_ok cv' k)"
  using assms(2-4)
proof (induction n arbitrary: i cv)
  case 0
  then show ?case by simp
next
  case (Suc n)
  have d: "draws_ok (rnd i)" using assms(1) by simp
  obtain s1 where s1: "randomString (draw_s1 (rnd i)) 20 = Inr s1" "length s1 = 20" "set s1 \<subseteq> set base_string"
    by (rule randomString_text [of 20 "draw_s1 (rnd i)"]) (use d in \<open>auto simp: draws_ok_def\<close>)
  obtain s2 where s2: "randomString (draw_s2 (rnd i)) 2 = Inr s2" "length s2 = 2" "set s2 \<subseteq> set base_string"
    by (rule randomString_text [of 2 "draw_s2 (rnd i)"]) (use d in \<open>auto simp: draws_ok_def\<close>)
  let ?i1 = "word_of_int (randomInt (draw_i1 (rnd i)) 1 10) :: s32" and ?d1 = "randomDouble (draw_d1 (rnd i)) 0 1000000000"
  have "1 \<le> randomInt (draw_i1 (rnd i)) 1 10" "randomInt (draw_i1 (rnd i)) 1 10 \<le> 10"
    using d by (simp_all add: draws_ok_def randomInt_def)
  then have i1: "1 \<le> sint ?i1" "sint ?i1 \<le> 10" by (simp_all add: sint_small)
  have d1: "dbl_wf ?d1" "0 \<le> dval ?d1" "dval ?d1 < 1000000000"
    using d by (simp_all add: draws_ok_def randomDouble_def)
  let ?cv = "cv\<lparr>stringVal1 := (stringVal1 cv)[i := s1], intVal := (intVal cv)[i := ?i1],
      doubles := (doubles cv)[i := ?d1], stringVal2 := (stringVal2 cv)[i := s2]\<rparr>"
  have "cols_ok ?cv" using Suc.prems(1) by (simp add: cols_ok_def)
  moreover have "row_ok ?cv k" if "k < Suc i" for k
    using that Suc.prems s1 s2 i1 d1 by (cases "k = i") (simp_all add: row_ok_def cols_ok_def)
  ultimately show ?case using Suc.IH [of ?cv "Suc i"] Suc.prems(2) s1(1) s2(1) by simp
qed

lemma created_rows:
  assumes "arrow_contract ar" and "\<forall>k. draws_ok (rnd k)" and "0 \<le> tot" and "tot < 2 ^ 31"
    and "createDataFile ar rnd opened tot filePath fs = Inr fs'"
  obtains cv where "readDataFromFile ar fs' filePath tot = Inr cv" and "cols_ok cv" and "cv_total cv = tot"
    and "\<forall>k < nat tot. row_ok cv k"
proof -
  from empty_cols_ok [OF assms(3)] obtain cv0 where cv0: "empty_cols tot = Inr cv0" "cols_ok cv0" "cv_total cv0 = tot"
    by blast
  from create_rows_ok [OF assms(2) cv0(2), of 0 "nat tot"] cv0(3) obtain cv where
    cv: "create_rows rnd 0 (nat tot) cv0 = Inr cv" "cols_ok cv" "cv_total cv = tot" "\<forall>k < nat tot. row_ok cv k" by auto
  then have "writeDataToFile ar opened cv filePath fs = Inr fs'" using assms(5) cv0(1) by (simp add: createDataFile_def)
  from read_back [OF assms(1) cv(2) _ this] cv(3) assms(4) have "readDataFromFile ar fs' filePath tot = Inr cv" by simp
  then show ?thesis using cv(2-4) by (rule that)
qed

text \<open>(C22) The data of a generated file has the type it should: when the distributions keep within their
  bounds, the file reads back as \<open>tot\<close> rows with 20 and 2 characters of the alphabet, an int from 1
  to 10 and a proper double below 1e9.\<close>

theorem createDataFile_rows:
  assumes "arrow_contract ar" and "\<forall>k. draws_ok (rnd k)" and "0 \<le> tot" and "tot < 2 ^ 31"
    and "createDataFile ar rnd opened tot filePath fs = Inr fs'"
  shows "\<exists>cv. readDataFromFile ar fs' filePath tot = Inr cv \<and> cols_ok cv \<and> cv_total cv = tot \<and> (\<forall>k < nat tot. row_ok cv k)"
  by (rule created_rows [OF assms]) blast

text \<open>A generator that always draws the lower bound, and a library that knows what it makes.\<close>

definition low_draws :: "nat \<Rightarrow> row_draws" where
  "low_draws k = \<lparr>draw_s1 = (\<lambda>_. 0), draw_i1 = (\<lambda>lo hi. lo), draw_d1 = (\<lambda>lo hi. dbl_of_int lo), draw_s2 = (\<lambda>_. 1)\<rparr>"

definition low_table :: batch where
  "low_table = \<lparr>num_rows = 2, col_s1 = replicate 2 (replicate 20 97), col_i1 = [1, 1],
     col_d1 = [dbl_zero, dbl_zero], col_s2 = [[98, 98], [98, 98]]\<rparr>"

definition low_arrow :: arrow where
  "low_arrow = \<lparr>write_table = (\<lambda>t. if t = low_table then Some [7] else None), open_reader = (\<lambda>_. Some [Some low_table])\<rparr>"

lemma low_arrow_contract: "arrow_contract low_arrow"
  unfolding arrow_contract_def
proof (intro allI impI)
  fix t bytes assume "write_table low_arrow t = Some bytes"
  then have t: "t = low_table" by (simp add: low_arrow_def split: if_splits)
  show "\<exists>bs. open_reader low_arrow bytes = Some (map Some bs) \<and> (\<forall>b \<in> set bs. batch_ok b) \<and>
        concat (map col_s1 bs) = col_s1 t \<and> concat (map col_i1 bs) = col_i1 t \<and>
        concat (map col_d1 bs) = col_d1 t \<and> concat (map col_s2 bs) = col_s2 t"
    by (rule exI [of _ "[low_table]"]) (simp add: low_arrow_def t low_table_def batch_ok_def)
qed

lemma low_draws_ok: "draws_ok (low_draws k)"
  by (simp add: low_draws_def draws_ok_def dbl_of_int_0) (simp add: dbl_zero_def dbl_wf_def dval_def)

lemma low_created: "createDataFile low_arrow low_draws True 2 ''a'' (\<lambda>_. None) = Inr ((\<lambda>_. None)(''a'' \<mapsto> [7]))"
proof -
  have "[0..<20] = [0, 1, 2, 3, 4, 5, 6, 7, 8, 9, 10, 11, 12, 13, 14, 15, 16, 17, 18, 19 :: nat]" by code_simp
  then show ?thesis
    by (simp add: createDataFile_def empty_cols_def numeral_2_eq_2 randomString_def randomString_from_def base_string_def
      low_draws_def randomInt_def randomDouble_def writeDataToFile_def take_col_def low_arrow_def low_table_def
      dbl_of_int_0 upt_rec numeral_eq_Suc)
qed

theorem createDataFile_rows_witness:
  "\<exists>cv. readDataFromFile low_arrow ((\<lambda>_. None)(''a'' \<mapsto> [7])) ''a'' 2 = Inr cv \<and> cols_ok cv \<and> cv_total cv = 2 \<and>
    row_ok cv 0 \<and> row_ok cv 1"
  using createDataFile_rows [OF low_arrow_contract _ _ _ low_created] low_draws_ok by auto

end
