(* ===== verification/Valid_Util.thy ===== *)
theory Valid_Util
  imports Arrow_Util
begin

section \<open>Validation of a file (util/ValidUtil.h)\<close>

text \<open>
  Both ends describe a file by one line of text: per column, the average over every \<open>STEP\<close>-th row,
  printed with four decimals. The loops run an \<open>int\<close> index against a \<open>long\<close> bound; they are modelled
  with the overflow of that index, of the \<open>int\<close> sums and with accesses past the arrays.
\<close>

subsection \<open>Definitions\<close>

definition STEP :: int where
  "STEP = 100000"

text \<open>\<open>for (int i = 0; i < total; i += STEP)\<close>, with one element added to the sum per round.\<close>

function (sequential) valid_loop ::
    "('s \<Rightarrow> 'x \<Rightarrow> c_error + 's) \<Rightarrow> 'x list \<Rightarrow> int \<Rightarrow> int \<Rightarrow> 's \<Rightarrow> int \<Rightarrow> c_error + 's \<times> int" where
  "valid_loop add xs tot i s cnt =
     (if \<not> i < tot then Inr (s, cnt)
      else if int (length xs) \<le> i then Inl BadMemory
      else
        (case add s (xs ! nat i) of
           Inl e \<Rightarrow> Inl e
         | Inr s' \<Rightarrow>
             (if i + STEP \<ge> 2 ^ 31 then Inl Int_overflow
              else valid_loop add xs tot (i + STEP) s' (cnt + 1))))"
  by pat_completeness auto

termination
  by (relation "measure (\<lambda>(add, xs, tot, i, s, cnt). nat (tot - i))") (auto simp: STEP_def)

declare valid_loop.simps [simp del]

text \<open>\<open>sum += ints[i]\<close> on two ints; \<open>sum += strings[i].length()\<close>, which goes through \<open>size_t\<close> and back.\<close>

definition add_int :: "s32 \<Rightarrow> s32 \<Rightarrow> c_error + s32" where
  "add_int s v = (if sint s + sint v < - (2 ^ 31) \<or> 2 ^ 31 \<le> sint s + sint v then Inl Int_overflow else Inr (s + v))"

definition add_length :: "s32 \<Rightarrow> byte list \<Rightarrow> c_error + s32" where
  "add_length s t = Inr (ucast ((scast s :: u64) + of_nat (length t)))"

definition add_double :: "double \<Rightarrow> double \<Rightarrow> c_error + double" where
  "add_double s v = Inr (dbl_add s v)"

text \<open>\<open>string_format("%.4f", (double) sum / count)\<close>: the buffer has the length the first \<open>snprintf\<close>
  returned, so that the text comes out whole.\<close>

definition average_text :: "byte list \<Rightarrow> double \<Rightarrow> int \<Rightarrow> byte list" where
  "average_text nan_text s cnt =
     (if cnt = 0 then [48, 46, 48, 48, 48, 48] else fmt4 nan_text (dbl_div s (dbl_of_int cnt)))"

definition ValidIntArray :: "byte list \<Rightarrow> s32 list \<Rightarrow> int \<Rightarrow> c_error + byte list" where
  "ValidIntArray nan_text ints tot =
     (case valid_loop add_int ints tot 0 0 0 of
        Inl e \<Rightarrow> Inl e
      | Inr (s, cnt) \<Rightarrow> Inr (average_text nan_text (dbl_of_int (sint s)) cnt))"

definition ValidStringArray :: "byte list \<Rightarrow> byte list list \<Rightarrow> int \<Rightarrow> c_error + byte list" where
  "ValidStringArray nan_text strings tot =
     (case valid_loop add_length strings tot 0 0 0 of
        Inl e \<Rightarrow> Inl e
      | Inr (s, cnt) \<Rightarrow> Inr (average_text nan_text (dbl_of_int (sint s)) cnt))"

definition ValidDoubleArray :: "byte list \<Rightarrow> double list \<Rightarrow> int \<Rightarrow> c_error + byte list" where
  "ValidDoubleArray nan_text ds tot =
     (case valid_loop add_double ds tot 0 dbl_zero 0 of
        Inl e \<Rightarrow> Inl e
      | Inr (s, cnt) \<Rightarrow> Inr (average_text nan_text s cnt))"

definition getValidResult :: "byte list \<Rightarrow> ColValue \<Rightarrow> c_error + byte list" where
  "getValidResult nan_text cv =
     (case ValidStringArray nan_text (stringVal1 cv) (cv_total cv) of
        Inl e \<Rightarrow> Inl e
      | Inr s1 \<Rightarrow>
     (case ValidIntArray nan_text (intVal cv) (cv_total cv) of
        Inl e \<Rightarrow> Inl e
      | Inr i1 \<Rightarrow>
     (case ValidDoubleArray nan_text (doubles cv) (cv_total cv) of
        Inl e \<Rightarrow> Inl e
      | Inr d1 \<Rightarrow>
     (case ValidStringArray nan_text (stringVal2 cv) (cv_total cv) of
        Inl e \<Rightarrow> Inl e
      | Inr s2 \<Rightarrow>
          Inr (label ''strings1: '' @ s1 @ label '', ints: '' @ i1 @ label '', doubles: '' @ d1 @ label '', strings2: '' @ s2)))))"

definition getValidResult_file ::
    "byte list \<Rightarrow> arrow \<Rightarrow> file_system \<Rightarrow> string \<Rightarrow> int \<Rightarrow> c_error + byte list" where
  "getValidResult_file nan_text ar fs filePath fileRows =
     (case readDataFromFile ar fs filePath fileRows of
        Inl e \<Rightarrow> Inl e
      | Inr cv \<Rightarrow> getValidResult nan_text cv)"

subsection \<open>The rows that are looked at\<close>

text \<open>Reference: every \<open>STEP\<close>-th element, and a fold that stops at an error.\<close>

definition samples :: "'x list \<Rightarrow> int \<Rightarrow> 'x list" where
  "samples xs tot = map (\<lambda>k. xs ! (100000 * k)) [0..<nat ((tot + 99999) div 100000)]"

fun foldE :: "('s \<Rightarrow> 'x \<Rightarrow> c_error + 's) \<Rightarrow> 's \<Rightarrow> 'x list \<Rightarrow> c_error + 's" where
  "foldE add s [] = Inr s"
| "foldE add s (x # xs) = (case add s x of Inl e \<Rightarrow> Inl e | Inr s' \<Rightarrow> foldE add s' xs)"

lemma samples_from:
  assumes "int k * 100000 < tot"
  shows "[k..<nat ((tot + 99999) div 100000)] = k # [Suc k..<nat ((tot + 99999) div 100000)]"
proof -
  have "int k < (tot + 99999) div 100000" using assms by linarith
  then show ?thesis by (intro upt_conv_Cons) linarith
qed

lemma valid_loop_from:
  assumes "tot \<le> int (length xs)" and "tot \<le> 2147400000" and "int k * 100000 \<le> tot + 99999"
  shows "valid_loop add xs tot (int k * 100000) s (int k) =
    (case foldE add s (map (\<lambda>k. xs ! (100000 * k)) [k..<nat ((tot + 99999) div 100000)]) of
       Inl e \<Rightarrow> Inl e | Inr s' \<Rightarrow> Inr (s', max (int k) ((tot + 99999) div 100000)))"
  using assms(3)
proof (induction "nat (tot - int k * 100000)" arbitrary: k s rule: less_induct)
  case less
  show ?case
  proof (cases "int k * 100000 < tot")
    case False
    then have "(tot + 99999) div 100000 \<le> int k" by linarith
    then show ?thesis using False by (simp add: valid_loop.simps)
  next
    case True
    have *: "int k * 100000 + STEP = int (Suc k) * 100000" by (simp add: STEP_def)
    have "int k < 21474" using True assms(2) by linarith
    then have b: "int (Suc k) * 100000 < 2 ^ 31" by simp
    have n: "nat (int k * 100000) = 100000 * k" by simp
    have mx: "max (int (Suc k)) ((tot + 99999) div 100000) = max (int k) ((tot + 99999) div 100000)"
      using True by linarith
    have IH: "valid_loop add xs tot (int (Suc k) * 100000) s' (int (Suc k)) =
        (case foldE add s' (map (\<lambda>k. xs ! (100000 * k)) [Suc k..<nat ((tot + 99999) div 100000)]) of
           Inl e \<Rightarrow> Inl e | Inr s' \<Rightarrow> Inr (s', max (int k) ((tot + 99999) div 100000)))" for s'
      using less.hyps [of "Suc k" s', unfolded mx] True by simp
    have c: "int k + 1 = int (Suc k)" by simp
    have "\<not> int (length xs) \<le> int k * 100000" "\<not> 2 ^ 31 \<le> int (Suc k) * 100000" using True assms(1) b by linarith+
    then show ?thesis
      using True
      by (subst valid_loop.simps, simp only: * c n samples_from [OF True] IH if_False if_True not_True_eq_False list.map foldE.simps)
        (simp split: sum.split)
  qed
qed

lemma valid_loop_samples:
  assumes "0 \<le> tot" and "tot \<le> int (length xs)" and "tot \<le> 2147400000"
  shows "valid_loop add xs tot 0 s 0 =
    (case foldE add s (samples xs tot) of Inl e \<Rightarrow> Inl e | Inr s' \<Rightarrow> Inr (s', int (length (samples xs tot))))"
proof -
  have len: "int (length (samples xs tot)) = max (int 0) ((tot + 99999) div 100000)" using assms(1) by (simp add: samples_def)
  have "int 0 * 100000 \<le> tot + 99999" using assms(1) by simp
  from valid_loop_from [OF assms(2,3) this, of add s] show ?thesis unfolding len by (simp add: samples_def)
qed

text \<open>Past 2147400000 rows the index overflows, unless an error comes first.\<close>

lemma valid_loop_overflow:
  assumes "2147400000 < tot" and "tot \<le> int (length xs)" and "\<And>s x. \<exists>s'. add s x = Inr s'" and "k \<le> 21474"
  shows "valid_loop add xs tot (int k * 100000) s cnt = Inl Int_overflow"
  using assms(4)
proof (induction "21474 - k" arbitrary: k s cnt)
  case 0
  then have "k = 21474" by simp
  moreover obtain s' where "add s (xs ! 2147400000) = Inr s'" using assms(3) by blast
  ultimately show ?case using assms(1,2) by (simp add: valid_loop.simps STEP_def)
next
  case (Suc d)
  then have k: "Suc k \<le> 21474" "d = 21474 - Suc k" by simp_all
  obtain s' where s': "add s (xs ! (100000 * k)) = Inr s'" using assms(3) by blast
  have n: "nat (int k * 100000) = 100000 * k" by simp
  have lt: "int k * 100000 < tot" "\<not> int (length xs) \<le> int k * 100000" "\<not> 2 ^ 31 \<le> int k * 100000 + STEP"
    using k(1) assms(1,2) by (simp_all add: STEP_def)
  have "int k * 100000 + STEP = int (Suc k) * 100000" by (simp add: STEP_def)
  with Suc.hyps(1) [OF k(2,1), of s' "cnt + 1"] show ?case
    using lt s' by (subst valid_loop.simps) (simp add: n del: of_nat_Suc)
qed

subsection \<open>Sums\<close>

lemma foldE_add_int:
  assumes "\<bar>sint s\<bar> + sum_list (map (\<lambda>v. \<bar>sint v\<bar>) vs) < 2 ^ 31"
  shows "\<exists>s'. foldE add_int s vs = Inr s' \<and> sint s' = sint s + sum_list (map sint vs)"
  using assms
proof (induction vs arbitrary: s)
  case Nil
  then show ?case by simp
next
  case (Cons v vs)
  have nn: "0 \<le> sum_list (map (\<lambda>v. \<bar>sint v\<bar>) vs)" by (induction vs) simp_all
  have b: "- (2 ^ 31) \<le> sint s + sint v" "sint s + sint v < 2 ^ 31" using Cons.prems nn by simp_all
  have "s + v = word_of_int (sint s + sint v)" by simp
  then have sv: "sint (s + v) = sint s + sint v" by (simp only: sint_small [OF b])
  have "\<bar>sint (s + v)\<bar> + sum_list (map (\<lambda>v. \<bar>sint v\<bar>) vs) < 2 ^ 31" using Cons.prems by (simp add: sv)
  from Cons.IH [OF this] show ?case using b by (auto simp: add_int_def sv)
qed

lemma add_length_eq: "add_length s t = Inr (s + of_nat (length t))"
proof -
  have "(ucast (word_of_int i :: u64) :: s32) = word_of_int i" for i
    by (simp add: unsigned_of_int word_of_int_eq_iff)
  from this [of "sint s + int (length t)"] show ?thesis by (simp add: add_length_def)
qed

lemma foldE_add_length: "foldE add_length s ts = Inr (s + of_nat (sum_list (map length ts)))"
  by (induction ts arbitrary: s) (simp_all add: add_length_eq add.assoc)

lemma foldE_add_double: "dbl_wf s \<Longrightarrow> \<exists>s'. foldE add_double s ds = Inr s' \<and> dbl_wf s'"
  by (induction ds arbitrary: s) (simp_all add: add_double_def dbl_wf_add)

subsection \<open>Averages\<close>

lemma dbl_of_int_exact:
  assumes "\<bar>i\<bar> < 2 ^ 53"
  obtains m e where "dbl_of_int i = Fin (i < 0) m e" and "real m * 2 powi e = real_of_int \<bar>i\<bar>"
proof (cases "i = 0")
  case True
  then show ?thesis using that [of 0 "-1074"] by (simp add: dbl_of_int_0 dbl_zero_def)
next
  case False
  then have n: "0 < nat \<bar>i\<bar>" "nat \<bar>i\<bar> < 2 ^ 53" using assms by (simp_all add: nat_less_iff)
  from round_exact [OF n, of 1 "i < 0"] obtain m e where
    "dbl_round (i < 0) (nat \<bar>i\<bar> * 1) 1 = Fin (i < 0) m e" "real m * 2 powi e = real (nat \<bar>i\<bar>)"
    using zero_less_one by blast
  then show ?thesis using that by (simp add: dbl_of_int_def)
qed

text \<open>The fraction that \<open>dbl_div\<close> rounds is the exact quotient.\<close>

lemma quotient_frac:
  assumes "\<bar>i\<bar> < 2 ^ 53" and "0 < n" and "n < 2 ^ 53"
  obtains p q where "dbl_div (dbl_of_int i) (dbl_of_int n) = dbl_round (i < 0) p q" and "0 < q"
    and "real p / real q = real_of_int \<bar>i\<bar> / real_of_int n"
proof -
  obtain m e where a: "dbl_of_int i = Fin (i < 0) m e" "real m * 2 powi e = real_of_int \<bar>i\<bar>"
    by (rule dbl_of_int_exact [OF assms(1)])
  obtain m' e' where b: "dbl_of_int n = Fin False m' e'" "real m' * 2 powi e' = real_of_int n" "m' \<noteq> 0"
    by (rule dbl_of_int_pos [OF assms(2,3)])
  have "real (scale_num m (e' - e)) / real (scale_den m' (e' - e)) = real m / real m' / 2 powi (e' - e)"
    using b(3) by (intro scale_frac) simp
  also have "\<dots> = (real m * 2 powi e) / (real m' * 2 powi e')" by (simp add: power_int_diff)
  finally have "real (scale_num m (e' - e)) / real (scale_den m' (e' - e)) = real_of_int \<bar>i\<bar> / real_of_int n"
    using a(2) b(2) by simp
  moreover have "0 < scale_den m' (e' - e)" using b(3) by (simp add: scale_den_pos)
  ultimately show ?thesis using a(1) b(1,3) that by simp
qed

lemma average_near:
  assumes "\<bar>i\<bar> \<le> 2 ^ 31" and "0 < n" and "n < 2 ^ 53"
  obtains m e where "dbl_div (dbl_of_int i) (dbl_of_int n) = Fin (i < 0) m e"
    and "\<bar>real m * 2 powi e - real_of_int \<bar>i\<bar> / real_of_int n\<bar> \<le> 1 / 2 ^ 22" and "real m * 2 powi e \<le> 2 ^ 31"
proof -
  have "\<bar>i\<bar> < 2 ^ 53" using assms(1) by simp
  from quotient_frac [OF this assms(2,3)] obtain p q where
    d: "dbl_div (dbl_of_int i) (dbl_of_int n) = dbl_round (i < 0) p q" and q: "0 < q"
    and f: "real p / real q = real_of_int \<bar>i\<bar> / real_of_int n" by blast
  show ?thesis
  proof (cases "p = 0")
    case True
    with f assms(2) have "i = 0" by simp
    with True show ?thesis using that [of 0 "-1074"] d by (simp add: dbl_round_def)
  next
    case False
    then have p: "0 < p" by simp
    have "real_of_int \<bar>i\<bar> / real_of_int n \<le> 2 ^ 31 / 1" using assms(1,2) by (intro frac_le) simp_all
    then have le: "real p / real q \<le> 2 powi 31" using f by (simp add: powi_nat)
    obtain m e where m: "dbl_round (i < 0) p q = Fin (i < 0) m e" "dbl_wf (Fin (i < 0) m e)"
      "real m * 2 powi e = real (round_sig p q) * 2 powi round_exp p q" "real m * 2 powi e \<le> 2 powi 31"
      by (rule dbl_round_fin [OF p q le, of "i < 0"]) simp_all
    have "round_exp p q \<le> -21" using log_frac_le [OF p q le] by (simp add: round_exp_def)
    then have "2 powi round_exp p q \<le> (2 :: real) powi (-21)" using powi_le_iff by blast
    moreover have "(2 :: real) powi (-21) = 1 / 2 ^ 21" by (simp add: powi_neg)
    ultimately have "\<bar>real m * 2 powi e - real p / real q\<bar> \<le> 1 / 2 ^ 22"
      using round_sig_near [OF q, of p] m(3) by simp
    then show ?thesis using that [of m e] m(1,4) d f by (simp add: powi_nat)
  qed
qed

lemma average_exact:
  assumes "0 < k" and "0 < n" and "k * n < 2 ^ 53"
  obtains m e where "dbl_div (dbl_of_int (k * n)) (dbl_of_int n) = Fin False m e" and "real m * 2 powi e = real (nat k)"
proof -
  have kn: "0 < k * n" "\<bar>k * n\<bar> < 2 ^ 53" using assms by simp_all
  have "1 * n \<le> k * n" "k * 1 \<le> k * n" using assms by (intro mult_right_mono mult_left_mono; simp)+
  then have b: "n < 2 ^ 53" "k < 2 ^ 53" using assms(3) by simp_all
  from quotient_frac [OF kn(2) assms(2) b(1)] obtain p q where
    d: "dbl_div (dbl_of_int (k * n)) (dbl_of_int n) = dbl_round (k * n < 0) p q" and q: "0 < q"
    and f: "real p / real q = real_of_int \<bar>k * n\<bar> / real_of_int n" by blast
  have "real p = real (nat k) * real q" using f q assms kn by (simp add: abs_mult field_simps)
  then have "real p = real (nat k * q)" by simp
  then have "p = nat k * q" by (simp only: of_nat_eq_iff)
  moreover have "0 < nat k" "nat k < 2 ^ 53" using assms(1) b(2) by (simp_all add: nat_less_iff)
  ultimately show ?thesis using round_exact [of "nat k" q False] q d kn(1) that by auto
qed

subsection \<open>The columns\<close>

lemma ValidIntArray_samples:
  assumes "0 \<le> tot" and "tot \<le> int (length ints)" and "tot \<le> 2147400000"
    and "sum_list (map (\<lambda>v. \<bar>sint v\<bar>) (samples ints tot)) < 2 ^ 31"
  shows "ValidIntArray nan_text ints tot = Inr (average_text nan_text
    (dbl_of_int (sum_list (map sint (samples ints tot)))) (int (length (samples ints tot))))"
  using foldE_add_int [of 0 "samples ints tot"] assms(4) valid_loop_samples [OF assms(1-3), of add_int 0]
  by (auto simp: ValidIntArray_def)

lemma ValidStringArray_samples:
  assumes "0 \<le> tot" and "tot \<le> int (length ts)" and "tot \<le> 2147400000"
  shows "ValidStringArray nan_text ts tot = Inr (average_text nan_text
    (dbl_of_int (sint (of_nat (sum_list (map length (samples ts tot))) :: s32))) (int (length (samples ts tot))))"
  using valid_loop_samples [OF assms, of add_length 0] by (simp add: ValidStringArray_def foldE_add_length)

lemma ValidDoubleArray_samples:
  assumes "0 \<le> tot" and "tot \<le> int (length ds)" and "tot \<le> 2147400000"
  obtains s where "foldE add_double dbl_zero (samples ds tot) = Inr s" and "dbl_wf s"
    and "ValidDoubleArray nan_text ds tot = Inr (average_text nan_text s (int (length (samples ds tot))))"
proof -
  have "dbl_wf dbl_zero" by (simp add: dbl_zero_def dbl_wf_def)
  from foldE_add_double [OF this] obtain s where s: "foldE add_double dbl_zero (samples ds tot) = Inr s" "dbl_wf s" by blast
  then have "ValidDoubleArray nan_text ds tot = Inr (average_text nan_text s (int (length (samples ds tot))))"
    using valid_loop_samples [OF assms, of add_double dbl_zero] by (simp add: ValidDoubleArray_def)
  with s show ?thesis by (rule that)
qed

lemma length_samples: "0 \<le> tot \<Longrightarrow> int (length (samples xs tot)) = (tot + 99999) div 100000"
  by (simp add: samples_def)

lemma length_samples_bound: "0 \<le> tot \<Longrightarrow> tot \<le> 2147400000 \<Longrightarrow> length (samples xs tot) \<le> 21474"
  by (simp add: samples_def nat_le_iff)

lemma samples_cong:
  assumes "\<And>k. int k * 100000 < tot \<Longrightarrow> xs ! (100000 * k) = ys ! (100000 * k)"
  shows "samples xs tot = samples ys tot"
proof -
  have "xs ! (100000 * k) = ys ! (100000 * k)" if "k < nat ((tot + 99999) div 100000)" for k
    by (rule assms) (use that in linarith)
  then show ?thesis by (simp add: samples_def)
qed

lemma set_samples: "0 \<le> tot \<Longrightarrow> x \<in> set (samples xs tot) \<Longrightarrow> \<exists>k < nat tot. x = xs ! k"
proof -
  assume "0 \<le> tot" and "x \<in> set (samples xs tot)"
  then obtain j where "j < nat ((tot + 99999) div 100000)" "x = xs ! (100000 * j)" by (auto simp: samples_def)
  moreover from this have "100000 * j < nat tot" by linarith
  ultimately show ?thesis by blast
qed

lemma length_average_int:
  assumes "\<bar>i\<bar> \<le> 2 ^ 31" and "n \<le> 21474"
  shows "length (average_text nan_text (dbl_of_int i) (int n)) \<le> 16"
proof (cases "n = 0")
  case False
  with assms have "0 < int n" "int n < 2 ^ 53" by simp_all
  from average_near [OF assms(1) this] obtain m e where
    d: "dbl_div (dbl_of_int i) (dbl_of_int (int n)) = Fin (i < 0) m e" "real m * 2 powi e \<le> 2 ^ 31" by metis
  from length_fmt4_fin [OF d(2), of 10 nan_text "i < 0"] d(1) False show ?thesis by (simp add: average_text_def)
qed (simp add: average_text_def)

lemma length_average_double:
  assumes "dbl_wf s" and "length nan_text \<le> 5"
  shows "length (average_text nan_text s n) \<le> 315"
  using length_fmt4 [OF dbl_wf_div assms(2), of s "dbl_of_int n"] by (simp add: average_text_def)

lemma abs_sum_list: "\<bar>sum_list (map sint vs)\<bar> \<le> sum_list (map (\<lambda>v. \<bar>sint v\<bar>) vs)"
  by (induction vs) auto

lemma valid_loop_cong:
  assumes "samples xs tot = samples ys tot" and "0 \<le> tot" and "tot \<le> 2147400000"
    and "tot \<le> int (length xs)" and "tot \<le> int (length ys)"
  shows "valid_loop add xs tot 0 s 0 = valid_loop add ys tot 0 s 0"
  unfolding valid_loop_samples [OF assms(2,4,3)] valid_loop_samples [OF assms(2,5,3)] assms(1) ..

subsection \<open>Properties\<close>

text \<open>(C20) The number printed for a column of ints is the average of every 100000th row, off by at most
  half a unit of the last place plus the error of one division in double precision. It needs the
  absolute values of these rows to add up to less than \<open>2 ^ 31\<close>.\<close>

theorem ValidIntArray_average:
  assumes "0 < tot" and "tot \<le> int (length ints)" and "tot \<le> 2147400000"
    and "sum_list (map (\<lambda>v. \<bar>sint v\<bar>) (samples ints tot)) < 2 ^ 31"
    and "i = sum_list (map sint (samples ints tot))" and "n = length (samples ints tot)"
  shows "\<exists>N. ValidIntArray nan_text ints tot
      = Inr ((if i < 0 then [45] else []) @ print_nat (N div 10000) @ [46] @ pad4 (N mod 10000)) \<and>
    \<bar>real N / 10000 - \<bar>real_of_int i / real n\<bar>\<bar> \<le> 1 / 20000 + 1 / 2 ^ 22"
proof -
  have "\<bar>i\<bar> \<le> sum_list (map (\<lambda>v. \<bar>sint v\<bar>) (samples ints tot))"
    unfolding assms(5) by (rule abs_sum_list)
  then have i: "\<bar>i\<bar> \<le> 2 ^ 31" using assms(4) by linarith
  have "int n = (tot + 99999) div 100000" using assms(1,6) by (simp add: length_samples)
  then have "0 < int n" "int n \<le> 21474" using assms(1,3) by linarith+
  then have n: "0 < int n" "int n < 2 ^ 53" by simp_all
  obtain m e where d: "dbl_div (dbl_of_int i) (dbl_of_int (int n)) = Fin (i < 0) m e"
    "\<bar>real m * 2 powi e - real_of_int \<bar>i\<bar> / real_of_int (int n)\<bar> \<le> 1 / 2 ^ 22"
    by (rule average_near [OF i n])
  have "ValidIntArray nan_text ints tot
      = Inr ((if i < 0 then [45] else []) @ print_nat (dec4 m e div 10000) @ [46] @ pad4 (dec4 m e mod 10000))"
    using ValidIntArray_samples [of tot ints nan_text] assms n(1) d(1) by (simp add: average_text_def fmt4_def)
  moreover have "\<bar>real_of_int i / real n\<bar> = real_of_int \<bar>i\<bar> / real_of_int (int n)" by (simp add: abs_divide)
  moreover have "\<bar>real (dec4 m e) / 10000 - real_of_int \<bar>i\<bar> / real_of_int (int n)\<bar> \<le> 1 / 20000 + 1 / 2 ^ 22"
    using dec4_near [of m e] d(2) by linarith
  ultimately show ?thesis by metis
qed

theorem ValidIntArray_average_witness:
  "\<exists>N. ValidIntArray [] [7, -1] 2
      = Inr ((if (7 :: int) < 0 then [45] else []) @ print_nat (N div 10000) @ [46] @ pad4 (N mod 10000)) \<and>
    \<bar>real N / 10000 - \<bar>real_of_int 7 / real 1\<bar>\<bar> \<le> 1 / 20000 + 1 / 2 ^ 22"
  by (rule ValidIntArray_average) (simp_all add: samples_def)

text \<open>(C23) The text is a function of the sampled rows alone: two files of the same number of rows that
  agree on the rows 0, 100000, 200000 and so on are validated alike, whatever the rest of them is.\<close>

theorem getValidResult_sampled:
  assumes "cols_ok cv" and "cols_ok cv'" and "cv_total cv' = cv_total cv" and "cv_total cv \<le> 2147400000"
    and "\<forall>k. 100000 * k < nat (cv_total cv) \<longrightarrow>
      stringVal1 cv ! (100000 * k) = stringVal1 cv' ! (100000 * k) \<and> intVal cv ! (100000 * k) = intVal cv' ! (100000 * k) \<and>
      doubles cv ! (100000 * k) = doubles cv' ! (100000 * k) \<and> stringVal2 cv ! (100000 * k) = stringVal2 cv' ! (100000 * k)"
  shows "getValidResult nan_text cv = getValidResult nan_text cv'"
proof -
  have *: "100000 * k < nat (cv_total cv)" if "int k * 100000 < cv_total cv" for k using that by linarith
  have s: "samples (stringVal1 cv) (cv_total cv) = samples (stringVal1 cv') (cv_total cv)"
    "samples (intVal cv) (cv_total cv) = samples (intVal cv') (cv_total cv)"
    "samples (doubles cv) (cv_total cv) = samples (doubles cv') (cv_total cv)"
    "samples (stringVal2 cv) (cv_total cv) = samples (stringVal2 cv') (cv_total cv)"
    using assms(5) * by (auto intro!: samples_cong)
  have len: "0 \<le> cv_total cv" "length (stringVal1 cv) = nat (cv_total cv)" "length (intVal cv) = nat (cv_total cv)"
    "length (doubles cv) = nat (cv_total cv)" "length (stringVal2 cv) = nat (cv_total cv)"
    "length (stringVal1 cv') = nat (cv_total cv)" "length (intVal cv') = nat (cv_total cv)"
    "length (doubles cv') = nat (cv_total cv)" "length (stringVal2 cv') = nat (cv_total cv)"
    using assms(1-3) by (simp_all add: cols_ok_def)
  have "ValidStringArray nan_text (stringVal1 cv) (cv_total cv) = ValidStringArray nan_text (stringVal1 cv') (cv_total cv)"
    "ValidIntArray nan_text (intVal cv) (cv_total cv) = ValidIntArray nan_text (intVal cv') (cv_total cv)"
    "ValidDoubleArray nan_text (doubles cv) (cv_total cv) = ValidDoubleArray nan_text (doubles cv') (cv_total cv)"
    "ValidStringArray nan_text (stringVal2 cv) (cv_total cv) = ValidStringArray nan_text (stringVal2 cv') (cv_total cv)"
    unfolding ValidStringArray_def ValidIntArray_def ValidDoubleArray_def
    by (subst s [THEN valid_loop_cong]; use assms(4) len in simp)+
  then show ?thesis by (simp only: getValidResult_def assms(3))
qed

text \<open>Two files that differ in their second row.\<close>

definition sample_cols' :: ColValue where
  "sample_cols' = \<lparr>cv_total = 3, stringVal1 = [[97], [], [99]], intVal = [1, -5, 3],
     doubles = [dbl_zero, NaN, dbl_zero], stringVal2 = [[], [1], []]\<rparr>"

theorem getValidResult_sampled_witness:
  "getValidResult [] sample_cols = getValidResult [] sample_cols'"
proof -
  have "(100000 :: nat) * k < 3 \<longleftrightarrow> k = 0" for k by arith
  then show ?thesis by (intro getValidResult_sampled) (simp_all add: cols_ok_def sample_cols_def sample_cols'_def)
qed

text \<open>The index of the loops is an \<open>int\<close> that is advanced before it is compared: above 2147400000
  rows, which is below \<open>INT_MAX\<close>, the last advance overflows.\<close>

theorem getValidResult_index_overflow:
  assumes "cols_ok cv" and "2147400000 < cv_total cv"
  shows "getValidResult nan_text cv = Inl Int_overflow"
proof -
  have "\<exists>s'. add_length s t = Inr s'" for s t by (simp add: add_length_def)
  from valid_loop_overflow [OF assms(2) _ this, where xs = "stringVal1 cv" and k = 0 and s = 0 and cnt = 0] assms(1)
  have "ValidStringArray nan_text (stringVal1 cv) (cv_total cv) = Inl Int_overflow"
    by (simp add: ValidStringArray_def cols_ok_def)
  then show ?thesis by (simp add: getValidResult_def)
qed

theorem getValidResult_index_overflow_witness:
  "getValidResult [] \<lparr>cv_total = 2147483647, stringVal1 = replicate (nat 2147483647) [], intVal = replicate (nat 2147483647) 0,
     doubles = replicate (nat 2147483647) dbl_zero, stringVal2 = replicate (nat 2147483647) []\<rparr> = Inl Int_overflow"
  by (rule getValidResult_index_overflow) (simp_all only: cols_ok_def ColValue.simps length_replicate, simp_all)

lemma sint_s32_abs: "\<bar>sint (w :: s32)\<bar> \<le> 2 ^ 31"
  using sint_lt [of w] sint_ge [of w] by (simp add: abs_le_iff)

lemma valid_shape:
  assumes "cols_ok cv" and "cv_total cv \<le> 2147400000" and "length nan_text \<le> 5"
    and "sum_list (map (\<lambda>v. \<bar>sint v\<bar>) (samples (intVal cv) (cv_total cv))) < 2 ^ 31"
  obtains d where "length d \<le> 315" and "getValidResult nan_text cv = Inr (label ''strings1: '' @
      average_text nan_text (dbl_of_int (sint (of_nat (sum_list (map length (samples (stringVal1 cv) (cv_total cv)))) :: s32)))
        (int (length (samples (stringVal1 cv) (cv_total cv)))) @
    label '', ints: '' @
      average_text nan_text (dbl_of_int (sum_list (map sint (samples (intVal cv) (cv_total cv)))))
        (int (length (samples (intVal cv) (cv_total cv)))) @
    label '', doubles: '' @ d @ label '', strings2: '' @
      average_text nan_text (dbl_of_int (sint (of_nat (sum_list (map length (samples (stringVal2 cv) (cv_total cv)))) :: s32)))
        (int (length (samples (stringVal2 cv) (cv_total cv)))))"
proof -
  have len: "0 \<le> cv_total cv" "cv_total cv \<le> int (length (stringVal1 cv))" "cv_total cv \<le> int (length (intVal cv))"
    "cv_total cv \<le> int (length (doubles cv))" "cv_total cv \<le> int (length (stringVal2 cv))"
    using assms(1) by (simp_all add: cols_ok_def)
  obtain s where s: "dbl_wf s" "ValidDoubleArray nan_text (doubles cv) (cv_total cv)
      = Inr (average_text nan_text s (int (length (samples (doubles cv) (cv_total cv)))))"
    by (rule ValidDoubleArray_samples [OF len(1,4) assms(2)])
  show ?thesis
    by (rule that [OF length_average_double [OF s(1) assms(3)]])
      (simp add: getValidResult_def s(2) ValidStringArray_samples [OF len(1,2) assms(2)]
        ValidIntArray_samples [OF len(1,3) assms(2,4)] ValidStringArray_samples [OF len(1,5) assms(2)])
qed

lemma length_label: "length (label t) = length t"
  by (simp add: label_def)

lemma valid_length:
  assumes "cols_ok cv" and "cv_total cv \<le> 2147400000" and "length nan_text \<le> 5"
    and "sum_list (map (\<lambda>v. \<bar>sint v\<bar>) (samples (intVal cv) (cv_total cv))) < 2 ^ 31"
  obtains a b where "getValidResult nan_text cv = Inr (a @ label ''strings2: '' @ b)"
    and "length (a @ label ''strings2: '' @ b) \<le> 404"
proof -
  have n: "length (samples xs (cv_total cv)) \<le> 21474" for xs :: "'x list"
    using assms(1,2) by (simp add: length_samples_bound cols_ok_def)
  have i: "\<bar>sum_list (map sint (samples (intVal cv) (cv_total cv)))\<bar> \<le> 2 ^ 31"
    using abs_sum_list [of "samples (intVal cv) (cv_total cv)"] assms(4) by linarith
  obtain d where d: "length d \<le> 315" "getValidResult nan_text cv = Inr (label ''strings1: '' @
      average_text nan_text (dbl_of_int (sint (of_nat (sum_list (map length (samples (stringVal1 cv) (cv_total cv)))) :: s32)))
        (int (length (samples (stringVal1 cv) (cv_total cv)))) @
    label '', ints: '' @
      average_text nan_text (dbl_of_int (sum_list (map sint (samples (intVal cv) (cv_total cv)))))
        (int (length (samples (intVal cv) (cv_total cv)))) @
    label '', doubles: '' @ d @ label '', strings2: '' @
      average_text nan_text (dbl_of_int (sint (of_nat (sum_list (map length (samples (stringVal2 cv) (cv_total cv)))) :: s32)))
        (int (length (samples (stringVal2 cv) (cv_total cv)))))" (is "_ = Inr (_ @ ?s1 @ _ @ ?i1 @ _ @ d @ _ @ ?s2)")
    by (rule valid_shape [OF assms])
  have le: "length ?s1 \<le> 16" "length ?i1 \<le> 16" "length ?s2 \<le> 16"
    by (rule length_average_int [OF sint_s32_abs n] length_average_int [OF i n])+
  have split: "label '', strings2: '' = label '', '' @ label ''strings2: ''" by (simp add: label_def)
  show ?thesis
  proof (rule that)
    show "getValidResult nan_text cv = Inr ((label ''strings1: '' @ ?s1 @ label '', ints: '' @ ?i1 @ label '', doubles: '' @
        d @ label '', '') @ label ''strings2: '' @ ?s2)" using d(2) by (simp add: split)
    show "length ((label ''strings1: '' @ ?s1 @ label '', ints: '' @ ?i1 @ label '', doubles: '' @
        d @ label '', '') @ label ''strings2: '' @ ?s2) \<le> 404"
      using le d(1) by (simp add: length_label)
  qed
qed

lemma average_const:
  assumes "0 < k" and "0 < n" and "n \<le> 21474" and "k \<le> 1000"
  shows "average_text nan_text (dbl_of_int (k * int n)) (int n) = print_nat (nat k) @ [46, 48, 48, 48, 48]"
proof -
  have "k * int n \<le> 1000 * 21474" using assms by (intro mult_mono) simp_all
  then have "k * int n < 2 ^ 53" by simp
  moreover have "0 < int n" using assms(2) by simp
  ultimately obtain m e where d: "dbl_div (dbl_of_int (k * int n)) (dbl_of_int (int n)) = Fin False m e" "real m * 2 powi e = real (nat k)"
    using average_exact [OF assms(1), of "int n"] by metis
  then show ?thesis using assms(2) dec4_exact [OF d(2)] by (simp add: average_text_def fmt4_def pad4_def)
qed

lemma sum_list_const: "\<forall>x \<in> set xs. f x = c \<Longrightarrow> sum_list (map f xs) = length xs * (c :: nat)"
  by (induction xs) simp_all

lemma sum_list_bound: "\<forall>x \<in> set xs. f x \<le> (c :: int) \<Longrightarrow> sum_list (map f xs) \<le> int (length xs) * c"
  by (induction xs) (simp_all add: distrib_right add.commute add_mono)

lemma average_lengths:
  assumes "0 < n" and "n \<le> 21474" and "n = length (samples ts tot)" and "\<forall>t \<in> set (samples ts tot). length t = k"
    and "0 < k" and "k \<le> 1000"
  shows "average_text nan_text (dbl_of_int (sint (of_nat (sum_list (map length (samples ts tot))) :: s32))) (int n)
    = print_nat k @ [46, 48, 48, 48, 48]"
proof -
  have "n * k \<le> 21474 * 1000" using assms by (intro mult_mono) simp_all
  then have "sint (of_nat (n * k) :: s32) = int (n * k)" by (intro sint_s32_of_nat) simp
  then have "sint (of_nat (sum_list (map length (samples ts tot))) :: s32) = int k * int n"
    unfolding sum_list_const [OF assms(4)] assms(3) [symmetric] by simp
  then show ?thesis using average_const [of "int k" n] assms by simp
qed

lemma generated_text:
  assumes "arrow_contract ar" and "\<forall>k. draws_ok (rnd k)" and "0 < tot" and "tot \<le> 2147400000"
    and "createDataFile ar rnd opened tot filePath fs = Inr fs'" and "length nan_text \<le> 5"
  shows "\<exists>i d. getValidResult_file nan_text ar fs' filePath tot
    = Inr (label ''strings1: 20.0000, ints: '' @ i @ label '', doubles: '' @ d @ label '', strings2: 2.0000'')"
proof -
  have t: "0 \<le> tot" "tot < 2 ^ 31" using assms(3,4) by simp_all
  obtain cv where
    rd: "readDataFromFile ar fs' filePath tot = Inr cv" and ok: "cols_ok cv" and tot: "cv_total cv = tot"
    and rows: "\<forall>k < nat tot. row_ok cv k"
    by (rule created_rows [OF assms(1,2) t assms(5)])
  have n: "length (samples xs tot) \<le> 21474" "0 < length (samples xs tot)" for xs :: "'x list"
    using assms(3,4) by (simp_all add: length_samples_bound) (simp add: samples_def)
  have rs: "\<forall>t \<in> set (samples (stringVal1 cv) tot). length t = 20" "\<forall>t \<in> set (samples (stringVal2 cv) tot). length t = 2"
    "\<forall>v \<in> set (samples (intVal cv) tot). \<bar>sint v\<bar> \<le> 10"
    using rows set_samples [OF t(1)] unfolding row_ok_def by fastforce+
  have "int (length (samples (intVal cv) tot)) * 10 \<le> 21474 * 10" using n(1) [of "intVal cv"] by linarith
  then have "sum_list (map (\<lambda>v. \<bar>sint v\<bar>) (samples (intVal cv) tot)) < 2 ^ 31" using sum_list_bound [OF rs(3)] by simp
  with valid_shape [OF ok _ assms(6)] assms(4) obtain d i where v: "getValidResult nan_text cv = Inr (label ''strings1: '' @
      average_text nan_text (dbl_of_int (sint (of_nat (sum_list (map length (samples (stringVal1 cv) tot))) :: s32)))
        (int (length (samples (stringVal1 cv) tot))) @ label '', ints: '' @ i @
    label '', doubles: '' @ d @ label '', strings2: '' @
      average_text nan_text (dbl_of_int (sint (of_nat (sum_list (map length (samples (stringVal2 cv) tot))) :: s32)))
        (int (length (samples (stringVal2 cv) tot))))" unfolding tot by metis
  have "getValidResult nan_text cv
      = Inr (label ''strings1: 20.0000, ints: '' @ i @ label '', doubles: '' @ d @ label '', strings2: 2.0000'')"
    unfolding v average_lengths [OF n(2,1) refl rs(1), simplified] average_lengths [OF n(2,1) refl rs(2), simplified]
    by (simp add: label_def print_nat.simps)
  then have "getValidResult_file nan_text ar fs' filePath tot
      = Inr (label ''strings1: 20.0000, ints: '' @ i @ label '', doubles: '' @ d @ label '', strings2: 2.0000'')"
    using rd by (simp only: getValidResult_file_def sum.case)
  then show ?thesis by blast
qed

end
