(* ===== verification/Send_Program.thy ===== *)
theory Send_Program
  imports Thread_Pool Send_Supervise Valid_Util
begin

section \<open>The sending program (main.cc)\<close>

text \<open>
  The main thread of the sender and the workers of its pool, interleaved. The main thread goes
  through \<open>main\<close> statement by statement; a worker takes a task, executes it and finishes it. A task
  that sends a slice is one step, at the moment it reads \<open>args_\<close>: it shares nothing else with the
  other threads. The supervisor ends when its events make it end.
\<close>

subsection \<open>Generating and verifying\<close>

text \<open>The flags \<open>gen_file\<close> and \<open>verify\<close> are looked at first; the program then ends without a transfer.\<close>

datatype local_result = Generated "c_error + file_system" | Verified "c_error + byte list" | Transferring

definition main_local ::
    "byte list \<Rightarrow> arrow \<Rightarrow> (nat \<Rightarrow> row_draws) \<Rightarrow> bool \<Rightarrow> bool \<Rightarrow> bool \<Rightarrow> s32 \<Rightarrow> string \<Rightarrow> file_system \<Rightarrow> local_result" where
  "main_local nan_text ar rnd opened gen_file verify file_rows file_path fs =
     (if gen_file then Generated (createDataFile ar rnd opened (sint file_rows) file_path fs)
      else if verify then Verified (getValidResult_file nan_text ar fs file_path (sint file_rows))
      else Transferring)"

subsection \<open>The transfer\<close>

datatype task = SupTask | SendTask nat

text \<open>Where the main thread is: before \<open>SplitFile\<close>, before \<open>Init\<close>, in the loop that enqueues the slices,
  before \<open>Destory\<close>, waiting for a slice or for the supervisor, returning (the destructor of the pool
  comes next), in the destructor, gone; or the process died of an error or an exception.\<close>

datatype main_at =
    AtSplit | AtInit | AtEnqueue nat | AtDestory | AtWait nat | AtWaitSup | AtReturn int | AtJoin int
  | Ended int | Died c_error

text \<open>What the program meets: libzstd, flags and file, the connection for the header and one for each
  slice, and the events of the supervisor.\<close>

record 'c send_env =
  en_zstd :: "'c zstd_c"
  en_flags :: flags
  en_garbage :: u64
  en_fs :: file_system
  en_path :: string
  en_connected :: bool
  en_stale :: "byte list \<Rightarrow> byte list"
  en_header_rs :: "nat sys list"
  en_slice_connected :: "nat \<Rightarrow> bool"
  en_slice_rs :: "nat \<Rightarrow> nat sys list"
  en_waits :: "wait_result list"
  en_pend :: "int \<Rightarrow> byte list"

text \<open>The state: main thread, static members of the compressor, pool, slices, what was sent of the
  header, and what the tasks that were executed did.\<close>

record sender =
  sd_main :: main_at
  sd_util :: zstd_util
  sd_pool :: "task ThreadPool"
  sd_slices :: "file_slice list"
  sd_header :: "byte list"
  sd_results :: "nat \<Rightarrow> byte list option option"
  sd_verdict :: "ss_result option"

text \<open>Nothing can be read through a pointer that is not a mapping.\<close>

fun mapped_bytes :: "mapping \<Rightarrow> byte list" where
  "mapped_bytes (Mapped mem) = mem"
| "mapped_bytes _ = []"

definition en_file :: "'c send_env \<Rightarrow> byte list \<times> u64" where
  "en_file en = (case ReadArrowFile (en_garbage en) (en_fs en) (en_path en) of (m, n) \<Rightarrow> (mapped_bytes m, n))"

text \<open>\<open>ThreadPool(FLAGS_jobs+1)\<close>: an int addition, then a conversion to \<open>size_t\<close>.\<close>

definition pool_size :: "s32 \<Rightarrow> c_error + nat" where
  "pool_size jobs' = (if sint jobs' = int_max then Inl Int_overflow else Inr (unat (scast (jobs' + 1) :: u64)))"

text \<open>Up to the point where the supervisor is enqueued.\<close>

definition send_start :: "'c send_env \<Rightarrow> sender" where
  "send_start en = (case pool_size (jobs (en_flags en)) of
     Inl e \<Rightarrow> \<lparr>sd_main = Died e, sd_util = zstd_util_start, sd_pool = make_pool 0, sd_slices = [], sd_header = [],
               sd_results = (\<lambda>_. None), sd_verdict = None\<rparr>
   | Inr n \<Rightarrow> \<lparr>sd_main = AtSplit, sd_util = zstd_util_start, sd_pool = enqueue SupTask (make_pool n), sd_slices = [],
               sd_header = [], sd_results = (\<lambda>_. None), sd_verdict = None\<rparr>)"

text \<open>The next statement of the main thread; \<open>None\<close> when it waits or is gone. \<open>get\<close> of the supervisor's
  future rethrows its exception, which nobody catches.\<close>

fun main_step_at :: "'c send_env \<Rightarrow> main_at \<Rightarrow> sender \<Rightarrow> sender option" where
  "main_step_at en AtSplit s =
     (case SplitFile (en_flags en) (fst (en_file en)) (snd (en_file en)) of
        None \<Rightarrow> None
      | Some (Inl e) \<Rightarrow> Some (s\<lparr>sd_main := Died e\<rparr>)
      | Some (Inr (fs, _)) \<Rightarrow> Some (s\<lparr>sd_main := AtInit, sd_slices := fs\<rparr>))"
| "main_step_at en AtInit s =
     (case SendingFlow_Init (sd_util s) (en_connected en) (en_stale en) (snd (en_file en))
             (of_nat (length (sd_slices s))) (en_header_rs en) of
        Running \<Rightarrow> None
      | Crash e \<Rightarrow> Some (s\<lparr>sd_main := Died e\<rparr>)
      | Done (r, u, out) \<Rightarrow>
          Some (s\<lparr>sd_main := (if r \<noteq> 0 then AtReturn (-1) else AtEnqueue 0), sd_util := u, sd_header := out\<rparr>))"
| "main_step_at en (AtEnqueue j) s =
     Some (if j < length (sd_slices s) then s\<lparr>sd_main := AtEnqueue (Suc j), sd_pool := enqueue (SendTask j) (sd_pool s)\<rparr>
           else s\<lparr>sd_main := AtDestory\<rparr>)"
| "main_step_at en AtDestory s = Some (s\<lparr>sd_main := AtWait 0, sd_util := snd (SendingFlow_Destory (sd_util s))\<rparr>)"
| "main_step_at en (AtWait j) s =
     (if j < length (sd_slices s)
      then (if SendTask j \<in> set (tp_finished (sd_pool s)) then Some (s\<lparr>sd_main := AtWait (Suc j)\<rparr>) else None)
      else Some (s\<lparr>sd_main := AtWaitSup\<rparr>))"
| "main_step_at en AtWaitSup s =
     (if SupTask \<in> set (tp_finished (sd_pool s))
      then Some (s\<lparr>sd_main := (case sd_verdict s of Some (SSThrow e) \<Rightarrow> Died e | _ \<Rightarrow> AtReturn 0)\<rparr>)
      else None)"
| "main_step_at en (AtReturn r) s = Some (s\<lparr>sd_main := AtJoin r, sd_pool := pool_stop (sd_pool s)\<rparr>)"
| "main_step_at en (AtJoin r) s = (if joined (sd_pool s) then Some (s\<lparr>sd_main := Ended r\<rparr>) else None)"
| "main_step_at en (Ended r) s = None"
| "main_step_at en (Died e) s = None"

definition main_step :: "'c send_env \<Rightarrow> sender \<Rightarrow> sender option" where
  "main_step en s = main_step_at en (sd_main s) s"

text \<open>A worker executes its task.\<close>

definition exec_slice :: "'c send_env \<Rightarrow> nat \<Rightarrow> sender \<Rightarrow> sender option" where
  "exec_slice en j s =
     (case SendingFlow_Run (en_zstd en) (sd_util s) (en_slice_connected en j) (sd_slices s ! j) (en_slice_rs en j) of
        Running \<Rightarrow> None
      | Crash e \<Rightarrow> Some (s\<lparr>sd_main := Died e\<rparr>)
      | Done out \<Rightarrow> Some (s\<lparr>sd_results := (sd_results s)(j \<mapsto> out)\<rparr>))"

definition exec_supervise :: "'c send_env \<Rightarrow> sender \<Rightarrow> sender option" where
  "exec_supervise en s =
     (case SendingFlow_Supervise (en_waits en) (en_pend en) of
        SSLoop _ _ \<Rightarrow> None
      | SSReading \<Rightarrow> None
      | r \<Rightarrow> Some (s\<lparr>sd_verdict := Some r\<rparr>))"

fun executed :: "sender \<Rightarrow> task \<Rightarrow> bool" where
  "executed s SupTask \<longleftrightarrow> sd_verdict s \<noteq> None"
| "executed s (SendTask j) \<longleftrightarrow> sd_results s j \<noteq> None"

fun exec_task :: "'c send_env \<Rightarrow> task \<Rightarrow> sender \<Rightarrow> sender option" where
  "exec_task en SupTask s = exec_supervise en s"
| "exec_task en (SendTask j) s = exec_slice en j s"

fun alive :: "main_at \<Rightarrow> bool" where
  "alive (Ended _) = False"
| "alive (Died _) = False"
| "alive _ = True"

inductive send_step :: "'c send_env \<Rightarrow> sender \<Rightarrow> sender \<Rightarrow> bool" for en where
  main: "main_step en s = Some s' \<Longrightarrow> send_step en s s'"
| exec: "alive (sd_main s) \<Longrightarrow> Busy t \<in> set (tp_threads (sd_pool s)) \<Longrightarrow> \<not> executed s t \<Longrightarrow> exec_task en t s = Some s' \<Longrightarrow>
    send_step en s s'"
| work: "alive (sd_main s) \<Longrightarrow> pool_work (sd_pool s) p \<Longrightarrow> list_all (executed s) (tp_finished p) \<Longrightarrow>
    send_step en s (s\<lparr>sd_pool := p\<rparr>)"
| spurious: "alive (sd_main s) \<Longrightarrow> i < length (tp_threads (sd_pool s)) \<Longrightarrow> tp_threads (sd_pool s) ! i = Blocked \<Longrightarrow>
    send_step en s (s\<lparr>sd_pool := worker_wake i (sd_pool s)\<rparr>)"

subsection \<open>The invariant\<close>

text \<open>How many slices are in the queue and how many are known to be done, for each place of the main
  thread, and what else holds there.\<close>

fun queued :: "main_at \<Rightarrow> nat \<Rightarrow> nat" where
  "queued AtSplit n = 0"
| "queued AtInit n = 0"
| "queued (AtEnqueue j) n = j"
| "queued (AtReturn r) n = (if r = 0 then n else 0)"
| "queued (AtJoin r) n = (if r = 0 then n else 0)"
| "queued (Ended r) n = (if r = 0 then n else 0)"
| "queued _ n = n"

fun awaited :: "main_at \<Rightarrow> nat \<Rightarrow> nat" where
  "awaited (AtWait j) n = j"
| "awaited AtWaitSup n = n"
| "awaited (AtReturn r) n = (if r = 0 then n else 0)"
| "awaited (AtJoin r) n = (if r = 0 then n else 0)"
| "awaited (Ended r) n = (if r = 0 then n else 0)"
| "awaited _ n = 0"

fun returned :: "main_at \<Rightarrow> int option" where
  "returned (AtReturn r) = Some r"
| "returned (AtJoin r) = Some r"
| "returned (Ended r) = Some r"
| "returned _ = None"

fun stopped :: "main_at \<Rightarrow> bool" where
  "stopped (AtJoin _) = True"
| "stopped (Ended _) = True"
| "stopped _ = False"

definition util_init :: zstd_util where
  "util_init = snd (ZSTDCompressUtil_Init zstd_util_start)"

definition slice_run :: "'c send_env \<Rightarrow> file_slice list \<Rightarrow> nat \<Rightarrow> byte list option run" where
  "slice_run en fs j = SendingFlow_Run (en_zstd en) util_init (en_slice_connected en j) (fs ! j) (en_slice_rs en j)"

definition util_inv :: "main_at \<Rightarrow> zstd_util \<Rightarrow> bool" where
  "util_inv m u \<longleftrightarrow> (if m = AtSplit \<or> m = AtInit then u = zstd_util_start else u = util_init \<or> args u = None)"

definition tasks_inv :: "'c send_env \<Rightarrow> sender \<Rightarrow> bool" where
  "tasks_inv en s \<longleftrightarrow> list_all (executed s) (tp_finished (sd_pool s)) \<and>
     (\<forall>j out. sd_results s j = Some out \<longrightarrow> j < length (sd_slices s) \<and> slice_run en (sd_slices s) j = Done out) \<and>
     (\<forall>r. sd_verdict s = Some r \<longrightarrow> r = SendingFlow_Supervise (en_waits en) (en_pend en) \<and> r \<noteq> SSReading \<and> (\<forall>p t. r \<noteq> SSLoop p t))"

definition main_inv :: "'c send_env \<Rightarrow> sender \<Rightarrow> bool" where
  "main_inv en s \<longleftrightarrow>
     (let m = sd_main s; n = length (sd_slices s); p = sd_pool s in
     pool_inv p \<and> tp_stop p = stopped m \<and> queued m n \<le> n \<and> tp_enqueued p = SupTask # map SendTask [0..<queued m n] \<and>
     (\<forall>j < awaited m n. SendTask j \<in> set (tp_finished p)) \<and> (returned m = Some 0 \<longrightarrow> SupTask \<in> set (tp_finished p)) \<and>
     (m \<noteq> AtSplit \<longrightarrow> (\<exists>fl. SplitFile (en_flags en) (fst (en_file en)) (snd (en_file en)) = Some (Inr (sd_slices s, fl)))) \<and>
     (m \<noteq> AtSplit \<and> m \<noteq> AtInit \<and> (\<forall>r. returned m = Some r \<longrightarrow> r = 0) \<longrightarrow>
        SendingFlow_Init zstd_util_start (en_connected en) (en_stale en) (snd (en_file en))
          (of_nat n) (en_header_rs en) = Done (0, util_init, sd_header s)) \<and>
     (\<forall>r. m = Ended r \<longrightarrow> joined p) \<and> (m = AtSplit \<longrightarrow> sd_slices s = []))"

definition send_inv :: "'c send_env \<Rightarrow> sender \<Rightarrow> bool" where
  "send_inv en s \<longleftrightarrow> (\<exists>e. sd_main s = Died e) \<or> util_inv (sd_main s) (sd_util s) \<and> tasks_inv en s \<and> main_inv en s"

text \<open>Without \<open>args_\<close> a task either crashes or never gets to use them.\<close>

lemma run_without_args:
  assumes "args u = None" and "SendingFlow_Run z u c f rs = Done out"
  shows "SendingFlow_Run z u' c f rs = Done out"
  using assms by (auto simp: SendingFlow_Run_def Compress_def Let_def split: option.splits)

lemma exec_slice_run:
  assumes "util_inv m u" and "m \<noteq> AtSplit" and "m \<noteq> AtInit"
    and "SendingFlow_Run (en_zstd en) u (en_slice_connected en j) (fs ! j) (en_slice_rs en j) = Done out"
  shows "slice_run en fs j = Done out"
  using assms run_without_args [of u _ _ _ _ out util_init] by (auto simp: util_inv_def slice_run_def)

lemma Init_util:
  assumes "SendingFlow_Init u c st n k rs = Done (r, u', out)"
  shows "u' = snd (ZSTDCompressUtil_Init u)"
  using assms by (auto simp: SendingFlow_Init_def split: prod.splits run.splits if_splits)

lemma send_start_inv: "send_inv en (send_start en)"
proof (cases "pool_size (jobs (en_flags en))")
  case (Inr n)
  have "pool_inv (make_pool n :: task ThreadPool)" by (rule reach_pool_inv [OF rtranclp.rtrancl_refl])
  then have "pool_inv (enqueue SupTask (make_pool n))" by (rule pool_step_inv [rotated]) (simp add: pool_step.enq make_pool_def)
  then show ?thesis
    using Inr by (simp add: send_start_def send_inv_def util_inv_def tasks_inv_def main_inv_def Let_def enqueue_def make_pool_def)
qed (simp add: send_start_def send_inv_def)

lemma executed_cong:
  "sd_results s' = sd_results s \<Longrightarrow> sd_verdict s' = sd_verdict s \<Longrightarrow> executed s' t = executed s t"
  by (cases t) simp_all

lemma executed_mono:
  assumes "\<And>j. sd_results s j \<noteq> None \<Longrightarrow> sd_results s' j \<noteq> None" and "sd_verdict s \<noteq> None \<Longrightarrow> sd_verdict s' \<noteq> None"
  shows "list_all (executed s) ts \<Longrightarrow> list_all (executed s') ts"
proof -
  have "executed s t \<Longrightarrow> executed s' t" for t using assms by (cases t) auto
  then show "list_all (executed s) ts \<Longrightarrow> list_all (executed s') ts" by (auto simp: list_all_iff)
qed

text \<open>Steps of the pool.\<close>

lemma work_inv:
  assumes "send_inv en s" and "alive (sd_main s)" and "pool_work (sd_pool s) p" and "list_all (executed s) (tp_finished p)"
  shows "send_inv en (s\<lparr>sd_pool := p\<rparr>)"
proof -
  let ?s = "s\<lparr>sd_pool := p\<rparr>"
  have inv: "util_inv (sd_main s) (sd_util s)" "tasks_inv en s" "main_inv en s" using assms(1,2) by (auto simp: send_inv_def)
  have "list_all (executed ?s) (tp_finished p)"
    by (rule executed_mono [OF _ _ assms(4)]) simp_all
  then have t: "tasks_inv en ?s" using inv(2) by (simp add: tasks_inv_def)
  have "\<forall>r. sd_main s \<noteq> Ended r" using assms(2) by auto
  then have "main_inv en ?s"
    using inv(3) pool_work_inv [OF assms(3)] work_keeps [OF assms(3)] work_finished [OF assms(3)]
    by (auto simp: main_inv_def Let_def)
  with inv t show ?thesis by (simp add: send_inv_def)
qed

lemma spurious_inv:
  assumes "send_inv en s" and "alive (sd_main s)" and "i < length (tp_threads (sd_pool s))"
    and "tp_threads (sd_pool s) ! i = Blocked"
  shows "send_inv en (s\<lparr>sd_pool := worker_wake i (sd_pool s)\<rparr>)"
proof -
  let ?p = "worker_wake i (sd_pool s)"
  let ?s = "s\<lparr>sd_pool := ?p\<rparr>"
  have inv: "util_inv (sd_main s) (sd_util s)" "tasks_inv en s" "main_inv en s" using assms(1,2) by (auto simp: send_inv_def)
  have same: "tp_finished ?p = tp_finished (sd_pool s)" "tp_stop ?p = tp_stop (sd_pool s)"
    "tp_enqueued ?p = tp_enqueued (sd_pool s)" by (simp_all add: worker_wake_def)
  have "list_all (executed s) (tp_finished (sd_pool s))" using inv(2) by (simp add: tasks_inv_def)
  then have "list_all (executed ?s) (tp_finished (sd_pool s))" by (rule executed_mono [rotated 2]) simp_all
  then have t: "tasks_inv en ?s" using inv(2) same by (simp add: tasks_inv_def)
  have "pool_inv (sd_pool s)" using inv(3) by (simp add: main_inv_def Let_def)
  then have "pool_inv ?p" using pool_step_inv pool_step.spurious assms(3,4) by blast
  moreover have "\<forall>r. sd_main s \<noteq> Ended r" using assms(2) by auto
  ultimately have "main_inv en ?s" using inv(3) same by (simp add: main_inv_def Let_def)
  with inv t show ?thesis by (simp add: send_inv_def)
qed

text \<open>A task that is executed.\<close>

lemma exec_inv:
  assumes "send_inv en s" and "alive (sd_main s)" and "Busy t \<in> set (tp_threads (sd_pool s))" and "exec_task en t s = Some s'"
  shows "send_inv en s'"
proof -
  have inv: "util_inv (sd_main s) (sd_util s)" "tasks_inv en s" "main_inv en s" using assms(1,2) by (auto simp: send_inv_def)
  have "pool_inv (sd_pool s)" using inv(3) by (simp add: main_inv_def Let_def)
  from busy_enqueued [OF this assms(3)] have enq: "t \<in> set (tp_enqueued (sd_pool s))" .
  show ?thesis
  proof (cases t)
    case SupTask
    then obtain r where s': "s' = s\<lparr>sd_verdict := Some r\<rparr>" "r = SendingFlow_Supervise (en_waits en) (en_pend en)"
      "r \<noteq> SSReading" "\<forall>p t. r \<noteq> SSLoop p t"
      using assms(4) by (auto simp: exec_supervise_def split: ss_result.splits)
    have "list_all (executed s) (tp_finished (sd_pool s))" using inv(2) by (simp add: tasks_inv_def)
    then have "list_all (executed s') (tp_finished (sd_pool s))" by (rule executed_mono [rotated 2]) (simp_all add: s'(1))
    then have "tasks_inv en s'" using inv(2) s' by (simp add: tasks_inv_def)
    moreover have "main_inv en s'" using inv(3) s'(1) by (simp add: main_inv_def Let_def)
    ultimately show ?thesis using inv(1) s'(1) by (simp add: send_inv_def)
  next
    case (SendTask j)
    have q: "j < queued (sd_main s) (length (sd_slices s))" "queued (sd_main s) (length (sd_slices s)) \<le> length (sd_slices s)"
      using enq SendTask inv(3) by (auto simp: main_inv_def Let_def)
    show ?thesis
    proof (cases "SendingFlow_Run (en_zstd en) (sd_util s) (en_slice_connected en j) (sd_slices s ! j) (en_slice_rs en j)")
      case (Done out)
      then have s': "s' = s\<lparr>sd_results := (sd_results s)(j \<mapsto> out)\<rparr>" using assms(4) SendTask by (simp add: exec_slice_def)
      have "sd_main s \<noteq> AtSplit" "sd_main s \<noteq> AtInit" using q(1) by auto
      from exec_slice_run [OF inv(1) this Done] have "slice_run en (sd_slices s) j = Done out" .
      moreover have "list_all (executed s) (tp_finished (sd_pool s))" using inv(2) by (simp add: tasks_inv_def)
      then have "list_all (executed s') (tp_finished (sd_pool s))" by (rule executed_mono [rotated 2]) (simp_all add: s')
      ultimately have "tasks_inv en s'" using inv(2) s' q by (auto simp: tasks_inv_def)
      moreover have "main_inv en s'" using inv(3) s' by (simp add: main_inv_def Let_def)
      ultimately show ?thesis using inv(1) s' by (simp add: send_inv_def)
    qed (use assms(4) SendTask in \<open>auto simp: exec_slice_def send_inv_def\<close>)
  qed
qed

text \<open>Steps of the main thread.\<close>

lemma tasks_inv_cong:
  assumes "tasks_inv en s" and "sd_results s' = sd_results s" and "sd_verdict s' = sd_verdict s"
    and "tp_finished (sd_pool s') = tp_finished (sd_pool s)" and "sd_slices s' = sd_slices s \<or> sd_slices s = []"
  shows "tasks_inv en s'"
proof -
  have "list_all (executed s) (tp_finished (sd_pool s))" using assms(1) by (simp add: tasks_inv_def)
  then have "list_all (executed s') (tp_finished (sd_pool s))" by (rule executed_mono [rotated 2]) (simp_all add: assms(2,3))
  then show ?thesis using assms by (auto simp: tasks_inv_def)
qed

lemma SplitFile_step:
  assumes "send_inv en s" and "sd_main s = AtSplit" and "main_step_at en AtSplit s = Some s'"
  shows "send_inv en s'"
proof (cases "\<exists>e. sd_main s' = Died e")
  case False
  then obtain fs fl where f: "SplitFile (en_flags en) (fst (en_file en)) (snd (en_file en)) = Some (Inr (fs, fl))"
    and s': "s' = s\<lparr>sd_main := AtInit, sd_slices := fs\<rparr>"
    using assms(3) by (auto split: option.splits sum.splits)
  have inv: "util_inv AtSplit (sd_util s)" "tasks_inv en s" "main_inv en s" using assms(1,2) by (auto simp: send_inv_def)
  have "tasks_inv en s'" by (rule tasks_inv_cong [OF inv(2)]) (use s' inv(3) assms(2) in \<open>simp_all add: main_inv_def Let_def\<close>)
  moreover have "main_inv en s'" using inv(3) assms(2) s' f by (simp add: main_inv_def Let_def)
  ultimately show ?thesis using inv(1) s' by (simp add: send_inv_def util_inv_def)
qed (auto simp: send_inv_def)

lemma Init_step:
  assumes "send_inv en s" and "sd_main s = AtInit" and "main_step_at en AtInit s = Some s'"
  shows "send_inv en s'"
proof (cases "\<exists>e. sd_main s' = Died e")
  case False
  have inv: "sd_util s = zstd_util_start" "tasks_inv en s" "main_inv en s" using assms(1,2) by (auto simp: send_inv_def util_inv_def)
  from False obtain r u out where i: "SendingFlow_Init zstd_util_start (en_connected en) (en_stale en) (snd (en_file en))
             (of_nat (length (sd_slices s))) (en_header_rs en) = Done (r, u, out)"
    and s': "s' = s\<lparr>sd_main := (if r \<noteq> 0 then AtReturn (-1) else AtEnqueue 0), sd_util := u, sd_header := out\<rparr>"
    using assms(3) inv(1) by (auto split: run.splits)
  have u: "u = util_init" using Init_util [OF i] by (simp only: util_init_def)
  have t: "tasks_inv en s'" by (rule tasks_inv_cong [OF inv(2)]) (simp_all add: s')
  have "main_inv en s'"
  proof (cases "r = 0")
    case True
    show ?thesis using inv(3) assms(2) i unfolding main_inv_def s' u True by (simp add: Let_def)
  next
    case False
    then show ?thesis using inv(3) assms(2) unfolding main_inv_def s' by (simp add: Let_def)
  qed
  with t show ?thesis using u s' by (simp add: send_inv_def util_inv_def)
qed (auto simp: send_inv_def)

lemma enqueue_step:
  assumes "main_inv en s" and "sd_main s = AtEnqueue j" and "j < length (sd_slices s)"
  shows "main_inv en (s\<lparr>sd_main := AtEnqueue (Suc j), sd_pool := enqueue (SendTask j) (sd_pool s)\<rparr>)"
  using assms unfolding main_inv_def
  by (simp add: Let_def enqueue_inv) (simp add: enqueue_def)

lemma join_step:
  assumes "main_inv en s" and "sd_main s = AtReturn r"
  shows "main_inv en (s\<lparr>sd_main := AtJoin r, sd_pool := pool_stop (sd_pool s)\<rparr>)"
  using assms unfolding main_inv_def
  by (simp add: Let_def stop_inv) (simp add: pool_stop_def)

lemma move_step:
  assumes "main_inv en s" and "m = AtDestory \<and> (\<exists>j. sd_main s = AtEnqueue j \<and> \<not> j < length (sd_slices s)) \<or>
    m = AtWait 0 \<and> sd_main s = AtDestory \<or> (\<exists>j. m = AtWait (Suc j) \<and> sd_main s = AtWait j \<and> j < length (sd_slices s) \<and> SendTask j \<in> set (tp_finished (sd_pool s)))
    \<or> m = AtWaitSup \<and> (\<exists>j. sd_main s = AtWait j \<and> \<not> j < length (sd_slices s))
    \<or> m = AtReturn 0 \<and> sd_main s = AtWaitSup \<and> SupTask \<in> set (tp_finished (sd_pool s))
    \<or> (\<exists>r. m = Ended r \<and> sd_main s = AtJoin r \<and> joined (sd_pool s))"
  shows "main_inv en (s\<lparr>sd_main := m, sd_util := u\<rparr>)"
  using assms(2)
proof (elim disjE exE conjE, goal_cases)
  case (1 j)
  then have "j = length (sd_slices s)" using assms(1) by (simp add: main_inv_def Let_def)
  then show ?case using assms(1) 1 by (simp add: main_inv_def Let_def)
next
  case 2
  then show ?case using assms(1) by (simp add: main_inv_def Let_def)
next
  case (3 j)
  then show ?case using assms(1) by (simp add: main_inv_def Let_def less_Suc_eq)
next
  case (4 j)
  then show ?case using assms(1) by (simp add: main_inv_def Let_def)
next
  case 5
  then show ?case using assms(1) by (simp add: main_inv_def Let_def)
next
  case (6 r)
  then show ?case using assms(1) by (simp add: main_inv_def Let_def)
qed

lemma later_step:
  assumes inv: "util_inv (sd_main s) (sd_util s)" "tasks_inv en s" "main_inv en s"
    and m: "sd_main s \<noteq> AtSplit" "sd_main s \<noteq> AtInit" and st: "main_step_at en (sd_main s) s = Some s'"
  shows "send_inv en s'"
proof (cases "\<exists>e. sd_main s' = Died e")
  case False
  have "tasks_inv en s'"
    by (rule tasks_inv_cong [OF inv(2)]; use st m in \<open>cases "sd_main s"; auto simp: enqueue_def pool_stop_def split: if_splits\<close>)
  moreover have "util_inv (sd_main s') (sd_util s')"
    using st m inv(1) False
    by (cases "sd_main s") (auto simp: util_inv_def SendingFlow_Destory_def ZSTDCompressUtil_Destory_def split: if_splits option.splits ss_result.splits)
  moreover have "main_inv en s'"
    using st m False enqueue_step [OF inv(3)] join_step [OF inv(3)] move_step [OF inv(3), where u = "sd_util s"]
      move_step [OF inv(3), where u = "snd (SendingFlow_Destory (sd_util s))"]
    by (cases "sd_main s") (auto split: if_splits option.splits ss_result.splits)
  ultimately show ?thesis by (simp add: send_inv_def)
qed (auto simp: send_inv_def)


lemma send_step_inv: "send_step en s s' \<Longrightarrow> send_inv en s \<Longrightarrow> send_inv en s'"
proof (induction rule: send_step.induct)
  case (main s s')
  show ?case
  proof (cases "sd_main s = AtSplit \<or> sd_main s = AtInit")
    case True
    then show ?thesis using main SplitFile_step [of en s s'] Init_step [of en s s'] by (auto simp: main_step_def)
  next
    case False
    moreover have "\<And>e. sd_main s \<noteq> Died e" using main(1) by (auto simp: main_step_def)
    ultimately show ?thesis using main later_step [of s en s'] by (auto simp: main_step_def send_inv_def)
  qed
next
  case (exec s t s')
  show ?case by (rule exec_inv [OF exec(5,1,2,4)])
next
  case (work s p)
  show ?case by (rule work_inv [OF work(4,1,2,3)])
next
  case (spurious s i)
  show ?case by (rule spurious_inv [OF spurious(4,1,2,3)])
qed

interpretation sending: invariant_system "\<lambda>s. s = send_start en" "send_step en" "send_inv en" for en
  by unfold_locales (auto simp: send_start_inv send_step_inv)

lemma reach_send_inv: "rtranclp (send_step en) (send_start en) s \<Longrightarrow> send_inv en s"
  by (rule sending.reach_inv [OF refl])

lemma exec_keeps: "exec_task en t s = Some s' \<Longrightarrow> sd_pool s' = sd_pool s"
  by (cases t) (auto simp: exec_slice_def exec_supervise_def split: run.splits ss_result.splits)

lemma main_keeps: "main_step_at en m s = Some s' \<Longrightarrow> length (tp_threads (sd_pool s')) = length (tp_threads (sd_pool s))"
  by (cases m) (auto simp: enqueue_def pool_stop_def split: option.splits sum.splits run.splits if_splits)

lemma send_threads:
  assumes "rtranclp (send_step en) (send_start en) s" and "pool_size (jobs (en_flags en)) = Inr n"
  shows "length (tp_threads (sd_pool s)) = n"
  using assms(1)
proof (induction rule: rtranclp_induct)
  case base
  then show ?case using assms(2) by (simp add: send_start_def enqueue_def make_pool_def)
next
  case (step s s')
  from step(2,3) show ?case
    by (induction rule: send_step.induct)
      (simp_all add: main_step_def main_keeps exec_keeps work_threads worker_wake_def)
qed

lemma pool_size_jobs:
  assumes "0 \<le> sint j" and "sint j < int_max"
  shows "pool_size j = Inr (Suc (nat (sint j)))"
proof -
  have "j + 1 = word_of_int (sint j + 1)" by simp
  moreover have "sint (word_of_int (sint j + 1) :: s32) = sint j + 1"
    by (rule sint_small) (use assms in \<open>simp_all add: int_max_def\<close>)
  ultimately have "sint (j + 1) = sint j + 1" by simp
  then have "unat (scast (j + 1) :: u64) = nat (sint j + 1)" using assms(1) unat_scast_s32 [of "j + 1"] by simp
  then show ?thesis using assms by (simp add: pool_size_def Suc_nat_eq_nat_zadd1)
qed

lemma ended_drained:
  assumes "rtranclp (send_step en) (send_start en) s" and "sd_main s = Ended r"
    and "0 \<le> sint (jobs (en_flags en))" and "sint (jobs (en_flags en)) < int_max"
  shows "mset (tp_finished (sd_pool s)) = mset (SupTask # map SendTask [0..<queued (Ended r) (length (sd_slices s))])"
    and "sd_verdict s = Some (SendingFlow_Supervise (en_waits en) (en_pend en))"
    and "\<And>p t. SendingFlow_Supervise (en_waits en) (en_pend en) \<noteq> SSLoop p t"
    and "SendingFlow_Supervise (en_waits en) (en_pend en) \<noteq> SSReading"
proof -
  have inv: "tasks_inv en s" "main_inv en s" using reach_send_inv [OF assms(1)] assms(2) by (auto simp: send_inv_def)
  have "length (tp_threads (sd_pool s)) = Suc (nat (sint (jobs (en_flags en))))"
    by (rule send_threads [OF assms(1) pool_size_jobs [OF assms(3,4)]])
  then have th: "tp_threads (sd_pool s) \<noteq> []" by auto
  have p: "pool_inv (sd_pool s)" "joined (sd_pool s)"
    "tp_enqueued (sd_pool s) = SupTask # map SendTask [0..<queued (Ended r) (length (sd_slices s))]"
    using inv(2) assms(2) by (simp_all add: main_inv_def Let_def)
  from joined_drained [OF p(1,2) th] p(3)
  show m: "mset (tp_finished (sd_pool s)) = mset (SupTask # map SendTask [0..<queued (Ended r) (length (sd_slices s))])"
    by metis
  have "SupTask \<in># mset (tp_finished (sd_pool s))" unfolding m by simp
  then have "executed s SupTask" using inv(1) unfolding tasks_inv_def list_all_iff by (metis set_mset_mset)
  then show "sd_verdict s = Some (SendingFlow_Supervise (en_waits en) (en_pend en))"
    "\<And>p t. SendingFlow_Supervise (en_waits en) (en_pend en) \<noteq> SSLoop p t"
    "SendingFlow_Supervise (en_waits en) (en_pend en) \<noteq> SSReading"
    using inv(1) by (auto simp: tasks_inv_def)
qed

subsection \<open>Schedules\<close>

text \<open>The main thread up to \<open>Destory\<close>, with the workers idle.\<close>

lemma enqueue_all:
  assumes "sd_main s = AtEnqueue j" and "j \<le> length (sd_slices s)"
  shows "\<exists>p. rtranclp (send_step en) s (s\<lparr>sd_main := AtDestory, sd_pool := p\<rparr>) \<and> tp_threads p = tp_threads (sd_pool s) \<and>
    tp_tasks p = tp_tasks (sd_pool s) @ map SendTask [j..<length (sd_slices s)] \<and> tp_finished p = tp_finished (sd_pool s)"
  using assms
proof (induction "length (sd_slices s) - j" arbitrary: s j)
  case 0
  then have "main_step en s = Some (s\<lparr>sd_main := AtDestory\<rparr>)" by (simp add: main_step_def)
  then have "rtranclp (send_step en) s (s\<lparr>sd_main := AtDestory, sd_pool := sd_pool s\<rparr>)"
    by (intro r_into_rtranclp) (simp add: send_step.main)
  then show ?case using 0 by (intro exI [of _ "sd_pool s"]) simp
next
  case (Suc d)
  let ?s = "s\<lparr>sd_main := AtEnqueue (Suc j), sd_pool := enqueue (SendTask j) (sd_pool s)\<rparr>"
  have j: "j < length (sd_slices s)" using Suc.hyps(2) by simp
  then have "main_step en s = Some ?s" using Suc.prems by (simp add: main_step_def)
  then have st: "send_step en s ?s" by (rule send_step.main)
  have "d = length (sd_slices ?s) - Suc j" using Suc.hyps(2) by simp
  from Suc.hyps(1) [OF this] j obtain p where
    p: "rtranclp (send_step en) ?s (?s\<lparr>sd_main := AtDestory, sd_pool := p\<rparr>)" "tp_threads p = tp_threads (sd_pool s)"
    "tp_tasks p = tp_tasks (sd_pool s) @ map SendTask [j..<length (sd_slices s)]" "tp_finished p = tp_finished (sd_pool s)"
    by (auto simp: enqueue_def upt_conv_Cons)
  show ?case by (rule exI [of _ p]) (use converse_rtranclp_into_rtranclp [OF st p(1)] p in simp)
qed

lemma main_to_Destory:
  assumes "SplitFile (en_flags en) (fst (en_file en)) (snd (en_file en)) = Some (Inr (fs, fl))"
    and "SendingFlow_Init zstd_util_start (en_connected en) (en_stale en) (snd (en_file en))
      (of_nat (length fs)) (en_header_rs en) = Done (0, u, out)"
    and "pool_size (jobs (en_flags en)) = Inr n"
  obtains p where "rtranclp (send_step en) (send_start en) \<lparr>sd_main = AtDestory, sd_util = util_init, sd_pool = p,
      sd_slices = fs, sd_header = out, sd_results = (\<lambda>_. None), sd_verdict = None\<rparr>"
    and "tp_threads p = replicate n Checking" and "tp_tasks p = SupTask # map SendTask [0..<length fs]"
    and "tp_finished p = []"
proof -
  let ?p = "enqueue SupTask (make_pool n)"
  let ?s1 = "\<lparr>sd_main = AtInit, sd_util = zstd_util_start, sd_pool = ?p, sd_slices = fs, sd_header = [],
      sd_results = (\<lambda>_. None), sd_verdict = None\<rparr>"
  let ?s2 = "\<lparr>sd_main = AtEnqueue 0, sd_util = util_init, sd_pool = ?p, sd_slices = fs, sd_header = out,
      sd_results = (\<lambda>_. None), sd_verdict = None\<rparr>"
  have u: "u = util_init" using Init_util [OF assms(2)] by (simp only: util_init_def)
  have "send_step en (send_start en) ?s1" by (rule send_step.main) (simp add: main_step_def send_start_def assms(1,3))
  moreover have "send_step en ?s1 ?s2" by (rule send_step.main) (simp add: main_step_def assms(2) u)
  ultimately have st: "rtranclp (send_step en) (send_start en) ?s2" by (rule rtranclp.rtrancl_into_rtrancl [OF r_into_rtranclp])
  from enqueue_all [of ?s2 0 en] obtain p where
    p: "rtranclp (send_step en) ?s2 (?s2\<lparr>sd_main := AtDestory, sd_pool := p\<rparr>)" "tp_threads p = tp_threads ?p"
      "tp_tasks p = tp_tasks ?p @ map SendTask [0..<length fs]" "tp_finished p = tp_finished ?p" by auto
  have "?s2\<lparr>sd_main := AtDestory, sd_pool := p\<rparr> = \<lparr>sd_main = AtDestory, sd_util = util_init, sd_pool = p,
      sd_slices = fs, sd_header = out, sd_results = (\<lambda>_. None), sd_verdict = None\<rparr>" by simp
  with rtranclp_trans [OF st p(1)] p(2-4) that show ?thesis by (simp add: enqueue_def make_pool_def)
qed

lemma unset_args: "ZSTD_createCCtx z \<noteq> None \<Longrightarrow> args u = None \<Longrightarrow> SendingFlow_Run z u c f rs = Crash UseAfterFree"
  by (auto simp: SendingFlow_Run_def Compress_def Let_def)

text \<open>What an exit with 0 leaves behind.\<close>

lemma exit_0_facts:
  assumes "rtranclp (send_step en) (send_start en) s" and "sd_main s = Ended 0"
    and "0 \<le> sint (jobs (en_flags en))" and "sint (jobs (en_flags en)) < int_max"
  shows "(\<exists>fl. SplitFile (en_flags en) (fst (en_file en)) (snd (en_file en)) = Some (Inr (sd_slices s, fl))) \<and>
    SendingFlow_Init zstd_util_start (en_connected en) (en_stale en) (snd (en_file en))
      (of_nat (length (sd_slices s))) (en_header_rs en) = Done (0, util_init, sd_header s) \<and>
    mset (tp_finished (sd_pool s)) = mset (SupTask # map SendTask [0..<length (sd_slices s)]) \<and>
    (\<forall>j < length (sd_slices s). \<exists>out. sd_results s j = Some out \<and> slice_run en (sd_slices s) j = Done out)"
proof (intro conjI allI impI)
  have inv: "tasks_inv en s" "main_inv en s" using reach_send_inv [OF assms(1)] assms(2) by (auto simp: send_inv_def)
  then show "\<exists>fl. SplitFile (en_flags en) (fst (en_file en)) (snd (en_file en)) = Some (Inr (sd_slices s, fl))"
    "SendingFlow_Init zstd_util_start (en_connected en) (en_stale en) (snd (en_file en))
      (of_nat (length (sd_slices s))) (en_header_rs en) = Done (0, util_init, sd_header s)"
    using assms(2) by (simp_all add: main_inv_def Let_def)
  show "mset (tp_finished (sd_pool s)) = mset (SupTask # map SendTask [0..<length (sd_slices s)])"
    using ended_drained(1) [OF assms] by simp
  fix j assume "j < length (sd_slices s)"
  then have "SendTask j \<in> set (tp_finished (sd_pool s))" using inv(2) assms(2) by (simp add: main_inv_def Let_def)
  then have "executed s (SendTask j)" using inv(1) unfolding tasks_inv_def list_all_iff by blast
  then obtain out where "sd_results s j = Some out" by auto
  then show "\<exists>out. sd_results s j = Some out \<and> slice_run en (sd_slices s) j = Done out"
    using inv(1) by (auto simp: tasks_inv_def)
qed

text \<open>One worker that does all the work before \<open>Destory\<close>.\<close>

fun can_exec :: "'c send_env \<Rightarrow> file_slice list \<Rightarrow> task \<Rightarrow> bool" where
  "can_exec en fs SupTask \<longleftrightarrow> (\<exists>c x k. SendingFlow_Supervise (en_waits en) (en_pend en) = SSReturn c x k)"
| "can_exec en fs (SendTask j) \<longleftrightarrow> (\<exists>out. slice_run en fs j = Done out)"

lemma exec_one:
  assumes "can_exec en (sd_slices s) t" and "sd_util s = util_init"
  obtains r v where "exec_task en t s = Some (s\<lparr>sd_results := r, sd_verdict := v\<rparr>)" and "executed (s\<lparr>sd_results := r, sd_verdict := v\<rparr>) t"
    and "\<forall>t'. t' \<noteq> t \<longrightarrow> executed (s\<lparr>sd_results := r, sd_verdict := v\<rparr>) t' = executed s t'"
    and "t = SupTask \<longrightarrow> (\<forall>e. v \<noteq> Some (SSThrow e))" and "t \<noteq> SupTask \<longrightarrow> v = sd_verdict s"
proof (cases t)
  case SupTask
  with assms(1) obtain c x k where r: "SendingFlow_Supervise (en_waits en) (en_pend en) = SSReturn c x k" by auto
  have ex: "executed (s\<lparr>sd_results := sd_results s, sd_verdict := Some (SSReturn c x k)\<rparr>) t' = executed s t'"
    if "t' \<noteq> SupTask" for t' using that by (cases t') simp_all
  show ?thesis
    by (rule that [where r = "sd_results s" and v = "Some (SSReturn c x k)"]) (use SupTask r ex in \<open>simp_all add: exec_supervise_def\<close>)
next
  case (SendTask j)
  with assms(1) obtain out where r: "slice_run en (sd_slices s) j = Done out" by auto
  have ex: "executed (s\<lparr>sd_results := (sd_results s)(j \<mapsto> out), sd_verdict := sd_verdict s\<rparr>) t' = executed s t'"
    if "t' \<noteq> SendTask j" for t' using that by (cases t') simp_all
  show ?thesis
    by (rule that [where r = "(sd_results s)(j \<mapsto> out)" and v = "sd_verdict s"])
      (use SendTask r ex assms(2) in \<open>simp_all add: exec_slice_def slice_run_def\<close>)
qed

lemma serve_one:
  assumes "alive (sd_main s)" and "sd_util s = util_init" and "i < length (tp_threads (sd_pool s))"
    and "tp_threads (sd_pool s) ! i = Checking" and "tp_tasks (sd_pool s) = t # ts"
    and "list_all (executed s) (tp_finished (sd_pool s))" and "can_exec en (sd_slices s) t" and "\<not> executed s t"
  obtains r v p where "rtranclp (send_step en) s (s\<lparr>sd_pool := p, sd_results := r, sd_verdict := v\<rparr>)"
    and "tp_threads p = tp_threads (sd_pool s)" and "tp_tasks p = ts" and "tp_finished p = tp_finished (sd_pool s) @ [t]"
    and "list_all (executed (s\<lparr>sd_pool := p, sd_results := r, sd_verdict := v\<rparr>)) (tp_finished p)"
    and "\<forall>t'. t' \<noteq> t \<longrightarrow> executed (s\<lparr>sd_pool := p, sd_results := r, sd_verdict := v\<rparr>) t' = executed s t'"
    and "(\<forall>e. sd_verdict s \<noteq> Some (SSThrow e)) \<longrightarrow> (\<forall>e. v \<noteq> Some (SSThrow e))" and "t \<noteq> SupTask \<longrightarrow> v = sd_verdict s"
proof -
  let ?p1 = "worker_check i (sd_pool s)"
  let ?p2 = "worker_finish i t ?p1"
  let ?s1 = "s\<lparr>sd_pool := ?p1\<rparr>"
  have p1: "tp_threads ?p1 = (tp_threads (sd_pool s))[i := Busy t]" "tp_tasks ?p1 = ts" "tp_finished ?p1 = tp_finished (sd_pool s)"
    using assms(5) by (simp_all add: worker_check_def)
  have ex1: "executed ?s1 t' = executed s t'" for t' by (cases t') simp_all
  have c: "can_exec en (sd_slices ?s1) t" "sd_util ?s1 = util_init" using assms(2,7) by simp_all
  obtain r v where
    x: "exec_task en t ?s1 = Some (?s1\<lparr>sd_results := r, sd_verdict := v\<rparr>)" "executed (?s1\<lparr>sd_results := r, sd_verdict := v\<rparr>) t"
      "\<forall>t'. t' \<noteq> t \<longrightarrow> executed (?s1\<lparr>sd_results := r, sd_verdict := v\<rparr>) t' = executed ?s1 t'"
      "t = SupTask \<longrightarrow> (\<forall>e. v \<noteq> Some (SSThrow e))" "t \<noteq> SupTask \<longrightarrow> v = sd_verdict ?s1"
    by (rule exec_one [OF c])
  let ?s2 = "?s1\<lparr>sd_results := r, sd_verdict := v\<rparr>"
  let ?s3 = "s\<lparr>sd_pool := ?p2, sd_results := r, sd_verdict := v\<rparr>"
  have ex3: "executed ?s3 t' = executed ?s2 t'" for t' by (cases t') simp_all
  have "executed ?s2 t'" if "executed s t' \<or> t' = t" for t' using that x(2,3) ex1 by (cases "t' = t") auto
  then have fin: "list_all (executed ?s2) (tp_finished ?p2)"
    using assms(6) p1(3) by (auto simp: worker_finish_def list_all_iff)
  have "send_step en s ?s1"
    by (rule send_step.work [OF assms(1) pool_work.check [OF assms(3,4)]]) (simp only: p1(3) assms(6))
  moreover have "send_step en ?s1 ?s2"
    by (rule send_step.exec [OF _ _ _ x(1)]) (use assms(1,3,8) p1(1) ex1 in \<open>simp_all add: set_update_memI\<close>)
  moreover have "send_step en ?s2 (?s2\<lparr>sd_pool := ?p2\<rparr>)"
    by (rule send_step.work [OF _ _ fin]) (use assms(1) pool_work.finish [of i ?p1 t] assms(3) p1(1) in simp_all)
  moreover have "?s2\<lparr>sd_pool := ?p2\<rparr> = ?s3" by simp
  ultimately have "rtranclp (send_step en) s ?s3" by (auto intro: converse_rtranclp_into_rtranclp)
  then show ?thesis
  proof (rule that)
    show "list_all (executed ?s3) (tp_finished ?p2)" using fin unfolding list_all_iff ex3 .
    show "\<forall>t'. t' \<noteq> t \<longrightarrow> executed ?s3 t' = executed s t'" using x(3) unfolding ex3 ex1 .
    show "(\<forall>e. sd_verdict s \<noteq> Some (SSThrow e)) \<longrightarrow> (\<forall>e. v \<noteq> Some (SSThrow e))"
      using x(4,5) by (cases "t = SupTask") simp_all
    show "tp_threads ?p2 = tp_threads (sd_pool s)"
      using p1(1) assms(3,4) list_update_id [of "tp_threads (sd_pool s)" i] by (simp add: worker_finish_def)
  qed (use p1 x(5) in \<open>simp_all add: worker_finish_def\<close>)
qed

lemma serve_all:
  assumes "alive (sd_main s)" and "sd_util s = util_init" and "i < length (tp_threads (sd_pool s))"
    and "tp_threads (sd_pool s) ! i = Checking" and "tp_tasks (sd_pool s) = ts" and "distinct ts"
    and "list_all (executed s) (tp_finished (sd_pool s))" and "\<forall>t \<in> set ts. can_exec en (sd_slices s) t \<and> \<not> executed s t"
    and "\<forall>e. sd_verdict s \<noteq> Some (SSThrow e)"
  shows "\<exists>r v p. rtranclp (send_step en) s (s\<lparr>sd_pool := p, sd_results := r, sd_verdict := v\<rparr>) \<and>
    tp_finished p = tp_finished (sd_pool s) @ ts \<and> (\<forall>e. v \<noteq> Some (SSThrow e)) \<and>
    tp_threads p = tp_threads (sd_pool s) \<and> tp_tasks p = [] \<and> (SupTask \<notin> set ts \<longrightarrow> v = sd_verdict s)"
  using assms
proof (induction ts arbitrary: s)
  case Nil
  then show ?case
    by (intro exI [of _ "sd_results s"] exI [of _ "sd_verdict s"] exI [of _ "sd_pool s"]) simp
next
  case (Cons t ts)
  have "can_exec en (sd_slices s) t" "\<not> executed s t" using Cons.prems(8) by simp_all
  then obtain r v p where sv: "rtranclp (send_step en) s (s\<lparr>sd_pool := p, sd_results := r, sd_verdict := v\<rparr>)"
    "tp_threads p = tp_threads (sd_pool s)" "tp_tasks p = ts"
    "tp_finished p = tp_finished (sd_pool s) @ [t]" "list_all (executed (s\<lparr>sd_pool := p, sd_results := r, sd_verdict := v\<rparr>)) (tp_finished p)"
    "\<forall>t'. t' \<noteq> t \<longrightarrow> executed (s\<lparr>sd_pool := p, sd_results := r, sd_verdict := v\<rparr>) t' = executed s t'"
    "(\<forall>e. sd_verdict s \<noteq> Some (SSThrow e)) \<longrightarrow> (\<forall>e. v \<noteq> Some (SSThrow e))" "t \<noteq> SupTask \<longrightarrow> v = sd_verdict s"
    by (rule serve_one [OF Cons.prems(1-5,7)])
  let ?s = "s\<lparr>sd_pool := p, sd_results := r, sd_verdict := v\<rparr>"
  have "\<exists>r' v' p'. rtranclp (send_step en) ?s (?s\<lparr>sd_pool := p', sd_results := r', sd_verdict := v'\<rparr>) \<and>
    tp_finished p' = tp_finished (sd_pool ?s) @ ts \<and> (\<forall>e. v' \<noteq> Some (SSThrow e)) \<and>
    tp_threads p' = tp_threads (sd_pool ?s) \<and> tp_tasks p' = [] \<and> (SupTask \<notin> set ts \<longrightarrow> v' = sd_verdict ?s)"
  proof (rule Cons.IH)
    show "\<forall>t' \<in> set ts. can_exec en (sd_slices ?s) t' \<and> \<not> executed ?s t'"
    proof
      fix t' assume t': "t' \<in> set ts"
      then have "t' \<noteq> t" using Cons.prems(6) by auto
      then have "executed ?s t' = executed s t'" using sv(6) by simp
      then show "can_exec en (sd_slices ?s) t' \<and> \<not> executed ?s t'" using Cons.prems(8) t' by simp
    qed
    show "list_all (executed ?s) (tp_finished (sd_pool ?s))" using sv(5) by simp
    show "\<forall>e. sd_verdict ?s \<noteq> Some (SSThrow e)" using sv(7) Cons.prems(9) by simp
  qed (use Cons.prems(1-6) sv(2-4) in simp_all)
  then obtain r' v' p' where st: "rtranclp (send_step en) ?s (?s\<lparr>sd_pool := p', sd_results := r', sd_verdict := v'\<rparr>)"
    and f: "tp_finished p' = tp_finished p @ ts" "\<forall>e. v' \<noteq> Some (SSThrow e)" "tp_threads p' = tp_threads p" "tp_tasks p' = []"
      "SupTask \<notin> set ts \<longrightarrow> v' = v" by auto
  have "?s\<lparr>sd_pool := p', sd_results := r', sd_verdict := v'\<rparr> = s\<lparr>sd_pool := p', sd_results := r', sd_verdict := v'\<rparr>" by simp
  with rtranclp_trans [OF sv(1) st] f sv(2,4,8) show ?case
    by (intro exI [of _ r'] exI [of _ v'] exI [of _ p']) auto
qed

lemma lift_work:
  assumes "rtranclp pool_work p p'" and "pool_inv p" and "alive (sd_main s)" and "\<forall>t \<in> set (tp_enqueued p). executed s t"
  shows "rtranclp (send_step en) (s\<lparr>sd_pool := p\<rparr>) (s\<lparr>sd_pool := p'\<rparr>) \<and> pool_inv p' \<and> tp_enqueued p' = tp_enqueued p"
  using assms(1)
proof (induction rule: rtranclp_induct)
  case base
  then show ?case using assms(2) by simp
next
  case (step q q')
  let ?s = "s\<lparr>sd_pool := q\<rparr>"
  have q': "pool_inv q'" "tp_enqueued q' = tp_enqueued p"
    using step pool_work_inv [OF step(2)] work_keeps [OF step(2)] by simp_all
  have "executed ?s t = executed s t" for t by (rule executed_cong) simp_all
  then have "list_all (executed ?s) (tp_finished q')"
    using finished_enqueued [OF q'(1)] q'(2) assms(4) by (auto simp: list_all_iff)
  then have "send_step en ?s (?s\<lparr>sd_pool := q'\<rparr>)" using step(2) assms(3) by (intro send_step.work) simp_all
  then show ?case using step(3) q' by (auto intro: rtranclp.rtrancl_into_rtrancl)
qed

lemma wait_all:
  assumes "sd_main s = AtWait j" and "j \<le> length (sd_slices s)" and "\<forall>i < length (sd_slices s). SendTask i \<in> set (tp_finished (sd_pool s))"
  shows "rtranclp (send_step en) s (s\<lparr>sd_main := AtWaitSup\<rparr>)"
  using assms
proof (induction "length (sd_slices s) - j" arbitrary: s j)
  case 0
  then have "main_step en s = Some (s\<lparr>sd_main := AtWaitSup\<rparr>)" by (simp add: main_step_def)
  then show ?case by (intro r_into_rtranclp send_step.main)
next
  case (Suc d)
  let ?s = "s\<lparr>sd_main := AtWait (Suc j)\<rparr>"
  have j: "j < length (sd_slices s)" using Suc.hyps(2) by simp
  then have "main_step en s = Some ?s" using Suc.prems by (simp add: main_step_def)
  moreover have "rtranclp (send_step en) ?s (?s\<lparr>sd_main := AtWaitSup\<rparr>)"
    by (rule Suc.hyps(1)) (use Suc.hyps(2) Suc.prems Suc_leI [OF j] in simp_all)
  ultimately show ?case by (auto intro: converse_rtranclp_into_rtranclp send_step.main)
qed

text \<open>From the last \<open>get\<close> to the end.\<close>

lemma return_ends:
  assumes "rtranclp (send_step en) (send_start en) s" and "sd_main s = AtReturn r"
    and "tp_threads (sd_pool s) \<noteq> []" and "\<forall>t \<in> set (tp_enqueued (sd_pool s)). executed s t"
  shows "\<exists>p. rtranclp (send_step en) s (s\<lparr>sd_main := Ended r, sd_pool := p\<rparr>)"
proof -
  let ?p = "pool_stop (sd_pool s)"
  let ?s1 = "s\<lparr>sd_main := AtJoin r\<rparr>"
  have "main_inv en s" using reach_send_inv [OF assms(1)] assms(2) by (auto simp: send_inv_def)
  then have "pool_inv (sd_pool s)" "\<not> tp_stop (sd_pool s)" using assms(2) by (simp_all add: main_inv_def Let_def)
  then have pi: "pool_inv ?p" by (rule stop_inv)
  have th: "tp_threads ?p \<noteq> []" "tp_stop ?p" using assms(3) by (simp_all add: pool_stop_def)
  have "executed ?s1 t = executed s t" for t by (rule executed_cong) simp_all
  then have ex: "\<forall>t \<in> set (tp_enqueued ?p). executed ?s1 t" using assms(4) by (simp add: pool_stop_def)
  have s1: "send_step en s (?s1\<lparr>sd_pool := ?p\<rparr>)" by (rule send_step.main) (simp add: main_step_def assms(2))
  obtain q where q: "rtranclp pool_work ?p q" "pool_inv q" "tp_threads q \<noteq> []" "tp_stop q = tp_stop ?p" "\<nexists>q'. pool_work q q'"
    using pool_comes_to_rest [OF pi th(1)] by blast
  have j: "joined q" using pool_rest(2) [OF q(2,5,3)] q(4) th(2) by simp
  have "rtranclp (send_step en) (?s1\<lparr>sd_pool := ?p\<rparr>) (?s1\<lparr>sd_pool := q\<rparr>)"
    using lift_work [OF q(1) pi _ ex, of en] by simp
  with s1 have "rtranclp (send_step en) s (?s1\<lparr>sd_pool := q\<rparr>)" by (rule converse_rtranclp_into_rtranclp)
  moreover have "send_step en (?s1\<lparr>sd_pool := q\<rparr>) (s\<lparr>sd_main := Ended r, sd_pool := q\<rparr>)"
    by (rule send_step.main) (simp add: main_step_def j)
  ultimately have "rtranclp (send_step en) s (s\<lparr>sd_main := Ended r, sd_pool := q\<rparr>)"
    by (rule rtranclp.rtrancl_into_rtrancl)
  then show ?thesis ..
qed

text \<open>From \<open>Destory\<close> to the end, when all tasks are done.\<close>

lemma done_ends:
  assumes reach: "rtranclp (send_step en) (send_start en) s" and m: "sd_main s = AtDestory" and th: "tp_threads (sd_pool s) \<noteq> []"
    and fin: "set (SupTask # map SendTask [0..<length (sd_slices s)]) \<subseteq> set (tp_finished (sd_pool s))"
    and v: "\<forall>e. sd_verdict s \<noteq> Some (SSThrow e)"
  shows "\<exists>u p. rtranclp (send_step en) s (s\<lparr>sd_util := u, sd_main := Ended 0, sd_pool := p\<rparr>)"
proof -
  let ?u = "snd (SendingFlow_Destory (sd_util s))"
  let ?s2 = "s\<lparr>sd_main := AtWait 0, sd_util := ?u\<rparr>"
  let ?s3 = "s\<lparr>sd_main := AtReturn 0, sd_util := ?u\<rparr>"
  have "send_step en s ?s2" by (rule send_step.main) (simp add: main_step_def m)
  moreover have "rtranclp (send_step en) ?s2 (?s2\<lparr>sd_main := AtWaitSup\<rparr>)"
    by (rule wait_all [where j = 0]) (use fin in auto)
  moreover have "(case sd_verdict s of Some (SSThrow e) \<Rightarrow> Died e | _ \<Rightarrow> AtReturn 0) = AtReturn 0"
    using v by (auto split: option.splits ss_result.splits)
  then have "send_step en (?s2\<lparr>sd_main := AtWaitSup\<rparr>) ?s3" by (intro send_step.main) (use fin in \<open>simp add: main_step_def\<close>)
  ultimately have st: "rtranclp (send_step en) s ?s3"
    by (meson converse_rtranclp_into_rtranclp rtranclp.rtrancl_into_rtrancl)
  have s3: "rtranclp (send_step en) (send_start en) ?s3" using reach st by (rule rtranclp_trans)
  have inv: "tasks_inv en ?s3" "main_inv en ?s3" using reach_send_inv [OF s3] by (simp_all add: send_inv_def)
  have "set (tp_enqueued (sd_pool ?s3)) \<subseteq> set (tp_finished (sd_pool s))" using inv(2) fin by (simp add: main_inv_def Let_def)
  then have "\<forall>t \<in> set (tp_enqueued (sd_pool ?s3)). executed ?s3 t" using inv(1) unfolding tasks_inv_def list_all_iff by auto
  then obtain p where "rtranclp (send_step en) ?s3 (?s3\<lparr>sd_main := Ended 0, sd_pool := p\<rparr>)"
    using return_ends [OF s3] th by auto
  with st have "rtranclp (send_step en) s (s\<lparr>sd_util := ?u, sd_main := Ended 0, sd_pool := p\<rparr>)" by (auto intro: rtranclp_trans)
  then show ?thesis by blast
qed

lemma sender_run:
  assumes "SplitFile (en_flags en) (fst (en_file en)) (snd (en_file en)) = Some (Inr (fs, fl))"
    and "SendingFlow_Init zstd_util_start (en_connected en) (en_stale en) (snd (en_file en))
      (of_nat (length fs)) (en_header_rs en) = Done (0, u, out)"
    and "\<forall>j < length fs. \<exists>out. slice_run en fs j = Done out"
    and "SendingFlow_Supervise (en_waits en) (en_pend en) = SSReturn c x k"
    and "0 \<le> sint (jobs (en_flags en))" and "sint (jobs (en_flags en)) < int_max"
  shows "\<exists>s. rtranclp (send_step en) (send_start en) s \<and> sd_main s = Ended 0 \<and> sd_slices s = fs"
proof -
  let ?ts = "SupTask # map SendTask [0..<length fs]"
  have psz: "pool_size (jobs (en_flags en)) = Inr (Suc (nat (sint (jobs (en_flags en)))))" by (rule pool_size_jobs [OF assms(5,6)])
  obtain p where p: "rtranclp (send_step en) (send_start en) \<lparr>sd_main = AtDestory, sd_util = util_init, sd_pool = p,
      sd_slices = fs, sd_header = out, sd_results = (\<lambda>_. None), sd_verdict = None\<rparr>" (is "rtranclp _ _ ?s0")
    "tp_threads p = replicate (Suc (nat (sint (jobs (en_flags en))))) Checking" "tp_tasks p = ?ts" "tp_finished p = []"
    by (rule main_to_Destory [OF assms(1,2) psz])
  have "\<exists>r v q. rtranclp (send_step en) ?s0 (?s0\<lparr>sd_pool := q, sd_results := r, sd_verdict := v\<rparr>) \<and>
    tp_finished q = tp_finished (sd_pool ?s0) @ ?ts \<and> (\<forall>e. v \<noteq> Some (SSThrow e)) \<and>
    tp_threads q = tp_threads (sd_pool ?s0) \<and> tp_tasks q = [] \<and> (SupTask \<notin> set ?ts \<longrightarrow> v = sd_verdict ?s0)"
    by (rule serve_all [where i = 0]) (use p(2-4) assms(3,4) in \<open>auto simp: distinct_map inj_on_def\<close>)
  then obtain r v q where s1: "rtranclp (send_step en) ?s0 (?s0\<lparr>sd_pool := q, sd_results := r, sd_verdict := v\<rparr>)"
      (is "rtranclp _ _ ?s1") "tp_finished q = ?ts" "\<forall>e. v \<noteq> Some (SSThrow e)" "tp_threads q = tp_threads p"
    unfolding sender.simps p(4) append_Nil by blast
  have r1: "rtranclp (send_step en) (send_start en) ?s1" using p(1) s1(1) by (rule rtranclp_trans)
  obtain u' p' where "rtranclp (send_step en) ?s1 (?s1\<lparr>sd_util := u', sd_main := Ended 0, sd_pool := p'\<rparr>)"
    using done_ends [OF r1] s1 p(2) by auto
  with r1 have "rtranclp (send_step en) (send_start en) (?s1\<lparr>sd_util := u', sd_main := Ended 0, sd_pool := p'\<rparr>)" by (rule rtranclp_trans)
  then show ?thesis by (intro exI [of _ "?s1\<lparr>sd_util := u', sd_main := Ended 0, sd_pool := p'\<rparr>"]) simp
qed

text \<open>Two workers: one is kept by the supervisor, which cannot go on, while the other sends the slices.\<close>

lemma slices_first:
  assumes "SplitFile (en_flags en) (fst (en_file en)) (snd (en_file en)) = Some (Inr (fs, fl))"
    and "SendingFlow_Init zstd_util_start (en_connected en) (en_stale en) (snd (en_file en))
      (of_nat (length fs)) (en_header_rs en) = Done (0, u, out)"
    and "\<forall>j < length fs. \<exists>out. slice_run en fs j = Done out"
    and "1 \<le> sint (jobs (en_flags en))" and "sint (jobs (en_flags en)) < int_max"
  obtains p r where "rtranclp (send_step en) (send_start en) \<lparr>sd_main = AtDestory, sd_util = util_init, sd_pool = p,
      sd_slices = fs, sd_header = out, sd_results = r, sd_verdict = None\<rparr>"
    and "0 < length (tp_threads p)" and "tp_threads p ! 0 = Busy SupTask" and "tp_finished p = map SendTask [0..<length fs]"
proof -
  let ?ts = "map SendTask [0..<length fs]"
  have psz: "pool_size (jobs (en_flags en)) = Inr (Suc (nat (sint (jobs (en_flags en)))))"
    by (rule pool_size_jobs) (use assms(4,5) in simp_all)
  obtain p where p: "rtranclp (send_step en) (send_start en) \<lparr>sd_main = AtDestory, sd_util = util_init, sd_pool = p,
      sd_slices = fs, sd_header = out, sd_results = (\<lambda>_. None), sd_verdict = None\<rparr>" (is "rtranclp _ _ ?s0")
    "tp_threads p = replicate (Suc (nat (sint (jobs (en_flags en))))) Checking" "tp_tasks p = SupTask # ?ts" "tp_finished p = []"
    by (rule main_to_Destory [OF assms(1,2) psz])
  let ?p1 = "worker_check 0 p"
  let ?s1 = "?s0\<lparr>sd_pool := ?p1\<rparr>"
  have p1: "tp_threads ?p1 = Busy SupTask # replicate (nat (sint (jobs (en_flags en)))) Checking" "tp_tasks ?p1 = ?ts" "tp_finished ?p1 = []"
    using p(2-4) by (simp_all add: worker_check_def)
  have "send_step en ?s0 ?s1"
    by (rule send_step.work) (use pool_work.check [of 0 p] p p1 in simp_all)
  with p(1) have r1: "rtranclp (send_step en) (send_start en) ?s1" by (rule rtranclp.rtrancl_into_rtrancl)
  have "\<exists>r v q. rtranclp (send_step en) ?s1 (?s1\<lparr>sd_pool := q, sd_results := r, sd_verdict := v\<rparr>) \<and>
    tp_finished q = tp_finished (sd_pool ?s1) @ ?ts \<and> (\<forall>e. v \<noteq> Some (SSThrow e)) \<and>
    tp_threads q = tp_threads (sd_pool ?s1) \<and> tp_tasks q = [] \<and> (SupTask \<notin> set ?ts \<longrightarrow> v = sd_verdict ?s1)"
    by (rule serve_all [where i = 1]) (use p1 assms(3,4) in \<open>auto simp: distinct_map inj_on_def\<close>)
  then obtain r q where s2: "rtranclp (send_step en) ?s1 (?s1\<lparr>sd_pool := q, sd_results := r, sd_verdict := None\<rparr>)"
    "tp_finished q = ?ts" "tp_threads q = tp_threads ?p1" using p1(3) by auto
  have "?s1\<lparr>sd_pool := q, sd_results := r, sd_verdict := None\<rparr> = \<lparr>sd_main = AtDestory, sd_util = util_init, sd_pool = q,
      sd_slices = fs, sd_header = out, sd_results = r, sd_verdict = None\<rparr>" by simp
  with rtranclp_trans [OF r1 s2(1)] s2(2,3) p1(1) that show ?thesis by simp
qed

text \<open>Then the supervisor goes on, and the program ends.\<close>

lemma supervisor_last:
  assumes reach: "rtranclp (send_step en) (send_start en) s" and m: "sd_main s = AtDestory" and v: "sd_verdict s = None"
    and th: "0 < length (tp_threads (sd_pool s))" "tp_threads (sd_pool s) ! 0 = Busy SupTask"
    and fin: "tp_finished (sd_pool s) = map SendTask [0..<length (sd_slices s)]"
    and sup: "SendingFlow_Supervise (en_waits en) (en_pend en) = SSReturn c x k"
  shows "\<exists>s'. rtranclp (send_step en) s s' \<and> sd_main s' = Ended 0"
proof -
  let ?s1 = "s\<lparr>sd_verdict := Some (SSReturn c x k)\<rparr>"
  let ?p = "worker_finish 0 SupTask (sd_pool s)"
  have "Busy SupTask \<in> set (tp_threads (sd_pool s))" using th nth_mem by metis
  then have s1: "send_step en s ?s1"
    by (intro send_step.exec [where t = SupTask]) (simp_all add: m v exec_supervise_def sup)
  have "list_all (executed s) (tp_finished (sd_pool s))"
    using reach_send_inv [OF reach] m by (simp add: send_inv_def tasks_inv_def)
  then have "list_all (executed ?s1) (tp_finished ?p)" by (simp add: worker_finish_def fin list_all_iff)
  then have s2: "send_step en ?s1 (?s1\<lparr>sd_pool := ?p\<rparr>)"
    using pool_work.finish [of 0 "sd_pool s" SupTask] th m by (intro send_step.work) simp_all
  have st: "rtranclp (send_step en) s (?s1\<lparr>sd_pool := ?p\<rparr>)" using s1 s2 by (meson rtranclp.rtrancl_into_rtrancl r_into_rtranclp)
  with reach have r2: "rtranclp (send_step en) (send_start en) (?s1\<lparr>sd_pool := ?p\<rparr>)" by (rule rtranclp_trans)
  have "tp_threads ?p \<noteq> []" using th(1) by (auto simp: worker_finish_def)
  then obtain u p' where "rtranclp (send_step en) (?s1\<lparr>sd_pool := ?p\<rparr>) (?s1\<lparr>sd_pool := ?p\<rparr>\<lparr>sd_util := u, sd_main := Ended 0, sd_pool := p'\<rparr>)"
    using done_ends [OF r2] m fin by (auto simp: worker_finish_def)
  with st show ?thesis
    by (intro exI [of _ "?s1\<lparr>sd_pool := ?p\<rparr>\<lparr>sd_util := u, sd_main := Ended 0, sd_pool := p'\<rparr>"]) (auto intro: rtranclp_trans)
qed

end
