(* ===== verification/Recv_Program.thy ===== *)
theory Recv_Program
  imports Recv_Supervise Send_Program File_Transfer
begin

section \<open>The receiving program (main_recv.cc, util/recv_flow.h)\<close>

text \<open>
  The main thread of the receiver, its supervisor and its handlers, interleaved. The main thread
  accepts connections, in the order in which they come; a worker of the pool runs the supervisor or a
  handler. A handler goes on by one round of its event loop at a time, the supervisor by one evaluation
  of its condition, one future, or its report. The statements the main thread executes for a connection
  are steps of their own, so that the supervisor can look at the counters between them.
\<close>

subsection \<open>The environment\<close>

text \<open>What the receiver meets: libzstd and Arrow, its flags and files, the connections that are going to
  be made, each with the bytes that will come on it (\<open>None\<close> when it is never made), whether the sender's
  supervisor can be reached, and the results of the writes to it.\<close>

record 'd recv_env =
  re_zstd :: "'d zstd_d"
  re_arrow :: arrow
  re_nan :: "byte list"
  re_jobs :: s32
  re_rows :: s32
  re_path :: string
  re_fs :: file_system
  re_opened :: bool
  re_incoming :: "byte list option list"
  re_connected :: bool
  re_ws :: "int list"

definition recv_map :: "'d recv_env \<Rightarrow> u64 \<Rightarrow> mapping" where
  "recv_map en n = fst (MMapOutputArrowFile (re_opened en) (re_fs en) (re_path en) n)"

text \<open>The files as they are once the output has been mapped: a mapping is shared with its file.\<close>

definition recv_files :: "'d recv_env \<Rightarrow> server \<Rightarrow> file_system" where
  "recv_files en sv = (case sv_start sv of
     Mapped mem \<Rightarrow> (re_fs en)(re_path en \<mapsto> mem)
   | MapFailed \<Rightarrow> snd (MMapOutputArrowFile (re_opened en) (re_fs en) (re_path en) (sv_file_size sv))
   | MapNull \<Rightarrow> re_fs en)"

definition recv_validate :: "'d recv_env \<Rightarrow> server \<Rightarrow> c_error + byte list" where
  "recv_validate en sv = getValidResult_file (re_nan en) (re_arrow en) (recv_files en sv) (re_path en) (sint (re_rows en))"

text \<open>Of the ways in which a piece of C++ can fail, the exceptions; the others end the process.\<close>

fun thrown :: "c_error \<Rightarrow> bool" where
  "thrown Out_of_range = True"
| "thrown Invalid_argument = True"
| "thrown Length_error = True"
| "thrown Bad_alloc = True"
| "thrown Library_error = True"
| "thrown _ = False"

subsection \<open>State\<close>

text \<open>Where the main thread is: waiting in \<open>epoll_wait\<close> or \<open>accept\<close>, before \<open>slices_th_num_++\<close>, before
  \<open>notify_one\<close>. The process is over when \<open>Run\<close> has returned or when it died; what becomes of the
  threads during an exit is not modelled.\<close>

datatype recv_at = RWait | RCount | RNotify

datatype recv_exit = RExited | RDied c_error

text \<open>Where the supervisor is: waiting, at future \<open>j\<close> of the \<open>n\<close> it found, or at its end.\<close>

datatype recv_sup = SupWait sup_pc | SupGet nat nat | SupDone sup_result

text \<open>The state. There is a \<open>conn\<close> for each connection of the environment; \<open>rv_res\<close> are those that were
  accepted, in order, so that the future at \<open>j\<close> is that of connection \<open>rv_res ! j\<close>; \<open>rv_report\<close> is what
  the supervisor has written. The number of a connection stands for its descriptor in the pool.\<close>

record receiver =
  rv_exit :: "recv_exit option"
  rv_main :: recv_at
  rv_pool :: "server_task ThreadPool"
  rv_server :: server
  rv_conns :: "conn list"
  rv_res :: "nat list"
  rv_sup :: recv_sup
  rv_report :: "byte list"

definition fresh_conn :: "byte list option \<Rightarrow> conn" where
  "fresh_conn c = \<lparr>cn_local = recv_start, cn_pending = (case c of None \<Rightarrow> [] | Some bs \<Rightarrow> bs), cn_result = None\<rparr>"

definition recv_init :: "'d recv_env \<Rightarrow> receiver" where
  "recv_init en =
     (let s = \<lparr>rv_exit = None, rv_main = RWait, rv_pool = make_pool 0, rv_server = server_init, rv_conns = map fresh_conn (re_incoming en),
         rv_res = [], rv_sup = SupWait SupEval, rv_report = []\<rparr>
      in case pool_size (re_jobs en) of
           Inl e \<Rightarrow> s\<lparr>rv_exit := Some (RDied e)\<rparr>
         | Inr n \<Rightarrow> s\<lparr>rv_pool := enqueue TSupervise (make_pool n)\<rparr>)"

subsection \<open>Steps\<close>

text \<open>The buffers in \<open>mmap_\<close>.\<close>

definition map_bufs :: "server \<Rightarrow> cbuf list" where
  "map_bufs sv = List.map_filter (\<lambda>k. map_option si_c_buf (sv_mmap sv (of_nat k))) [0..<2 ^ 16]"

text \<open>The end of the supervisor, with all futures at hand: the end mark, the validation, the text and the
  clean-up.\<close>

definition sup_end :: "receiver \<Rightarrow> sup_result \<Rightarrow> byte list \<Rightarrow> receiver" where
  "sup_end s r out =
     (case r of
        SFault e \<Rightarrow> s\<lparr>rv_exit := Some (RDied e), rv_report := out\<rparr>
      | _ \<Rightarrow> s\<lparr>rv_sup := SupDone r, rv_report := out\<rparr>)"

definition sup_report :: "'d recv_env \<Rightarrow> nat \<Rightarrow> receiver \<Rightarrow> receiver option" where
  "sup_report en n s =
     (case recv_validate en (rv_server s) of
        Inl e \<Rightarrow>
          (case write_end 0 [] (re_ws en) of
             Running \<Rightarrow> None
           | Crash e' \<Rightarrow> Some (s\<lparr>rv_exit := Some (RDied e')\<rparr>)
           | Done (out, _) \<Rightarrow> Some (sup_end s (if thrown e then SThrow e else SFault e) out))
      | Inr valid_res \<Rightarrow>
          (case Server_Supervise True (map (\<lambda>k. the (cn_result (rv_conns s ! k))) (take n (rv_res s))) valid_res
                  (map_bufs (rv_server s)) (sv_start (rv_server s)) (re_ws en) of
             Running \<Rightarrow> None
           | Crash e' \<Rightarrow> Some (s\<lparr>rv_exit := Some (RDied e')\<rparr>)
           | Done (r, out) \<Rightarrow> Some (sup_end s r out)))"

text \<open>The next step of the supervisor; \<open>None\<close> when it sleeps, waits for a future, or has ended. The range
  of the loop over the futures is fixed when the loop starts.\<close>

fun sup_next :: "'d recv_env \<Rightarrow> recv_sup \<Rightarrow> receiver \<Rightarrow> receiver option" where
  "sup_next en (SupWait SupEval) s =
     Some (s\<lparr>rv_sup := SupWait (if supervise_ready (sv_slices_th_num (rv_server s)) (sv_slices_num (rv_server s))
                                then SupGo else SupSleepy)\<rparr>)"
| "sup_next en (SupWait SupSleepy) s = Some (s\<lparr>rv_sup := SupWait SupAsleep\<rparr>)"
| "sup_next en (SupWait SupAsleep) s = None"
| "sup_next en (SupWait SupGo) s =
     Some (s\<lparr>rv_sup := (if re_connected en then SupGet 0 (length (rv_res s)) else SupDone (SReturn (-1)))\<rparr>)"
| "sup_next en (SupGet j n) s =
     (if j < n
      then (case cn_result (rv_conns s ! (rv_res s ! j)) of
              None \<Rightarrow> None
            | Some (Threw e) \<Rightarrow> Some (s\<lparr>rv_sup := SupDone (SThrow e)\<rparr>)
            | Some (Returned _) \<Rightarrow> Some (s\<lparr>rv_sup := SupGet (Suc j) n\<rparr>))
      else sup_report en n s)"
| "sup_next en (SupDone r) s = None"

fun task_done :: "receiver \<Rightarrow> server_task \<Rightarrow> bool" where
  "task_done s TSupervise \<longleftrightarrow> (\<exists>r. rv_sup s = SupDone r)"
| "task_done s (TRecv k) \<longleftrightarrow> cn_result (rv_conns s ! nat k) \<noteq> None"

definition recv_notify :: "recv_sup \<Rightarrow> recv_sup" where
  "recv_notify r = (if r = SupWait SupAsleep then SupWait SupEval else r)"

inductive recv_step :: "'d recv_env \<Rightarrow> receiver \<Rightarrow> receiver \<Rightarrow> bool" for en where
  accept: "rv_exit s = None \<Longrightarrow> rv_main s = RWait \<Longrightarrow> k < length (re_incoming en) \<Longrightarrow> re_incoming en ! k \<noteq> None \<Longrightarrow> k \<notin> set (rv_res s) \<Longrightarrow>
    recv_step en s (s\<lparr>rv_main := RCount, rv_pool := enqueue (TRecv (int k)) (rv_pool s), rv_res := rv_res s @ [k]\<rparr>)"
| count: "rv_exit s = None \<Longrightarrow> rv_main s = RCount \<Longrightarrow>
    recv_step en s (s\<lparr>rv_main := RNotify,
      rv_server := (rv_server s)\<lparr>sv_slices_th_num := sv_slices_th_num (rv_server s) + 1\<rparr>\<rparr>)"
| notify: "rv_exit s = None \<Longrightarrow> rv_main s = RNotify \<Longrightarrow> recv_step en s (s\<lparr>rv_main := RWait, rv_sup := recv_notify (rv_sup s)\<rparr>)"
| fail: "rv_exit s = None \<Longrightarrow> rv_main s = RWait \<Longrightarrow> recv_step en s (s\<lparr>rv_exit := Some RExited\<rparr>)"
| round: "rv_exit s = None \<Longrightarrow> Busy (TRecv (int k)) \<in> set (tp_threads (rv_pool s)) \<Longrightarrow> cn_result (rv_conns s ! k) = None \<Longrightarrow>
    conn_round (re_zstd en) (recv_map en) (rv_server s) (rv_conns s ! k) w = Some (Inr (sv, c)) \<Longrightarrow>
    recv_step en s (s\<lparr>rv_server := sv, rv_conns := (rv_conns s)[k := c]\<rparr>)"
| crash: "rv_exit s = None \<Longrightarrow> Busy (TRecv (int k)) \<in> set (tp_threads (rv_pool s)) \<Longrightarrow> cn_result (rv_conns s ! k) = None \<Longrightarrow>
    conn_round (re_zstd en) (recv_map en) (rv_server s) (rv_conns s ! k) w = Some (Inl e) \<Longrightarrow>
    recv_step en s (s\<lparr>rv_exit := Some (RDied e)\<rparr>)"
| supervise: "rv_exit s = None \<Longrightarrow> Busy TSupervise \<in> set (tp_threads (rv_pool s)) \<Longrightarrow> sup_next en (rv_sup s) s = Some s' \<Longrightarrow>
    recv_step en s s'"
| awake: "rv_exit s = None \<Longrightarrow> rv_sup s = SupWait SupAsleep \<Longrightarrow> recv_step en s (s\<lparr>rv_sup := SupWait SupEval\<rparr>)"
| work: "rv_exit s = None \<Longrightarrow> pool_work (rv_pool s) p \<Longrightarrow> list_all (task_done s) (tp_finished p) \<Longrightarrow>
    recv_step en s (s\<lparr>rv_pool := p\<rparr>)"
| spurious: "rv_exit s = None \<Longrightarrow> i < length (tp_threads (rv_pool s)) \<Longrightarrow> tp_threads (rv_pool s) ! i = Blocked \<Longrightarrow>
    recv_step en s (s\<lparr>rv_pool := worker_wake i (rv_pool s)\<rparr>)"

subsection \<open>What a round does to the counters\<close>

lemma recv_map_not_null: "recv_map en n \<noteq> MapNull"
  by (simp add: recv_map_def MMapOutputArrowFile_def Let_def)

text \<open>The number of slices is set once, together with the mapping; the count of connections is the main
  thread's.\<close>

definition counters :: "server \<Rightarrow> server \<Rightarrow> bool" where
  "counters sv sv' \<longleftrightarrow> sv_slices_th_num sv' = sv_slices_th_num sv \<and>
     (sv_start sv \<noteq> MapNull \<longrightarrow> sv_start sv' \<noteq> MapNull \<and> sv_slices_num sv' = sv_slices_num sv) \<and>
     (sv_slices_num sv' \<noteq> sv_slices_num sv \<longrightarrow> sv_start sv' \<noteq> MapNull)"

fun result_server :: "recv_result \<Rightarrow> server option" where
  "result_server (Again sv l) = Some sv"
| "result_server (Return q sv) = Some sv"
| "result_server (Throw e sv) = Some sv"
| "result_server _ = None"

lemma counters_refl: "counters sv sv"
  by (simp add: counters_def)

lemma counters_mmap: "counters sv (sv\<lparr>sv_mmap := m\<rparr>)"
  by (simp add: counters_def)

lemma counters_complete: "result_server (recv_complete z sv si) = Some sv' \<Longrightarrow> counters sv sv'"
  by (auto simp: recv_complete_def counters_def MMapWriting_def mem_write_def Let_def
      split: cbuf.splits option.splits prod.splits sum.splits if_splits mapping.splits)

lemma counters_account: "result_server (recv_account z sv l si n) = Some sv' \<Longrightarrow> counters sv sv'"
  using counters_complete [of z "sv\<lparr>sv_mmap := m\<rparr>" _ sv' for m]
  by (fastforce simp: recv_account_def Let_def counters_def split: if_splits)

lemma counters_process:
  assumes "\<forall>n. map_file n \<noteq> MapNull" and "result_server (recv_process z map_file sv l bs) = Some sv'"
  shows "counters sv sv'"
proof -
  consider "expects_header sv l" | "\<not> expects_header sv l" "is_first_recv l" | "\<not> expects_header sv l" "\<not> is_first_recv l" by blast
  then show ?thesis
  proof cases
    case 1
    then have "sv_start sv = MapNull" by (simp add: expects_header_def)
    then show ?thesis using 1 assms
      by (auto simp: recv_process_def recv_file_header_def counters_def Let_def split: if_splits option.splits sum.splits)
  next
    case 2
    define sv1 where "sv1 = sv\<lparr>sv_mmap := (sv_mmap sv)(si_index (new_slice_info sv bs) \<mapsto> new_slice_info sv bs)\<rparr>"
    have "counters sv sv1" by (simp add: sv1_def counters_mmap)
    moreover have "sv' = sv1 \<or> counters sv1 sv'" using 2 assms(2) counters_account [of z sv1 _ _ _ sv']
      by (auto simp: recv_process_def recv_first_slice_def Let_def sv1_def split: if_splits sum.splits)
    ultimately show ?thesis by (auto simp: counters_def)
  next
    case 3
    then show ?thesis using assms(2) counters_account [of z sv l _ _ sv']
      by (auto simp: recv_process_def recv_more_def split: option.splits sum.splits)
  qed
qed

lemma counters_iter:
  assumes "\<forall>n. map_file n \<noteq> MapNull" and "result_server (fst (recv_iter z map_file sv l w p)) = Some sv'"
  shows "counters sv sv'"
proof (cases w)
  case (WakeIn rs)
  have prep: "recv_prepare sv l = Inr (sv1, n) \<Longrightarrow> \<exists>m. sv1 = sv\<lparr>sv_reads_max_bytes := m\<rparr>" for sv1 n
    by (auto simp: recv_prepare_def Let_def split: if_splits option.splits) (metis server.surjective server.update_convs(6))+
  show ?thesis
  proof (cases "recv_prepare sv l")
    case (Inr x)
    obtain sv1 n where x: "x = (sv1, n)" by (cases x)
    obtain m where m: "sv1 = sv\<lparr>sv_reads_max_bytes := m\<rparr>" using prep Inr x by blast
    have c1: "counters sv1 sv' \<Longrightarrow> counters sv sv'" by (simp add: counters_def m)
    show ?thesis
    proof (cases "read_loop (unat n) p [] rs")
      case (ReadDone bs rest rs')
      then show ?thesis using assms WakeIn Inr x c1 counters_process [OF assms(1), of z sv1 l bs sv'] by (simp add: recv_iter_def)
    next
      case (ReadError rest)
      then have "result_server (recv_read_error sv1 l) = Some sv'" using assms(2) WakeIn Inr x by (simp add: recv_iter_def)
      then have "counters sv1 sv'" by (auto simp: recv_read_error_def counters_def split: if_splits option.splits)
      then show ?thesis by (rule c1)
    qed (use assms(2) WakeIn Inr x in \<open>simp add: recv_iter_def\<close>)
  qed (use assms(2) WakeIn in \<open>simp add: recv_iter_def\<close>)
qed (use assms(2) in \<open>simp_all add: recv_iter_def counters_refl\<close>)

lemma conn_round_counters:
  assumes "conn_round z map_file sv c w = Some (Inr (sv', c'))" and "\<forall>n. map_file n \<noteq> MapNull"
  shows "counters sv sv'"
proof -
  have "result_server (fst (recv_iter z map_file sv (cn_local c) w (cn_pending c))) = Some sv'"
    using assms(1) by (auto simp: conn_round_def split: prod.splits recv_result.splits)
  then show ?thesis by (rule counters_iter [OF assms(2)])
qed

subsection \<open>The invariant\<close>

text \<open>The connections that are counted: all that were accepted, but for one that is about to be.\<close>

definition counted :: "receiver \<Rightarrow> nat" where
  "counted s = length (rv_res s) - (if rv_main s = RCount then 1 else 0)"

definition recv_base :: "'d recv_env \<Rightarrow> receiver \<Rightarrow> bool" where
  "recv_base en s \<longleftrightarrow>
     pool_inv (rv_pool s) \<and> \<not> tp_stop (rv_pool s) \<and>
     tp_enqueued (rv_pool s) = TSupervise # map (\<lambda>k. TRecv (int k)) (rv_res s) \<and>
     list_all (task_done s) (tp_finished (rv_pool s)) \<and>
     distinct (rv_res s) \<and> (\<forall>k \<in> set (rv_res s). k < length (re_incoming en) \<and> re_incoming en ! k \<noteq> None) \<and>
     length (rv_conns s) = length (re_incoming en) \<and>
     (\<forall>k < length (re_incoming en). k \<notin> set (rv_res s) \<longrightarrow> rv_conns s ! k = fresh_conn (re_incoming en ! k)) \<and>
     (rv_main s = RCount \<longrightarrow> rv_res s \<noteq> []) \<and>
     sv_slices_th_num (rv_server s) = of_nat (counted s) \<and>
     (sv_slices_num (rv_server s) \<noteq> 0 \<longrightarrow> sv_start (rv_server s) \<noteq> MapNull)"

lemma done_mono:
  assumes "list_all (task_done s) ts" and "\<forall>r. rv_sup s = SupDone r \<longrightarrow> rv_sup s' = SupDone r"
    and "\<forall>k. cn_result (rv_conns s ! k) \<noteq> None \<longrightarrow> cn_result (rv_conns s' ! k) \<noteq> None"
  shows "list_all (task_done s') ts"
proof -
  have "task_done s t \<Longrightarrow> task_done s' t" for t using assms(2,3) by (cases t) auto
  then show ?thesis using assms(1) by (auto simp: list_all_iff)
qed

lemma busy_accepted:
  assumes "recv_base en s" and "Busy (TRecv (int k)) \<in> set (tp_threads (rv_pool s))"
  shows "k \<in> set (rv_res s)" and "k < length (rv_conns s)"
proof -
  have "TRecv (int k) \<in> set (tp_enqueued (rv_pool s))" using assms by (intro busy_enqueued) (simp_all add: recv_base_def)
  then show "k \<in> set (rv_res s)" using assms(1) by (auto simp: recv_base_def)
  then show "k < length (rv_conns s)" using assms(1) by (auto simp: recv_base_def)
qed

text \<open>What the supervisor may change.\<close>

lemma sup_next_keeps:
  assumes "sup_next en r s = Some s'"
  shows "rv_main s' = rv_main s \<and> rv_pool s' = rv_pool s \<and> rv_server s' = rv_server s \<and> rv_conns s' = rv_conns s \<and> rv_res s' = rv_res s"
  using assms
  by (cases r rule: sup_next.cases [of "(en, r, s)" for r])
    (auto simp: sup_report_def sup_end_def split: if_splits option.splits handler_result.splits sum.splits run.splits sup_result.splits)

lemma sup_next_open: "sup_next en r s = Some s' \<Longrightarrow> r \<noteq> SupDone q"
  by auto

lemma base_accept:
  assumes "recv_base en s" and "rv_main s = RWait" and "k < length (re_incoming en)" and "re_incoming en ! k \<noteq> None" and "k \<notin> set (rv_res s)"
  shows "recv_base en (s\<lparr>rv_main := RCount, rv_pool := enqueue (TRecv (int k)) (rv_pool s), rv_res := rv_res s @ [k]\<rparr>)"
proof -
  have "list_all (task_done (s\<lparr>rv_main := RCount, rv_pool := enqueue (TRecv (int k)) (rv_pool s), rv_res := rv_res s @ [k]\<rparr>))
      (tp_finished (rv_pool s))"
    by (rule done_mono [of s]) (use assms(1) in \<open>simp_all add: recv_base_def\<close>)
  then show ?thesis using assms enqueue_inv [of "rv_pool s" "TRecv (int k)"]
    by (simp add: recv_base_def counted_def) (simp add: enqueue_def)
qed

lemma base_round:
  assumes "recv_base en s" and "Busy (TRecv (int k)) \<in> set (tp_threads (rv_pool s))" and "cn_result (rv_conns s ! k) = None"
    and "conn_round (re_zstd en) (recv_map en) (rv_server s) (rv_conns s ! k) w = Some (Inr (sv, c))"
  shows "recv_base en (s\<lparr>rv_server := sv, rv_conns := (rv_conns s)[k := c]\<rparr>)"
proof -
  let ?s = "s\<lparr>rv_server := sv, rv_conns := (rv_conns s)[k := c]\<rparr>"
  note k = busy_accepted [OF assms(1,2)]
  have "list_all (task_done ?s) (tp_finished (rv_pool s))"
  proof (rule done_mono [of s])
    show "\<forall>i. cn_result (rv_conns s ! i) \<noteq> None \<longrightarrow> cn_result (rv_conns ?s ! i) \<noteq> None"
    proof
      fix i show "cn_result (rv_conns s ! i) \<noteq> None \<longrightarrow> cn_result (rv_conns ?s ! i) \<noteq> None"
        using assms(3) by (cases "i = k") simp_all
    qed
  qed (use assms(1) in \<open>simp_all add: recv_base_def\<close>)
  moreover have "counters (rv_server s) sv"
    by (rule conn_round_counters [OF assms(4)]) (simp add: recv_map_not_null)
  moreover have "\<forall>i < length (re_incoming en). i \<notin> set (rv_res s) \<longrightarrow> (rv_conns s)[k := c] ! i = fresh_conn (re_incoming en ! i)"
  proof (intro allI impI)
    fix i assume "i < length (re_incoming en)" "i \<notin> set (rv_res s)"
    then show "(rv_conns s)[k := c] ! i = fresh_conn (re_incoming en ! i)"
      using assms(1) k(1) by (cases "i = k") (auto simp: recv_base_def)
  qed
  ultimately show ?thesis using assms(1) unfolding recv_base_def counters_def counted_def by auto
qed

lemma base_pool:
  assumes "recv_base en s" and "pool_inv p" and "\<not> tp_stop p" and "tp_enqueued p = tp_enqueued (rv_pool s)"
    and "list_all (task_done s) (tp_finished p)"
  shows "recv_base en (s\<lparr>rv_pool := p\<rparr>)"
proof -
  have "list_all (task_done (s\<lparr>rv_pool := p\<rparr>)) (tp_finished p)" by (rule done_mono [OF assms(5)]) simp_all
  then show ?thesis using assms unfolding recv_base_def counted_def by simp
qed

lemma base_same:
  assumes "recv_base en s" and "rv_sup s' = rv_sup s \<or> (\<forall>q. rv_sup s \<noteq> SupDone q)" and "rv_main s' = rv_main s" and "rv_pool s' = rv_pool s"
    and "rv_server s' = rv_server s" and "rv_conns s' = rv_conns s" and "rv_res s' = rv_res s"
  shows "recv_base en s'"
proof -
  have "list_all (task_done s) (tp_finished (rv_pool s))" using assms(1) by (simp add: recv_base_def)
  then have "list_all (task_done s') (tp_finished (rv_pool s))" by (rule done_mono) (use assms(2-) in auto)
  then show ?thesis using assms unfolding recv_base_def counted_def by simp
qed

lemma base_step:
  assumes "recv_base en s" and "recv_step en s s'"
  shows "recv_base en s'"
  using assms(2)
proof cases
  case (accept k)
  then show ?thesis using base_accept [OF assms(1)] by simp
next
  case count
  have "list_all (task_done s') (tp_finished (rv_pool s))"
    by (rule done_mono [of s]) (use assms(1) count in \<open>simp_all add: recv_base_def\<close>)
  moreover have "of_nat (length (rv_res s) - Suc 0) + 1 = (of_nat (length (rv_res s)) :: u16)"
    using assms(1) count by (cases "rv_res s") (simp_all add: recv_base_def)
  ultimately show ?thesis using assms(1) count unfolding recv_base_def counted_def by simp
next
  case notify
  have "list_all (task_done s') (tp_finished (rv_pool s))"
    by (rule done_mono [of s]) (use assms(1) notify in \<open>simp_all add: recv_base_def recv_notify_def\<close>)
  then show ?thesis using assms(1) notify unfolding recv_base_def counted_def by simp
next
  case (round k w sv c)
  then show ?thesis using base_round [OF assms(1)] by simp
next
  case supervise
  then show ?thesis using base_same [OF assms(1)] sup_next_keeps [OF supervise(3)] sup_next_open [OF supervise(3)] by blast
next
  case (work p)
  have "pool_inv p" "\<not> tp_stop p" "tp_enqueued p = tp_enqueued (rv_pool s)"
    using assms(1) pool_work_inv [OF work(3)] work_keeps [OF work(3)] by (simp_all add: recv_base_def)
  then show ?thesis using base_pool [OF assms(1)] work by simp
next
  case (spurious i)
  have "pool_step (rv_pool s) (worker_wake i (rv_pool s))" using spurious by (intro pool_step.spurious)
  then have "pool_inv (worker_wake i (rv_pool s))" using assms(1) by (simp add: recv_base_def pool_step_inv)
  moreover have "tp_finished (worker_wake i (rv_pool s)) = tp_finished (rv_pool s)" "tp_stop (worker_wake i (rv_pool s)) = tp_stop (rv_pool s)"
    "tp_enqueued (worker_wake i (rv_pool s)) = tp_enqueued (rv_pool s)" by (simp_all add: worker_wake_def)
  moreover have "list_all (task_done s) (tp_finished (rv_pool s))" "\<not> tp_stop (rv_pool s)" using assms(1) by (simp_all add: recv_base_def)
  ultimately show ?thesis using base_pool [OF assms(1)] spurious(1) by simp
qed (auto intro: base_same [OF assms(1)])

lemma base_init:
  assumes "pool_size (re_jobs en) = Inr n"
  shows "recv_base en (recv_init en)"
proof -
  have "pool_inv (make_pool n :: server_task ThreadPool)" by (rule reach_pool_inv [OF rtranclp.rtrancl_refl])
  then have "pool_inv (enqueue TSupervise (make_pool n))" by (rule enqueue_inv) (simp add: make_pool_def)
  then show ?thesis using assms
    by (simp add: recv_base_def recv_init_def Let_def counted_def server_init_def) (simp add: enqueue_def make_pool_def)
qed

subsection \<open>The wait, in the program\<close>

text \<open>What \<open>Recv_Supervise\<close> says of the wait on its own holds in the whole program: its threads implement
  \<open>sup_step\<close>, but for wake-ups without a reason, which are added to the specification.\<close>

definition recv_wait :: "receiver \<Rightarrow> sup_state" where
  "recv_wait s = \<lparr>su_th_num = sv_slices_th_num (rv_server s), su_slices_num = sv_slices_num (rv_server s),
     su_notify = (if rv_main s = RNotify then 1 else 0),
     su_pc = (case rv_sup s of SupWait pc \<Rightarrow> pc | _ \<Rightarrow> SupGo), su_accepted = counted s\<rparr>"

definition wait_step :: "sup_state \<Rightarrow> sup_state \<Rightarrow> bool" where
  "wait_step s s' \<longleftrightarrow> sup_step s s' \<or> su_pc s = SupAsleep \<and> s' = s\<lparr>su_pc := SupEval\<rparr>"

lemma wait_supervise:
  assumes "sup_next en (rv_sup s) s = Some s'"
  shows "wait_step (recv_wait s) (recv_wait s') \<or> recv_wait s' = recv_wait s"
proof -
  note k = sup_next_keeps [OF assms]
  consider "rv_sup s = SupWait SupEval" | "rv_sup s = SupWait SupSleepy" | "rv_sup s = SupWait SupGo" | j n where "rv_sup s = SupGet j n"
    using assms by (cases "rv_sup s" rule: recv_sup.exhaust) (metis sup_pc.exhaust sup_next.simps(3) option.distinct(1), simp_all)
  then show ?thesis
  proof cases
    case 1
    then have "recv_wait s' = sup_eval (recv_wait s)" using assms by (auto simp: recv_wait_def sup_eval_def counted_def)
    moreover have "su_pc (recv_wait s) = SupEval" using 1 by (simp add: recv_wait_def)
    ultimately show ?thesis using sup_step.eval by (simp add: wait_step_def)
  next
    case 2
    then have "recv_wait s' = (recv_wait s)\<lparr>su_pc := SupAsleep\<rparr>" using assms by (auto simp: recv_wait_def counted_def)
    moreover have "su_pc (recv_wait s) = SupSleepy" using 2 by (simp add: recv_wait_def)
    ultimately show ?thesis using sup_step.sleep by (simp add: wait_step_def)
  next
    case 3
    then show ?thesis using assms by (auto simp: recv_wait_def counted_def)
  next
    case (4 j n)
    then have "\<forall>pc. rv_sup s' \<noteq> SupWait pc" using assms
      by (auto simp: sup_report_def sup_end_def split: if_splits option.splits handler_result.splits sum.splits run.splits sup_result.splits)
    then show ?thesis using 4 k by (auto simp: recv_wait_def counted_def split: recv_sup.splits)
  qed
qed

lemma wait_refines:
  assumes "recv_base en s" and "recv_step en s s'"
  shows "wait_step (recv_wait s) (recv_wait s') \<or> recv_wait s' = recv_wait s"
  using assms(2)
proof cases
  case (accept k)
  then show ?thesis by (simp add: recv_wait_def counted_def)
next
  case count
  have "rv_res s \<noteq> []" using assms(1) count(3) by (simp add: recv_base_def)
  then have "recv_wait s' = sup_accept (recv_wait s)" using count by (simp add: recv_wait_def sup_accept_def counted_def)
  then show ?thesis by (simp add: wait_step_def sup_step.accept)
next
  case notify
  then have "recv_wait s' = sup_notify (recv_wait s)" "0 < su_notify (recv_wait s)"
    by (auto simp: recv_wait_def sup_notify_def counted_def recv_notify_def split: recv_sup.splits)
  then show ?thesis by (simp add: wait_step_def sup_step.notify)
next
  case (round k w sv c)
  have c: "counters (rv_server s) sv" by (rule conn_round_counters [OF round(5)]) (simp add: recv_map_not_null)
  show ?thesis
  proof (cases "sv_slices_num sv = sv_slices_num (rv_server s)")
    case True
    then show ?thesis using round(1) c by (simp add: recv_wait_def counted_def counters_def)
  next
    case False
    then have "sv_slices_num (rv_server s) = 0" using assms(1) c by (auto simp: recv_base_def counters_def)
    moreover have "recv_wait s' = (recv_wait s)\<lparr>su_slices_num := sv_slices_num sv\<rparr>"
      using round(1) c by (simp add: recv_wait_def counted_def counters_def)
    ultimately show ?thesis using sup_step.header [of "recv_wait s" "sv_slices_num sv"] False
      by (simp add: wait_step_def recv_wait_def)
  qed
next
  case supervise
  then show ?thesis using wait_supervise by blast
next
  case awake
  then show ?thesis by (simp add: wait_step_def recv_wait_def counted_def)
qed (simp_all add: recv_wait_def counted_def)

interpretation receiver_wait: invariant_refinement "\<lambda>s. s = recv_init en \<and> (\<exists>n. pool_size (re_jobs en) = Inr n)" "recv_step en"
    "recv_base en" wait_step recv_wait
  for en :: "'d recv_env"
proof (unfold_locales, goal_cases)
  case (1 s)
  then show ?case using base_init by blast
next
  case (2 s s')
  then show ?case by (rule base_step)
next
  case (3 s s')
  then show ?case by (rule wait_refines)
qed

lemma wait_init: "pool_size (re_jobs en) = Inr n \<Longrightarrow> recv_wait (recv_init en) = sup_start"
  by (simp add: recv_wait_def recv_init_def sup_start_def counted_def server_init_def Let_def)

lemma wait_step_inv: "wait_step s s' \<Longrightarrow> sup_inv s \<Longrightarrow> sup_inv s'"
  by (auto simp: wait_step_def intro: sup.step_inv) (simp add: sup_inv_def)

text \<open>The supervisor beyond its wait: the futures it has got, and how many there were.\<close>

definition got_inv :: "receiver \<Rightarrow> nat \<Rightarrow> nat \<Rightarrow> bool" where
  "got_inv s j n \<longleftrightarrow> n \<le> length (rv_res s) \<and>
     (length (rv_res s) < 2 ^ 15 \<and> unat (sv_slices_num (rv_server s)) + 1 < 2 ^ 32 \<longrightarrow>
        sv_slices_num (rv_server s) \<noteq> 0 \<and> unat (sv_slices_num (rv_server s)) + 1 \<le> n) \<and>
     (\<forall>i < j. \<exists>r. cn_result (rv_conns s ! (rv_res s ! i)) = Some (Returned r))"

definition recv_inv :: "'d recv_env \<Rightarrow> receiver \<Rightarrow> bool" where
  "recv_inv en s \<longleftrightarrow> recv_base en s \<and> sup_inv (recv_wait s) \<and>
     (\<forall>j n. rv_sup s = SupGet j n \<longrightarrow> j \<le> n \<and> got_inv s j n) \<and>
     (rv_report s \<noteq> [] \<longrightarrow> (\<exists>n. got_inv s n n))"

lemma got_mono:
  assumes "got_inv s j n" and "j \<le> n" and "rv_res s' = rv_res s @ xs"
    and "sv_slices_num (rv_server s') = sv_slices_num (rv_server s) \<or> sv_slices_num (rv_server s) = 0"
    and "\<forall>k. cn_result (rv_conns s ! k) \<noteq> None \<longrightarrow> cn_result (rv_conns s' ! k) = cn_result (rv_conns s ! k)"
  shows "got_inv s' j n"
proof -
  have "\<exists>r. cn_result (rv_conns s' ! (rv_res s' ! i)) = Some (Returned r)" if i: "i < j" for i
  proof -
    obtain r where "cn_result (rv_conns s ! (rv_res s ! i)) = Some (Returned r)" using assms(1) i by (auto simp: got_inv_def)
    moreover have "rv_res s' ! i = rv_res s ! i" using assms(1-3) i by (simp add: got_inv_def nth_append)
    ultimately show ?thesis using assms(5) by simp
  qed
  then show ?thesis using assms(1,3,4) by (auto simp: got_inv_def)
qed

lemma recv_step_grows:
  assumes "recv_base en s" and "recv_step en s s'"
  shows "\<exists>xs. rv_res s' = rv_res s @ xs"
    and "sv_slices_num (rv_server s') = sv_slices_num (rv_server s) \<or> sv_slices_num (rv_server s) = 0"
    and "cn_result (rv_conns s ! k) \<noteq> None \<longrightarrow> cn_result (rv_conns s' ! k) = cn_result (rv_conns s ! k)"
proof -
  have "(\<exists>xs. rv_res s' = rv_res s @ xs) \<and>
    (sv_slices_num (rv_server s') = sv_slices_num (rv_server s) \<or> sv_slices_num (rv_server s) = 0) \<and>
    (cn_result (rv_conns s ! k) \<noteq> None \<longrightarrow> cn_result (rv_conns s' ! k) = cn_result (rv_conns s ! k))"
    using assms(2)
  proof cases
    case (round i w sv c)
    have "counters (rv_server s) sv" by (rule conn_round_counters [OF round(5)]) (simp add: recv_map_not_null)
    then show ?thesis using round assms(1) by (cases "i = k") (auto simp: counters_def recv_base_def)
  next
    case supervise
    then show ?thesis using sup_next_keeps [OF supervise(3)] by simp
  qed simp_all
  then show "\<exists>xs. rv_res s' = rv_res s @ xs"
    "sv_slices_num (rv_server s') = sv_slices_num (rv_server s) \<or> sv_slices_num (rv_server s) = 0"
    "cn_result (rv_conns s ! k) \<noteq> None \<longrightarrow> cn_result (rv_conns s' ! k) = cn_result (rv_conns s ! k)" by blast+
qed

lemma got_step:
  assumes "recv_base en s" and "recv_step en s s'" and "got_inv s j n" and "j \<le> n"
  shows "got_inv s' j n"
proof -
  obtain xs where "rv_res s' = rv_res s @ xs" using recv_step_grows(1) [OF assms(1,2)] by blast
  then show ?thesis
    by (rule got_mono [OF assms(3,4)]) (use recv_step_grows(2,3) [OF assms(1,2)] in blast)+
qed

text \<open>Only the supervisor moves beyond its wait, and only its end writes the report.\<close>

lemma sup_moves:
  "recv_step en s s' \<Longrightarrow> rv_report s' = rv_report s \<and> (\<forall>j n. rv_sup s' = SupGet j n \<longrightarrow> rv_sup s = SupGet j n)
    \<or> sup_next en (rv_sup s) s = Some s'"
  by (erule recv_step.cases) (simp_all add: recv_notify_def)

lemma recv_inv_step:
  assumes "recv_inv en s" and st: "recv_step en s s'"
  shows "recv_inv en s'"
proof -
  have b: "recv_base en s" and w: "sup_inv (recv_wait s)" using assms(1) by (simp_all add: recv_inv_def)
  have b': "recv_base en s'" by (rule base_step [OF b st])
  have w': "sup_inv (recv_wait s')" using wait_refines [OF b st] wait_step_inv w by auto
  have old: "\<exists>m. got_inv s' m m" if "rv_report s \<noteq> []"
    using assms(1) that got_step [OF b st] by (auto simp: recv_inv_def)
  from sup_moves [OF st] show ?thesis
  proof
    assume "rv_report s' = rv_report s \<and> (\<forall>j n. rv_sup s' = SupGet j n \<longrightarrow> rv_sup s = SupGet j n)"
    then show ?thesis using assms(1) b' w' old got_step [OF b st] by (auto simp: recv_inv_def)
  next
    assume nx: "sup_next en (rv_sup s) s = Some s'"
    have got: "got_inv s' j n" if "got_inv s j n" "j \<le> n" for j n using got_step [OF b st that] .
    consider pc where "rv_sup s = SupWait pc" "pc \<noteq> SupGo" | "rv_sup s = SupWait SupGo" | j n where "rv_sup s = SupGet j n" "j < n"
      | j n where "rv_sup s = SupGet j n" "\<not> j < n"
      using nx by (cases "rv_sup s") (blast, metis linorder_not_less, simp)
    then show ?thesis
    proof cases
      case (1 pc)
      then have "rv_report s' = rv_report s" "\<forall>j n. rv_sup s' \<noteq> SupGet j n" using 1 nx by (cases pc; auto)+
      then show ?thesis using b' w' old by (simp add: recv_inv_def)
    next
      case 2
      have "su_pc (recv_wait s) = SupGo" "su_accepted (recv_wait s) \<le> length (rv_res s)"
        "su_slices_num (recv_wait s) = sv_slices_num (rv_server s)" using 2 by (simp_all add: recv_wait_def counted_def)
      then have "got_inv s 0 (length (rv_res s))" using w unfolding sup_inv_def got_inv_def by auto
      then have "got_inv s' 0 (length (rv_res s))" by (rule got) simp
      moreover have "rv_report s' = rv_report s" "\<forall>j n. rv_sup s' = SupGet j n \<longrightarrow> j = 0 \<and> n = length (rv_res s)"
        using 2 nx by (auto split: if_splits)
      ultimately show ?thesis using b' w' old by (auto simp: recv_inv_def)
    next
      case (3 j n)
      have g: "got_inv s j n" using assms(1) 3 by (simp add: recv_inv_def)
      show ?thesis
      proof (cases "\<exists>r. cn_result (rv_conns s ! (rv_res s ! j)) = Some (Returned r)")
        case True
        then have s': "s' = s\<lparr>rv_sup := SupGet (Suc j) n\<rparr>" using nx 3 by auto
        have "got_inv s (Suc j) n" using g True by (auto simp: got_inv_def less_Suc_eq)
        then have "got_inv s' (Suc j) n" using 3(2) by (intro got) simp_all
        then show ?thesis using b' w' old s' 3(2) by (simp add: recv_inv_def)
      next
        case False
        then have "rv_report s' = rv_report s" "\<forall>j n. rv_sup s' \<noteq> SupGet j n"
          using nx 3 by (auto split: option.splits handler_result.splits)
        then show ?thesis using b' w' old by (simp add: recv_inv_def)
      qed
    next
      case (4 j n)
      then have jn: "j = n" "got_inv s n n" using assms(1) by (auto simp: recv_inv_def)
      then have "got_inv s' n n" by (intro got) simp_all
      moreover have "\<forall>i m. rv_sup s' = SupGet i m \<longrightarrow> i = n \<and> m = n"
        using nx 4 jn(1) by (auto simp: sup_report_def sup_end_def split: sum.splits run.splits sup_result.splits)
      ultimately show ?thesis using b' w' by (auto simp: recv_inv_def)
    qed
  qed
qed

interpretation receiving_program: invariant_system "\<lambda>s. s = recv_init en \<and> (\<exists>n. pool_size (re_jobs en) = Inr n)" "recv_step en" "recv_inv en"
  for en :: "'d recv_env"
proof (unfold_locales, goal_cases)
  case (1 s)
  then obtain n where n: "pool_size (re_jobs en) = Inr n" "s = recv_init en" by blast
  then have "rv_sup s = SupWait SupEval" "rv_report s = []" by (simp_all add: recv_init_def Let_def)
  moreover have "sup_inv sup_start" by (rule sup.init_inv) simp
  ultimately show ?case using n base_init [OF n(1)] wait_init [OF n(1)] by (simp add: recv_inv_def)
next
  case (2 s t)
  then show ?case by (rule recv_inv_step)
qed

lemma reach_recv_inv:
  assumes "rtranclp (recv_step en) (recv_init en) s" and "0 \<le> sint (re_jobs en)" and "sint (re_jobs en) < int_max"
  shows "recv_inv en s"
  using receiving_program.reach_inv [OF _ assms(1)] pool_size_jobs [OF assms(2,3)] by blast

end
