(* ===== verification/Header_Exchange.thy ===== *)
theory Header_Exchange
  imports Sending_Flow Recv_Flow
begin

section \<open>The file header, from sender to receiver\<close>

text \<open>
  The sender announces the file as the text \<open>S<file size>#<number of slices>\<close>; the receiver reads
  at most 17 bytes of it and takes the two numbers apart again. This theory shows when that
  works, and what the receiver believes when the header is longer than it reads.
\<close>

text \<open>The receiver's static state once it has accepted a header.\<close>

definition header_state :: "(u64 \<Rightarrow> mapping) \<Rightarrow> server \<Rightarrow> u64 \<Rightarrow> u32 \<Rightarrow> server" where
  "header_state map_file sv n k =
     sv\<lparr>sv_file_size := n, sv_slices_num := k, sv_split_len := n div ucast k,
       sv_reads_max_bytes := reads_max_for (n div ucast k), sv_start := map_file n\<rparr>"

lemma recv_file_header_sent:
  assumes "es \<noteq> []" "list_all is_digit es" "0 < digits_value es" "digits_value es < 2 ^ 32"
  shows "recv_file_header map_file sv (83 # print_nat (unat n) @ 35 # es)
    = Return 0 (header_state map_file sv n (of_nat (digits_value es)))"
  using recv_file_header_digits [OF print_nat_ne print_nat_digits _ assms, of "unat n" map_file sv]
    unat_u64_less [of n] by (simp add: digits_value_print header_state_def ucast_u32_of_nat [OF assms(4)])

lemma recv_file_header_whole:
  assumes "k \<noteq> 0"
  shows "recv_file_header map_file sv (file_header n k) = Return 0 (header_state map_file sv n (ucast k))"
proof -
  have "unat k < 2 ^ 16" using unsigned_less [of k] by simp
  then have k: "0 < unat k" "unat k < 2 ^ 32" using assms by (simp_all add: unat_gt_0)
  have "(of_nat (unat k) :: u32) = ucast k" by simp
  then show ?thesis
    using recv_file_header_sent [of "print_nat (unat k)" map_file sv n] k
    by (simp add: file_header_def ascii_S_def ascii_hash_def digits_value_print print_nat_ne print_nat_digits)
qed

text \<open>The handler of the header connection, before anything has been received.\<close>

definition header_start :: "server \<Rightarrow> bool" where
  "header_start sv \<longleftrightarrow> sv_split_len sv = 0 \<and> sv_start sv = MapNull"

lemma recv_iter_header:
  assumes "header_start sv"
  shows "recv_iter z map_file sv recv_start (WakeIn rs) pending
    = (case read_loop 17 pending [] rs of
         ReadMore \<Rightarrow> (Hang, pending)
       | ReadError rest \<Rightarrow> (Return (-1) (sv\<lparr>sv_reads_max_bytes := 17\<rparr>), rest)
       | ReadDone bs rest _ \<Rightarrow> (recv_file_header map_file (sv\<lparr>sv_reads_max_bytes := 17\<rparr>) bs, rest))"
  using assms
  by (simp add: recv_iter_def recv_prepare_def expects_header_def header_start_def recv_start_def recv_process_def
      recv_read_error_def kFileSliceHeaderLen_def split: read_result.splits)

lemma header_state_reads_max: "header_state map_file (sv\<lparr>sv_reads_max_bytes := m\<rparr>) n k = header_state map_file sv n k"
  by (simp add: header_state_def)

text \<open>Whatever the events: a handler that took the whole header and returned 0 has set the state the
  sender meant.\<close>

lemma recv_loop_header:
  assumes "header_start sv" and "k \<noteq> 0"
  shows "recv_loop z map_file sv recv_start ws (file_header n k) = (Return 0 sv', []) \<Longrightarrow>
    sv' = header_state map_file sv n (ucast k)"
proof (induction ws)
  case Nil
  then show ?case by simp
next
  case (Cons w ws)
  show ?case
  proof (cases w)
    case WakeFail
    with Cons show ?thesis by (simp add: recv_iter_def)
  next
    case WakeOther
    with Cons show ?thesis by (simp add: recv_iter_def)
  next
    case (WakeIn rs)
    show ?thesis
    proof (cases "read_loop 17 (file_header n k) [] rs")
      case (ReadDone bs rest rs')
      then have split: "file_header n k = bs @ rest" using read_loop_conserves by fastforce
      from Cons.prems have "rest = [] \<and> recv_file_header map_file (sv\<lparr>sv_reads_max_bytes := 17\<rparr>) bs = Return 0 sv'"
      proof (cases "recv_file_header map_file (sv\<lparr>sv_reads_max_bytes := 17\<rparr>) bs")
        case (Again a b)
        then show ?thesis
          by (auto simp: recv_file_header_def Let_def split: if_splits option.splits sum.splits)
      qed (use Cons.prems WakeIn ReadDone recv_iter_header [OF assms(1), of z] in auto)
      then show ?thesis
        using split recv_file_header_whole [OF assms(2), of map_file "sv\<lparr>sv_reads_max_bytes := 17\<rparr>" n]
        by (simp add: header_state_reads_max)
    qed (use Cons.prems WakeIn recv_iter_header [OF assms(1), of z] in auto)
  qed
qed

text \<open>Dropping digits from the end of a number.\<close>

lemma digits_value_take:
  "m \<le> length ds \<Longrightarrow> list_all is_digit ds \<Longrightarrow> digits_value (take m ds) = digits_value ds div 10 ^ (length ds - m)"
proof (induction ds rule: rev_induct)
  case Nil
  then show ?case by simp
next
  case (snoc d ds)
  show ?case
  proof (cases "m \<le> length ds")
    case True
    have d: "unat d - 48 < 10" using snoc.prems(2) by (simp add: is_digit_def) arith
    have "digits_value (ds @ [d]) div 10 ^ (Suc (length ds) - m) = digits_value (ds @ [d]) div 10 div 10 ^ (length ds - m)"
      using True by (simp add: Suc_diff_le div_mult2_eq)
    also have "digits_value (ds @ [d]) div 10 = digits_value ds" using d by (simp add: digits_value_snoc)
    finally show ?thesis using snoc True by simp
  next
    case False
    with snoc.prems(1) have "m = Suc (length ds)" by simp
    then show ?thesis by simp
  qed
qed

text \<open>The first 17 bytes, when the file size leaves room for a digit of the number of slices.\<close>

lemma take_file_header:
  assumes "length (print_nat (unat n)) < 15"
  shows "take 17 (file_header n k)
    = 83 # print_nat (unat n) @ 35 # take (15 - length (print_nat (unat n))) (print_nat (unat k))"
proof -
  obtain r where r: "15 - length (print_nat (unat n)) = r" "16 - length (print_nat (unat n)) = Suc r"
    using assms by (cases "15 - length (print_nat (unat n))") auto
  then show ?thesis using assms by (simp add: file_header_def ascii_S_def ascii_hash_def)
qed

lemma print_nat_ge: "0 < n \<Longrightarrow> 10 ^ (length (print_nat n) - 1) \<le> n"
proof (induction n rule: print_nat.induct)
  case (1 n)
  show ?case
  proof (cases "n < 10")
    case True
    then show ?thesis using 1(2) by (subst print_nat.simps) simp
  next
    case False
    have ne: "0 < length (print_nat (n div 10))" by (simp add: print_nat_ne)
    have "10 ^ (length (print_nat (n div 10)) - 1) * 10 \<le> n"
      using 1(1) [OF False] False by (simp add: less_eq_div_iff_mult_less_eq)
    then have "10 ^ length (print_nat (n div 10)) \<le> n" using ne by (metis One_nat_def Suc_pred mult.commute power_Suc)
    then show ?thesis using False by (subst print_nat.simps) simp
  qed
qed

lemma length_file_header: "length (file_header n k) = 2 + length (print_nat (unat n)) + length (print_nat (unat k))"
  by (simp add: file_header_def)

text \<open>A slice message starts with the high byte of the index, so below 21248 slices it does not look like
  a header.\<close>

lemma slice_message_first:
  assumes "unat (fs_index f) < 83 * 256"
  shows "hd (slice_message f y) \<noteq> 83"
proof -
  let ?m = "slice_message f y"
  have "unat (fs_index f) div 256 < 83" using assms by (simp add: less_mult_imp_div_less)
  then have "unat (ucast (drop_bit 8 (fs_index f)) :: byte) < 83"
    by (simp add: unsigned_ucast_eq drop_bit_eq_div unat_div_distrib le_less_trans [OF take_bit_nat_less_eq_self])
  then have "(ucast (drop_bit 8 (fs_index f)) :: byte) \<noteq> 83" by auto
  moreover have "hd ?m = ucast (drop_bit 8 (fs_index f))"
    by (simp add: slice_message_def slice_header_def put_u16_big_endian)
  ultimately show ?thesis by simp
qed

lemma recv_header_pieces:
  assumes "header_start sv" and "k \<noteq> 0" and "length (file_header n k) \<le> 17"
    and "list_all ((<) 0) ks" and "length (file_header n k) \<le> sum_list ks"
  shows "Recv z map_file True sv [WakeIn (map Ok ks @ [Err EAGAIN])] (file_header n k)
    = (Return 0 (header_state map_file sv n (ucast k)), [])"
proof -
  obtain rs' where "read_loop 17 (file_header n k) [] (map Ok ks @ [Err EAGAIN]) = ReadDone (file_header n k) [] rs'"
    using read_loop_pieces [OF assms(4,5), of "[]" 17] assms(3) by auto
  then show ?thesis
    using recv_iter_header [OF assms(1), of z] recv_file_header_whole [OF assms(2), of map_file]
    by (simp add: Recv_def header_state_reads_max)
qed

text \<open>A header that is only read in part does not announce more slices.\<close>

lemma header_prefix:
  assumes "prefix bs (file_header n k)" and "find_hash bs \<noteq> None"
  obtains es where "bs = 83 # print_nat (unat n) @ 35 # es" and "prefix es (print_nat (unat k))"
proof -
  let ?A = "83 # print_nat (unat n)" and ?P = "print_nat (unat k)"
  have nh: "35 \<notin> set ?A" using print_nat_no_hash by simp
  have fh: "file_header n k = ?A @ 35 # ?P" by (simp add: file_header_def ascii_S_def ascii_hash_def)
  have no: "35 \<notin> set xs \<Longrightarrow> find_hash xs = None" for xs by (induction xs) auto
  have "\<not> prefix bs ?A"
  proof
    assume "prefix bs ?A"
    then have "set bs \<subseteq> set ?A" by (rule set_mono_prefix)
    then have "35 \<notin> set bs" using nh by (rule contra_subsetD)
    then show False using no assms(2) by simp
  qed
  moreover have "prefix bs (?A @ 35 # ?P)" using assms(1) unfolding fh .
  ultimately obtain zs where zs: "bs = ?A @ zs" "prefix zs (35 # ?P)" unfolding prefix_append by blast
  have "zs \<noteq> []" using no [OF nh] assms(2) unfolding zs(1) by (metis append_Nil2)
  then obtain es where "zs = 35 # es" "prefix es ?P" using zs(2) by (cases zs) auto
  then show ?thesis using that zs(1) by simp
qed

text \<open>The digits of the number of slices that are there: never 0, and no more than the number.\<close>

lemma prefix_digits:
  assumes "prefix es (print_nat (unat (k :: u16)))" and "es \<noteq> []"
  shows "list_all is_digit es" and "digits_value es \<le> unat k" and "digits_value es < 2 ^ 16" and "k \<noteq> 0 \<Longrightarrow> 0 < digits_value es"
proof -
  let ?P = "print_nat (unat k)"
  obtain r where r: "?P = es @ r" using assms(1) by (auto simp: prefix_def)
  show "list_all is_digit es" using print_nat_digits [of "unat k"] r by simp
  show le: "digits_value es \<le> unat k" using digits_value_append [of es r] digits_value_print [of "unat k"] r by simp
  have "unat k < 2 ^ 16" using unsigned_less [of k] by simp
  with le show "digits_value es < 2 ^ 16" by simp
  assume "k \<noteq> 0"
  have "(10 :: nat) ^ length r \<le> 10 ^ (length ?P - 1)" using r assms(2) by (intro power_increasing; cases es) simp_all
  also have "\<dots> \<le> unat k" using \<open>k \<noteq> 0\<close> by (intro print_nat_ge) (simp add: unat_gt_0)
  finally have "0 < unat k div 10 ^ length r" by (simp add: div_greater_zero_iff)
  moreover have "digits_value es = unat k div 10 ^ length r"
    using digits_value_take [of "length es" ?P] print_nat_digits [of "unat k"] digits_value_print [of "unat k"] r by simp
  ultimately show "0 < digits_value es" by simp
qed

lemma header_part:
  assumes "prefix es (print_nat (unat (k :: u16)))" and "es \<noteq> []" and "k \<noteq> 0"
  shows "recv_file_header map_file sv (83 # print_nat (unat n) @ 35 # es) = Return 0 (header_state map_file sv n (of_nat (digits_value es)))"
  using recv_file_header_sent [OF assms(2) prefix_digits(1) [OF assms(1,2)] prefix_digits(4) [OF assms(1-3)], of map_file sv n]
    prefix_digits(3) [OF assms(1,2)] by simp

text \<open>Whatever part of the header has come, its handler does not crash, and the number of slices it takes
  from it is no more than the sender's.\<close>

lemma header_no_fault:
  assumes pf: "prefix bs (file_header n k)" and k: "k \<noteq> 0"
  shows "recv_file_header map_file sv bs \<noteq> Fault e"
proof (cases "find_hash bs = None")
  case True
  then show ?thesis by (simp add: recv_file_header_def)
next
  case False
  then obtain es where es: "bs = 83 # print_nat (unat n) @ 35 # es" "prefix es (print_nat (unat k))" by (rule header_prefix [OF pf])
  show ?thesis
  proof (cases "es = []")
    case True
    have "find_hash bs = Some (Suc (length (print_nat (unat n))))"
      using find_hash_append [of "83 # print_nat (unat n)" es] print_nat_no_hash by (simp add: es(1))
    then show ?thesis by (auto simp: recv_file_header_def es(1) True stoul_def Let_def split: sum.split)
  next
    case False
    then show ?thesis using header_part [OF es(2) _ k] es(1) by simp
  qed
qed

lemma header_count:
  assumes h: "recv_file_header map_file sv bs = Return 0 sv'" and pf: "prefix bs (file_header n k)"
  shows "unat (sv_slices_num sv') \<le> unat k"
proof -
  have "find_hash bs \<noteq> None" using h by (cases "find_hash bs") (simp_all add: recv_file_header_def split: if_splits)
  then obtain es where es: "bs = 83 # print_nat (unat n) @ 35 # es" "prefix es (print_nat (unat k))" by (rule header_prefix [OF pf])
  have pos: "find_hash bs = Some (Suc (length (print_nat (unat n))))"
    using find_hash_append [of "83 # print_nat (unat n)" es] print_nat_no_hash by (simp add: es(1))
  then obtain v where v: "stoul es = Inr v" "sv_slices_num sv' = ucast v"
    using h by (auto simp: recv_file_header_def es(1) Let_def split: if_splits sum.splits)
  then have ne: "es \<noteq> []" by (auto simp: stoul_def)
  note d = prefix_digits [OF es(2) ne]
  have "v = of_nat (digits_value es)" using stoul_digits [OF ne d(1), of "[]"] d(3) v(1) by simp
  then have "sv_slices_num sv' = of_nat (digits_value es)" using v(2) by (simp add: ucast_of_nat_u32)
  then show ?thesis using d(2,3) by (simp add: unat_of_nat take_bit_nat_eq_self)
qed

subsection \<open>Properties\<close>



text \<open>Which headers are short enough: all of those for files below ten billion bytes.\<close>

theorem file_header_fits:
  assumes "unat n < 10 ^ 10"
  shows "length (file_header n k) \<le> kFileSliceHeaderLen + 1"
proof -
  have "length (print_nat (unat n)) \<le> 10" using assms by (rule length_print_nat_le) simp
  moreover have "unat k < 2 ^ 16" using unsigned_less [of k] by simp
  then have "length (print_nat (unat k)) \<le> 5" by (intro length_print_nat_le) simp_all
  ultimately show ?thesis by (simp add: length_file_header kFileSliceHeaderLen_def)
qed

theorem file_header_fits_witness: "length (file_header 9999999999 65535) \<le> kFileSliceHeaderLen + 1"
  by (rule file_header_fits) simp

text \<open>(C32) A longer header is cut off after 17 bytes and accepted all the same: the receiver loses
  the last digits of the number of slices and works with a split length that is too large.\<close>

theorem header_truncated:
  assumes "header_start sv" and "k \<noteq> 0" and "length (print_nat (unat n)) < 15"
    and "17 < length (file_header n k)"
  shows "Recv z map_file True sv [WakeIn [Ok (length (file_header n k))]] (file_header n k)
    = (Return 0 (header_state map_file sv n (of_nat (unat k div 10 ^ (length (file_header n k) - 17)))),
       drop 17 (file_header n k))"
proof -
  define m where "m = 15 - length (print_nat (unat n))"
  let ?es = "take m (print_nat (unat k))" and ?e = "length (file_header n k) - 17"
  have k: "0 < unat k" using assms(2) by (simp add: unat_gt_0)
  have "unat k < 2 ^ 16" using unsigned_less [of k] by simp
  moreover have m: "0 < m" "m < length (print_nat (unat k))" and e: "?e = length (print_nat (unat k)) - m"
    using assms(3,4) by (auto simp: length_file_header m_def)
  moreover from e m(2) have v: "digits_value ?es = unat k div 10 ^ ?e"
    by (simp add: digits_value_take print_nat_digits digits_value_print)
  moreover have "10 ^ ?e \<le> (10 :: nat) ^ (length (print_nat (unat k)) - 1)"
    using e m by (intro power_increasing) simp_all
  then have "10 ^ ?e \<le> unat k" using print_nat_ge [OF k] by linarith
  then have "0 < unat k div 10 ^ ?e" by (simp add: div_greater_zero_iff)
  moreover have "unat k div 10 ^ ?e < 2 ^ 32"
    using \<open>unat k < 2 ^ 16\<close> by (intro le_less_trans [OF div_le_dividend]) simp
  ultimately have "recv_file_header map_file (sv\<lparr>sv_reads_max_bytes := 17\<rparr>) (take 17 (file_header n k))
      = Return 0 (header_state map_file sv n (of_nat (unat k div 10 ^ ?e)))"
    unfolding take_file_header [OF assms(3)] m_def [symmetric]
    by (subst recv_file_header_sent)
      (use print_nat_digits [of "unat k"] in \<open>auto simp: header_state_reads_max list_all_iff print_nat_ne dest: in_set_takeD\<close>)
  then show ?thesis
    using recv_iter_header [OF assms(1), of z] assms(4) by (simp add: Recv_def Let_def)
qed

theorem header_truncated_witness:
  "Recv store_d (\<lambda>n. Mapped (replicate (unat n) 0)) True server_init
      [WakeIn [Ok (length (file_header 100000000000 1024))]] (file_header 100000000000 1024)
    = (Return 0 (header_state (\<lambda>n. Mapped (replicate (unat n) 0)) server_init 100000000000
         (of_nat (unat (1024 :: u16) div 10 ^ (length (file_header 100000000000 1024) - 17)))),
       drop 17 (file_header 100000000000 1024))"
  by (rule header_truncated)
    (simp_all add: header_start_def server_init_def file_header_def print_nat.simps)

text \<open>(C33) A slice whose handler runs before the header has been processed is taken for the header:
  its first bytes are read and thrown away, and the handler fails.\<close>

theorem slice_before_header:
  assumes "header_start sv" and "0 < k" and "unat (fs_index f) < 83 * 256"
  shows "Recv z map_file True sv [WakeIn [Ok k, Err EAGAIN]] (slice_message f y)
    = (Return (-1) (sv\<lparr>sv_reads_max_bytes := 17\<rparr>), drop (min k 17) (slice_message f y))"
proof -
  let ?m = "slice_message f y"
  have hd: "hd ?m \<noteq> 83" by (rule slice_message_first [OF assms(3)])
  have "\<exists>rs'. read_loop 17 ?m [] [Ok k, Err EAGAIN] = ReadDone (take (min k 17) ?m) (drop (min k 17) ?m) rs'"
    using assms(2) by (auto simp: Let_def IsSocketError_def slice_message_def)
  moreover have "recv_file_header map_file sv' (take (min k 17) ?m) = Return (-1) sv'" for sv'
    using hd assms(2) by (cases ?m) (auto simp: recv_file_header_def take_Cons')
  ultimately show ?thesis
    using recv_iter_header [OF assms(1), of z] by (auto simp: Recv_def)
qed

theorem slice_before_header_witness:
  "Recv store_d (\<lambda>n. Mapped (replicate (unat n) 0)) True server_init
      [WakeIn [Ok 100, Err EAGAIN]] (slice_message (FileSlice [5, 6] 0 2 2) [5, 6])
    = (Return (-1) (server_init\<lparr>sv_reads_max_bytes := 17\<rparr>),
       drop (min 100 17) (slice_message (FileSlice [5, 6] 0 2 2) [5, 6]))"
  by (rule slice_before_header) (simp_all add: header_start_def server_init_def FileSlice_def)

text \<open>A header that arrives in two parts, with the first digits of the number of slices in the first: the
  handler takes these for the number, returns 0 and closes the connection.\<close>

theorem header_torn:
  assumes "header_start sv" and "k \<noteq> 0" and "length (print_nat (unat n)) + 2 < j"
    and "j \<le> length (file_header n k)" and "j \<le> 17"
  shows "Recv z map_file True sv [WakeIn [Ok j, Err EAGAIN]] (file_header n k)
    = (Return 0 (header_state map_file sv n (of_nat (unat k div 10 ^ (length (file_header n k) - j)))), drop j (file_header n k))"
proof -
  define m where "m = j - 2 - length (print_nat (unat n))"
  let ?P = "print_nat (unat k)" and ?e = "length (file_header n k) - j"
  have tk: "take j (file_header n k) = 83 # print_nat (unat n) @ 35 # take m ?P"
    using assms(3) by (cases j) (auto simp: file_header_def ascii_S_def ascii_hash_def m_def take_Cons' less_Suc_eq_le)
  have m: "0 < m" "m \<le> length ?P" "?e = length ?P - m" using assms(3,4) by (auto simp: length_file_header m_def)
  then have "digits_value (take m ?P) = unat k div 10 ^ ?e" by (simp add: digits_value_take print_nat_digits digits_value_print)
  moreover have "take m ?P \<noteq> []" using m(1) print_nat_ne by auto
  ultimately have h: "recv_file_header map_file (sv\<lparr>sv_reads_max_bytes := 17\<rparr>) (take j (file_header n k))
      = Return 0 (header_state map_file sv n (of_nat (unat k div 10 ^ ?e)))"
    unfolding tk using header_part [OF take_is_prefix _ assms(2)] by (simp add: header_state_reads_max)
  have j0: "0 < j" "min j 17 = j" using assms(3,5) by auto
  have "\<exists>rs'. read_loop 17 (file_header n k) [] [Ok j, Err EAGAIN] = ReadDone (take j (file_header n k)) (drop j (file_header n k)) rs'"
    using j0 assms(4,5) by (auto simp: Let_def IsSocketError_def)
  then show ?thesis using recv_iter_header [OF assms(1), of z] h by (auto simp: Recv_def)
qed

theorem header_torn_witness:
  "Recv store_d (\<lambda>n. Mapped (replicate (unat n) 0)) True server_init [WakeIn [Ok 5, Err EAGAIN]] (file_header 24 12)
    = (Return 0 (header_state (\<lambda>n. Mapped (replicate (unat n) 0)) server_init 24
         (of_nat (unat (12 :: u16) div 10 ^ (length (file_header 24 12) - 5)))), drop 5 (file_header 24 12))"
  by (rule header_torn) (simp_all add: header_start_def server_init_def file_header_def print_nat.simps)

lemma ucast_u16_u32: "n < 2 ^ 16 \<Longrightarrow> (ucast (of_nat n :: u16) :: u32) = of_nat n"
  by (metis of_nat_unat unat_u16_of_nat)

text \<open>(C27) Whether the two sides mean the same places: given the whole header of a sound split, the receiver
  returns 0 with the sender's segment size as its split length exactly when the rest of the split is smaller
  than the number of slices. The exception is a split into 65536 slices, which the 16 bits of the announced
  number turn into 0: the receiver then divides by zero.\<close>

theorem split_len_agreement:
  assumes "split_ok (fl, data)" and "f \<in> set (split_slices fl data)"
  shows "if length (split_slices fl data) = 65536
    then recv_file_header map_file sv (file_header (of_nat (length data)) (of_nat (length (split_slices fl data)))) = Fault DivByZero
    else \<exists>sv'. recv_file_header map_file sv (file_header (of_nat (length data)) (of_nat (length (split_slices fl data)))) = Return 0 sv' \<and>
      (sv_split_len sv' = fs_split_len f \<longleftrightarrow> length data mod unat (fs_split_len f) < length (split_slices fl data))"
proof -
  let ?N = "length data" and ?n = "length (split_slices fl data)"
  have N: "?N < 2 ^ 64" using assms(1) by (rule split_okE)
  from assms obtain S where S: "0 < S" "S \<le> ?N" "?n = ?N div S" "?N div S \<le> 2 ^ 16" "unat (fs_split_len f) = S"
    by (auto simp: in_set_conv_nth elim!: split_slices_nth)
  show ?thesis
  proof (cases "?n = 65536")
    case True
    have "file_header (of_nat ?N) (of_nat ?n) = 83 # print_nat ?N @ 35 # [48]"
      using N by (simp add: True file_header_def ascii_S_def ascii_hash_def unat_u64_of_nat print_nat.simps [of 0])
    moreover have "find_hash (83 # print_nat ?N @ 35 # [48]) = Some (Suc (length (print_nat ?N)))"
      using find_hash_append [of "83 # print_nat ?N" "[48]"] print_nat_no_hash [of ?N] by simp
    moreover have "stoul (print_nat ?N) = Inr (of_nat ?N)"
      using stoul_digits [OF print_nat_ne print_nat_digits, of "[]" ?N] N by (simp add: digits_value_print)
    moreover have "stoul [48] = Inr 0" using stoul_digits [of "[48]" "[]"] by (simp add: is_digit_def digits_value_def)
    ultimately show ?thesis using True by (simp add: recv_file_header_def Let_def)
  next
    case False
    then have n: "0 < ?n" "?n < 2 ^ 16" using S(1-4) by (simp_all add: div_greater_zero_iff)
    then have k: "unat (of_nat ?n :: u16) = ?n" by (simp add: unat_u16_of_nat)
    then have "(of_nat ?n :: u16) \<noteq> 0" using n(1) by (metis less_numeral_extra(3) unsigned_0)
    from recv_file_header_whole [OF this, of map_file sv "of_nat ?N"]
    have h: "recv_file_header map_file sv (file_header (of_nat ?N) (of_nat ?n)) = Return 0 (header_state map_file sv (of_nat ?N) (ucast (of_nat ?n :: u16)))" .
    have "(ucast (of_nat ?n :: u16) :: u32) = of_nat ?n" by (rule ucast_u16_u32 [OF n(2)])
    then have "unat (ucast (ucast (of_nat ?n :: u16) :: u32) :: u64) = ?n" using n(2) by (simp add: ucast_u32_of_nat unat_u64_of_nat)
    then have "unat (sv_split_len (header_state map_file sv (of_nat ?N) (ucast (of_nat ?n :: u16)))) = ?N div ?n"
      using N by (simp add: header_state_def unat_div unat_u64_of_nat)
    moreover have "?N div ?n = S \<longleftrightarrow> ?N mod S < ?n" using split_len_agree [OF S(1,2)] S(3) by simp
    ultimately have "sv_split_len (header_state map_file sv (of_nat ?N) (ucast (of_nat ?n :: u16))) = fs_split_len f \<longleftrightarrow> ?N mod S < ?n"
      using S(5) by (metis word_unat_eq_iff)
    then show ?thesis using h False S(5) by auto
  qed
qed

theorem split_len_agreement_witness:
  "\<exists>sv'. recv_file_header (\<lambda>_. MapNull) server_init (file_header 11 2) = Return 0 sv' \<and> sv_split_len sv' \<noteq> 4"
proof -
  let ?fl = "\<lparr>segment_size = 4, jobs = 1\<rparr>" and ?d = "replicate 11 (0 :: byte)"
  have ok: "split_ok (?fl, ?d)" by (simp add: split_ok_def split_flags_def int_max_def)
  have sl: "split_slices ?fl ?d = [FileSlice ?d 0 4 4, FileSlice ?d 1 7 4]"
    by (simp add: split_slices_def SplitFile_def split_flags_def int_max_def split_loop.simps)
  have f: "FileSlice ?d 0 4 4 \<in> set (split_slices ?fl ?d)" unfolding sl by simp
  show ?thesis using split_len_agreement [OF ok f, of "\<lambda>_. MapNull" server_init] unfolding sl by (auto simp: FileSlice_def)
qed

end
