(* ===== verification/Transfer_Plan.thy ===== *)
theory Transfer_Plan
  imports Header_Exchange File_Transfer
begin

section \<open>What makes a transfer work\<close>

text \<open>
  The sender's side of a transfer: its slices as they go out on their connections, and the plans for
  which sender and receiver agree. With a sound plan the state that the header sets up in the receiver
  is the setting in which \<open>File_Transfer\<close> shows the handlers to be right.
\<close>

text \<open>The sender has compressed slice \<open>j\<close> and sent it on its connection, which has got \<open>outs ! j\<close>.\<close>

definition slices_sent :: "'c zstd_c \<Rightarrow> zstd_util \<Rightarrow> file_slice list \<Rightarrow> nat sys list list \<Rightarrow> byte list list \<Rightarrow> bool" where
  "slices_sent z u fs rss outs \<longleftrightarrow> length outs = length fs \<and>
     (\<forall>j < length fs. \<exists>g. Compress z u (fs ! j) = Some (Inr (Some g)) \<and>
        SendFileSlice True g (rss ! j) = Done (0, outs ! j) \<and>
        length (concat (map c_mem (fs_compress_buf g))) < 2 ^ 32)"

lemma sent_frame:
  assumes "compressor_contract z taken given frame" and "slices_sent z u fs rss outs" and "j < length fs"
    and "fs_compress_buf (fs ! j) = []" and "unat (fs_len (fs ! j)) < 2 ^ 31"
  shows "\<exists>y. frame (slice_bytes (fs ! j)) y \<and> outs ! j = slice_message (fs ! j) y \<and> length y < 2 ^ 32"
proof -
  from assms(2,3) obtain g where g: "Compress z u (fs ! j) = Some (Inr (Some g))"
    "SendFileSlice True g (rss ! j) = Done (0, outs ! j)" "length (concat (map c_mem (fs_compress_buf g))) < 2 ^ 32"
    by (auto simp: slices_sent_def)
  have "unat (fs_len (fs ! j)) < 2 ^ 63" using assms(5) by simp
  from Compress_payloads [OF assms(1) g(1) assms(4) this] obtain ps where ps: "list_all (\<lambda>p. length p \<le> 2 ^ 30) ps"
    "g = compressed_slice (fs ! j) ps" "frame (slice_bytes (fs ! j)) (concat ps)" by blast
  have len: "length (concat ps) + 10 < 2 ^ 32" using g(3) ps(2) by (simp add: compressed_slice_chunks slice_message_def)
  have "list_all (\<lambda>p. length p < 2 ^ 31) ps" using ps(1) by (auto simp: list_all_iff)
  then have "outs ! j = slice_message (fs ! j) (concat ps)"
    using g(2) ps(2) len by (intro sent_slice_whole) simp_all
  with ps(3) len show ?thesis by (intro exI [of _ "concat ps"]) simp
qed

text \<open>What makes a plan for a transfer a sound one: the split is, both sides compute the same split
  length, the slices stay below 2 GiB and their number below 65536.\<close>

definition plan_ok :: "flags \<Rightarrow> byte list \<Rightarrow> bool" where
  "plan_ok fl data \<longleftrightarrow> split_ok (fl, data) \<and> length data < 2 ^ 63 \<and> length (split_slices fl data) < 2 ^ 16 \<and>
     list_all (\<lambda>f. unat (fs_split_len f) = length data div length (split_slices fl data) \<and> unat (fs_len f) < 2 ^ 31)
       (split_slices fl data)"

lemma plan_split_len:
  assumes "plan_ok fl data" and "f \<in> set (split_slices fl data)"
  shows "fs_split_len f = of_nat (length data) div ucast (ucast (of_nat (length (split_slices fl data)) :: u16) :: u32)"
    and "fs_split_len f \<noteq> 0"
proof -
  let ?N = "length data" and ?k = "length (split_slices fl data)"
  have k: "?k < 2 ^ 16" and N: "?N < 2 ^ 64" and s: "unat (fs_split_len f) = ?N div ?k"
    using assms by (auto simp: plan_ok_def list_all_iff)
  have "unat (ucast (of_nat ?k :: u16) :: u32) = ?k"
    using k by (simp add: unsigned_ucast_eq unat_u16_of_nat take_bit_nat_eq_self)
  then have "unat (ucast (ucast (of_nat ?k :: u16) :: u32) :: u64) = ?k"
    using k by (subst unsigned_ucast_eq) (simp add: take_bit_nat_eq_self)
  then show "fs_split_len f = of_nat ?N div ucast (ucast (of_nat ?k :: u16) :: u32)"
    using s N by (simp add: word_unat_eq_iff unat_div_distrib unat_u64_of_nat)
  from assms obtain S where S: "0 < S" "unat (fs_split_len f) = S"
    by (auto simp: plan_ok_def in_set_conv_nth elim!: split_slices_nth)
  then show "fs_split_len f \<noteq> 0" by auto
qed

text \<open>The header of a sound plan, once it has been taken in, makes the receiver ready.\<close>

lemma header_ready:
  assumes "plan_ok fl data" and "map_file (of_nat (length data)) = Mapped (replicate (length data) 0)"
    and "sv = header_state map_file sv0 (of_nat (length data)) (ucast (of_nat (length (split_slices fl data)) :: u16))"
  shows "ready sv (replicate (length data) 0)"
    and "f \<in> set (split_slices fl data) \<Longrightarrow> fs_split_len f = sv_split_len sv"
proof -
  show sl: "f \<in> set (split_slices fl data) \<Longrightarrow> fs_split_len f = sv_split_len sv" for f
    using plan_split_len(1) [OF assms(1)] assms(3) by (simp add: header_state_def)
  have "split_slices fl data \<noteq> []" using slices.count_pos [of "(fl, data)"] assms(1) by (auto simp: plan_ok_def)
  then obtain f where f: "f \<in> set (split_slices fl data)" by (cases "split_slices fl data") auto
  moreover have "10 < unat (reads_max_for n)" for n by (simp add: reads_max_for_def)
  ultimately show "ready sv (replicate (length data) 0)"
    using assms(2,3) plan_split_len(2) [OF assms(1) f] sl [OF f] by (simp add: ready_def header_state_def)
qed

text \<open>The compressed forms of the slices.\<close>

definition frames_ok :: "(byte list \<Rightarrow> byte list \<Rightarrow> bool) \<Rightarrow> file_slice list \<Rightarrow> byte list list \<Rightarrow> bool" where
  "frames_ok frame fs ys \<longleftrightarrow> length ys = length fs \<and>
     (\<forall>j < length ys. frame (slice_bytes (fs ! j)) (ys ! j) \<and> ys ! j \<noteq> [] \<and> length (ys ! j) < 2 ^ 32)"

lemma plan_setup:
  assumes "plan_ok fl data" and "frames_ok frame (split_slices fl data) ys"
    and "map_file (of_nat (length data)) = Mapped (replicate (length data) 0)"
    and "sv = header_state map_file sv0 (of_nat (length data)) (ucast (of_nat (length (split_slices fl data)) :: u16))"
  shows "transfer_setup frame fl data ys (sv_split_len sv)"
proof -
  have "sv_split_len sv \<noteq> 0" using header_ready(1) [OF assms(1,3,4)] by (simp add: ready_def)
  then show ?thesis using assms(1,2) header_ready(2) [OF assms(1,3,4)]
    by (auto simp: transfer_setup_def frames_ok_def plan_ok_def Let_def list_all_length)
qed

lemma plan_count:
  assumes "plan_ok fl data"
  shows "0 < length (split_slices fl data)" and "(of_nat (length (split_slices fl data)) :: u16) \<noteq> 0"
proof -
  show k: "0 < length (split_slices fl data)" using assms slices.count_pos [of "(fl, data)"] by (simp add: plan_ok_def)
  have "unat (of_nat (length (split_slices fl data)) :: u16) \<noteq> 0"
    using assms k by (simp add: plan_ok_def unat_u16_of_nat)
  then show "(of_nat (length (split_slices fl data)) :: u16) \<noteq> 0" by auto
qed

lemma plan_slice_nonempty:
  assumes "plan_ok fl data" and "j < length (split_slices fl data)"
  shows "slice_bytes (split_slices fl data ! j) \<noteq> []" and "fs_compress_buf (split_slices fl data ! j) = []"
    and "unat (fs_len (split_slices fl data ! j)) < 2 ^ 31" and "fs_index (split_slices fl data ! j) = of_nat j"
proof -
  have ok: "split_ok (fl, data)" using assms(1) by (simp add: plan_ok_def)
  from ok obtain S where S: "0 < S" "length (split_slices fl data) = length data div S"
    and at: "fs_slice (split_slices fl data ! j) = data \<and> fs_compress_buf (split_slices fl data ! j) = [] \<and> fs_index (split_slices fl data ! j) = of_nat j
      \<and> unat (fs_len (split_slices fl data ! j)) = (if Suc j = length data div S then S + length data mod S else S)"
    by (rule split_slices_nth) (use assms(2) in auto)
  have "0 < length (slice_bytes (split_slices fl data ! j))"
    using slices.piece_bound [OF ok, of j] assms(2) at S by (simp add: slice_bytes_def length_get_bytes)
  then show "slice_bytes (split_slices fl data ! j) \<noteq> []" by auto
  show "fs_compress_buf (split_slices fl data ! j) = []" "fs_index (split_slices fl data ! j) = of_nat j" using at by simp_all
  show "unat (fs_len (split_slices fl data ! j)) < 2 ^ 31" using assms by (auto simp: plan_ok_def list_all_length)
qed

subsection \<open>A sample transfer\<close>

text \<open>Seven bytes in two slices, with the storing codec: the setting of the witnesses.\<close>

definition sample_flags :: flags where
  "sample_flags = \<lparr>segment_size = 3, jobs = 1\<rparr>"

definition sample_data :: "byte list" where
  "sample_data = [1, 2, 3, 4, 5, 6, 7]"

definition sample_frames :: "byte list list" where
  "sample_frames = [[1, 2, 3], [4, 5, 6, 7]]"

lemma sample_slices:
  "split_slices sample_flags sample_data = [FileSlice sample_data 0 3 3, FileSlice sample_data 1 4 3]"
  by (simp add: split_slices_def SplitFile_def split_flags_def int_max_def split_loop.simps sample_flags_def
      sample_data_def)

lemma sample_plan: "plan_ok sample_flags sample_data"
proof -
  have "split_ok (sample_flags, sample_data)"
    by (simp add: split_ok_def split_flags_def int_max_def sample_flags_def sample_data_def)
  moreover have "length sample_data = 7" by (simp add: sample_data_def)
  ultimately show ?thesis unfolding plan_ok_def sample_slices by (simp add: FileSlice_def flip: numeral_2_eq_2)
qed

end
