(* ===== verification/Recv_Transfer.thy ===== *)
theory Recv_Transfer
  imports Recv_Program Transfer_Plan
begin

section \<open>The transfer, in the receiving program\<close>

text \<open>
  What the handlers of the receiving program do with the connections of a transfer. Before the header
  has been processed a slice handler fails, and afterwards the program is, for its slices, the system
  of \<open>File_Transfer\<close>; connections that break off or are never made are seen there as connections on
  which nothing more is read. So the output is the file whenever all handlers have returned 0,
  whatever the order in which the connections came, were accepted and were handled.
\<close>

subsection \<open>Connections that carry less than the whole message\<close>

text \<open>A handler on a connection that has got only a part of its message does what it would do on one with
  the whole message, with other results of the reads: \<open>miss\<close> is the part that never comes.\<close>

lemma read_loop_more:
  "\<exists>rs' us. (\<forall>acc' p' us0. read_loop n pending acc rs = ReadDone acc' p' us0 \<longrightarrow> read_loop n (pending @ miss) acc rs' = ReadDone acc' (p' @ miss) us)
    \<and> (\<forall>p'. read_loop n pending acc rs = ReadError p' \<longrightarrow> read_loop n (pending @ miss) acc rs' = ReadError (p' @ miss))
    \<and> (read_loop n pending acc rs = ReadMore \<longrightarrow> read_loop n (pending @ miss) acc rs' = ReadMore)"
proof (induction rs arbitrary: pending acc)
  case Nil
  then show ?case by (intro exI [of _ "[]"]) simp
next
  case (Cons r rs)
  have stop: "read_loop n (pending @ miss) acc [Err EAGAIN] = ReadDone acc (pending @ miss) []" by (simp add: IsSocketError_def)
  show ?case
  proof (cases r)
    case (Err e)
    show ?thesis
    proof (cases "\<not> IsSocketError (Err e :: nat sys) \<and> e = EINTR \<and> n - length acc > 0")
      case True
      obtain rs' us where "(\<forall>acc' p' us0. read_loop n pending acc rs = ReadDone acc' p' us0 \<longrightarrow> read_loop n (pending @ miss) acc rs' = ReadDone acc' (p' @ miss) us)
        \<and> (\<forall>p'. read_loop n pending acc rs = ReadError p' \<longrightarrow> read_loop n (pending @ miss) acc rs' = ReadError (p' @ miss))
        \<and> (read_loop n pending acc rs = ReadMore \<longrightarrow> read_loop n (pending @ miss) acc rs' = ReadMore)"
        using Cons.IH by blast
      with True Err show ?thesis by (intro exI [of _ "Err EINTR # rs'"] exI [of _ us]) simp
    next
      case False
      then show ?thesis using Err by (intro exI [of _ "[Err e]"] exI [of _ "[]"]) auto
    qed
  next
    case (Ok k)
    define got where "got = take (min k (n - length acc)) pending"
    define m where "m = length got"
    show ?thesis
    proof (cases "got = []")
      case True
      then have "min k (n - length acc) = 0 \<or> pending = []" by (simp add: got_def)
      then have "read_loop n pending acc (r # rs) = ReadDone acc pending rs" using Ok by (auto simp: Let_def)
      with stop show ?thesis by (intro exI [of _ "[Err EAGAIN]"] exI [of _ "[]"]) simp
    next
      case False
      have m: "min m (n - length acc) = m" "m \<le> length pending" "take m pending = got"
        "drop (min k (n - length acc)) pending = drop m pending"
        by (auto simp: m_def got_def min_def)
      have full: "read_loop n (pending @ miss) acc (Ok m # us) = (if n - length (acc @ got) > 0 then read_loop n (drop m pending @ miss) (acc @ got) us
          else ReadDone (acc @ got) (drop m pending @ miss) us)" for us
        using m False by (simp add: Let_def)
      have part: "read_loop n pending acc (r # rs) = (if n - length (acc @ got) > 0 then read_loop n (drop m pending) (acc @ got) rs
          else ReadDone (acc @ got) (drop m pending) rs)"
        using Ok False by (simp only: read_loop.simps sys.case Let_def got_def [symmetric] m(4) simp_thms)
      show ?thesis
      proof (cases "n - length (acc @ got) > 0")
        case True
        obtain rs' us where "(\<forall>acc' p' us0. read_loop n (drop m pending) (acc @ got) rs = ReadDone acc' p' us0 \<longrightarrow> read_loop n (drop m pending @ miss) (acc @ got) rs' = ReadDone acc' (p' @ miss) us)
          \<and> (\<forall>p'. read_loop n (drop m pending) (acc @ got) rs = ReadError p' \<longrightarrow> read_loop n (drop m pending @ miss) (acc @ got) rs' = ReadError (p' @ miss))
          \<and> (read_loop n (drop m pending) (acc @ got) rs = ReadMore \<longrightarrow> read_loop n (drop m pending @ miss) (acc @ got) rs' = ReadMore)"
          using Cons.IH by blast
        then show ?thesis unfolding part using True full by (intro exI [of _ "Ok m # rs'"] exI [of _ us]) (simp del: read_loop.simps)
      next
        case False
        then show ?thesis unfolding part using full by (intro exI [of _ "[Ok m]"] exI [of _ "[]"]) (simp del: read_loop.simps)
      qed
    qed
  qed
qed

lemma iter_more:
  assumes "recv_iter z map_file sv l w p = (r, p')"
  shows "\<exists>w'. recv_iter z map_file sv l w' (p @ miss) = (r, p' @ miss)"
proof (cases w)
  case (WakeIn rs)
  show ?thesis
  proof (cases "recv_prepare sv l")
    case (Inl e)
    with assms WakeIn show ?thesis by (intro exI [of _ "WakeIn []"]) (simp add: recv_iter_def)
  next
    case (Inr x)
    obtain sv' n where x: "x = (sv', n)" by (cases x)
    obtain rs' us where rl: "\<forall>acc' q us0. read_loop (unat n) p [] rs = ReadDone acc' q us0 \<longrightarrow> read_loop (unat n) (p @ miss) [] rs' = ReadDone acc' (q @ miss) us"
      "\<forall>q. read_loop (unat n) p [] rs = ReadError q \<longrightarrow> read_loop (unat n) (p @ miss) [] rs' = ReadError (q @ miss)"
      "read_loop (unat n) p [] rs = ReadMore \<longrightarrow> read_loop (unat n) (p @ miss) [] rs' = ReadMore"
      using read_loop_more [of "unat n" p "[]" rs miss] by blast
    show ?thesis
      by (rule exI [of _ "WakeIn rs'"], cases "read_loop (unat n) p [] rs")
        (use assms WakeIn Inr x rl in \<open>auto simp: recv_iter_def\<close>)
  qed
qed (use assms in \<open>auto simp: recv_iter_def intro: exI [of _ WakeFail] exI [of _ WakeOther]\<close>)

definition with_rest :: "byte list \<Rightarrow> conn \<Rightarrow> conn" where
  "with_rest miss c = c\<lparr>cn_pending := cn_pending c @ miss\<rparr>"

lemma conn_round_more:
  assumes "conn_round z map_file sv c w = Some (Inr (sv', c'))"
  shows "\<exists>w'. conn_round z map_file sv (with_rest miss c) w' = Some (Inr (sv', with_rest miss c'))"
proof -
  obtain r p where it: "recv_iter z map_file sv (cn_local c) w (cn_pending c) = (r, p)" by fastforce
  then obtain w' where "recv_iter z map_file sv (cn_local c) w' (cn_pending c @ miss) = (r, p @ miss)" using iter_more by blast
  with it assms show ?thesis
    by (intro exI [of _ w']) (auto simp: conn_round_def with_rest_def split: recv_result.splits)
qed

subsection \<open>Before the header\<close>

definition failed_result :: "handler_result option \<Rightarrow> bool" where
  "failed_result r \<longleftrightarrow> r \<noteq> None \<and> r \<noteq> Some (Returned 0)"

text \<open>What a handler does on a receiver that has no header yet: it takes what it reads for the header.\<close>

lemma early_round:
  assumes "header_start sv" and "cn_local c = recv_start" and "cn_result c = None"
    and "conn_round z map_file sv c w = Some (Inr (sv', c'))"
  shows "(header_start sv' \<and> (c' = c \<or> failed_result (cn_result c'))) \<or>
    (\<exists>bs. cn_pending c = bs @ cn_pending c' \<and> cn_result c' = Some (Returned 0)
        \<and> recv_file_header map_file (sv\<lparr>sv_reads_max_bytes := 17\<rparr>) bs = Return 0 sv')"
proof (cases w)
  case WakeFail
  then show ?thesis using assms by (auto simp: conn_round_def recv_iter_def failed_result_def)
next
  case WakeOther
  then show ?thesis using assms by (auto simp: conn_round_def recv_iter_def)
next
  case (WakeIn rs)
  note it = recv_iter_header [OF assms(1), of z map_file rs "cn_pending c"]
  show ?thesis
  proof (cases "read_loop 17 (cn_pending c) [] rs")
    case (ReadDone bs rest rs')
    then have split: "cn_pending c = bs @ rest" using read_loop_conserves by fastforce
    let ?sv = "sv\<lparr>sv_reads_max_bytes := 17\<rparr>"
    have hs: "header_start ?sv" "header_start (?sv\<lparr>sv_file_size := n\<rparr>)" for n using assms(1) by (simp_all add: header_start_def)
    have r: "case recv_file_header map_file ?sv bs of
        Return q sv'' \<Rightarrow> q = 0 \<or> q = -1 \<and> header_start sv'' | Throw e sv'' \<Rightarrow> header_start sv'' | Again _ _ \<Rightarrow> False | _ \<Rightarrow> True"
      using hs by (auto simp: recv_file_header_def Let_def split: option.splits sum.splits)
    show ?thesis
    proof (cases "recv_file_header map_file ?sv bs")
      case (Return q sv1)
      then have s: "sv' = sv1" "c' = c\<lparr>cn_pending := rest, cn_result := Some (Returned q)\<rparr>"
        using assms(2,4) WakeIn it ReadDone by (simp_all add: conn_round_def)
      then show ?thesis using r Return split by (cases "q = 0") (auto simp: failed_result_def)
    next
      case (Throw e sv1)
      then have s: "sv' = sv1" "c' = c\<lparr>cn_pending := rest, cn_result := Some (Threw e)\<rparr>"
        using assms(2,4) WakeIn it ReadDone by (simp_all add: conn_round_def)
      then show ?thesis using r Throw by (simp add: failed_result_def)
    qed (use r assms(2,4) WakeIn it ReadDone in \<open>simp_all add: conn_round_def\<close>)
  next
    case (ReadError rest)
    then have "sv' = sv\<lparr>sv_reads_max_bytes := 17\<rparr>" "cn_result c' = Some (Returned (-1))"
      using assms(2,4) WakeIn it by (auto simp: conn_round_def)
    then show ?thesis using assms(1) by (simp add: header_start_def failed_result_def)
  next
    case ReadMore
    then show ?thesis using assms(2,4) WakeIn it by (simp add: conn_round_def)
  qed
qed

lemma early_slice:
  assumes "header_start sv" and "cn_local c = recv_start" and "cn_result c = None"
    and "conn_round z map_file sv c w = Some (Inr (sv', c'))"
    and "prefix (cn_pending c) (slice_message f y)" and "unat (fs_index f) < 83 * 256"
  shows "header_start sv' \<and> (c' = c \<or> failed_result (cn_result c'))"
proof -
  have "\<not> (\<exists>bs. cn_pending c = bs @ cn_pending c' \<and> recv_file_header map_file (sv\<lparr>sv_reads_max_bytes := 17\<rparr>) bs = Return 0 sv')"
  proof
    assume "\<exists>bs. cn_pending c = bs @ cn_pending c' \<and> recv_file_header map_file (sv\<lparr>sv_reads_max_bytes := 17\<rparr>) bs = Return 0 sv'"
    then obtain bs where bs: "cn_pending c = bs @ cn_pending c'" "recv_file_header map_file (sv\<lparr>sv_reads_max_bytes := 17\<rparr>) bs = Return 0 sv'"
      by blast
    then have ne: "bs \<noteq> []" "hd bs = 83" by (auto simp: recv_file_header_def split: if_splits)
    then have "hd (slice_message f y) = 83" using bs(1) assms(5) by (auto simp: prefix_def)
    then show False using slice_message_first [OF assms(6)] by simp
  qed
  then show ?thesis using early_round [OF assms(1-4)] by blast
qed

text \<open>The handler of the header: if it takes in the whole text and returns 0, the state is the one that
  the sender announced.\<close>

lemma early_header:
  assumes "header_start sv" and "cn_local c = recv_start" and "cn_result c = None"
    and "conn_round z map_file sv c w = Some (Inr (sv', c'))" and "cn_pending c = file_header n k" and "k \<noteq> 0"
  shows "(header_start sv' \<and> (c' = c \<or> failed_result (cn_result c'))) \<or>
    (cn_result c' = Some (Returned 0) \<and> (cn_pending c' = [] \<longrightarrow> sv' = header_state map_file sv n (ucast k)))"
proof -
  have "sv' = header_state map_file sv n (ucast k)"
    if "file_header n k = bs @ cn_pending c'" "cn_pending c' = []"
      "recv_file_header map_file (sv\<lparr>sv_reads_max_bytes := 17\<rparr>) bs = Return 0 sv'" for bs
    using that recv_file_header_whole [OF assms(6), of map_file "sv\<lparr>sv_reads_max_bytes := 17\<rparr>" n]
    by (simp add: header_state_reads_max)
  then show ?thesis using early_round [OF assms(1-4)] assms(5) by metis
qed

subsection \<open>The transfer\<close>

text \<open>The connections of the environment carry a transfer: the first the header, the others what the
  sender got out of the messages of its slices; \<open>unsent\<close> is the rest of the message.\<close>

definition carries :: "'d recv_env \<Rightarrow> flags \<Rightarrow> byte list \<Rightarrow> byte list list \<Rightarrow> bool" where
  "carries en fl data ys \<longleftrightarrow> length (re_incoming en) = Suc (length ys) \<and>
     re_incoming en ! 0 = Some (file_header (of_nat (length data)) (of_nat (length ys))) \<and>
     (\<forall>j < length ys. prefix (cn_pending (fresh_conn (re_incoming en ! Suc j))) (slice_message (split_slices fl data ! j) (ys ! j)))"

definition unsent :: "'d recv_env \<Rightarrow> flags \<Rightarrow> byte list \<Rightarrow> byte list list \<Rightarrow> nat \<Rightarrow> byte list" where
  "unsent en fl data ys j =
     drop (length (cn_pending (fresh_conn (re_incoming en ! Suc j)))) (slice_message (split_slices fl data ! j) (ys ! j))"

definition carried_by :: "'d recv_env \<Rightarrow> ('d \<Rightarrow> byte list) \<Rightarrow> ('d \<Rightarrow> byte list) \<Rightarrow> (byte list \<Rightarrow> byte list \<Rightarrow> bool) \<Rightarrow>
     flags \<Rightarrow> byte list \<Rightarrow> byte list list \<Rightarrow> bool" where
  "carried_by en fed made frame fl data ys \<longleftrightarrow> decompressor_contract (re_zstd en) fed made frame \<and> plan_ok fl data \<and>
     length (split_slices fl data) \<le> 83 * 256 \<and> frames_ok frame (split_slices fl data) ys \<and> re_opened en \<and> carries en fl data ys"

text \<open>The slice handlers of the receiver as a state of \<open>net_step\<close>, and the invariant: either there is no
  header yet, and handlers that did something have failed, or the handler of the header has returned
  0, and if it took in the whole header the slices are where \<open>net_step\<close> can bring them.\<close>

definition slices_net :: "'d recv_env \<Rightarrow> flags \<Rightarrow> byte list \<Rightarrow> byte list list \<Rightarrow> receiver \<Rightarrow> net" where
  "slices_net en fl data ys s = \<lparr>nt_server = rv_server s,
     nt_conns = map (\<lambda>j. with_rest (unsent en fl data ys j) (rv_conns s ! Suc j)) [0..<length ys]\<rparr>"

definition untouched :: "'d recv_env \<Rightarrow> receiver \<Rightarrow> nat \<Rightarrow> bool" where
  "untouched en s k \<longleftrightarrow> rv_conns s ! k = fresh_conn (re_incoming en ! k) \<or> failed_result (cn_result (rv_conns s ! k))"

definition slices_inv :: "'d recv_env \<Rightarrow> ('d \<Rightarrow> byte list) \<Rightarrow> ('d \<Rightarrow> byte list) \<Rightarrow> (byte list \<Rightarrow> byte list \<Rightarrow> bool) \<Rightarrow>
     flags \<Rightarrow> byte list \<Rightarrow> byte list list \<Rightarrow> receiver \<Rightarrow> bool" where
  "slices_inv en fed made frame fl data ys s \<longleftrightarrow>
     sv_slices_num (rv_server s) = ucast (of_nat (length ys) :: u16) \<and>
     net_inv (re_zstd en) fed made frame fl data ys (slices_net en fl data ys s)"

definition transfer_inv :: "'d recv_env \<Rightarrow> ('d \<Rightarrow> byte list) \<Rightarrow> ('d \<Rightarrow> byte list) \<Rightarrow> (byte list \<Rightarrow> byte list \<Rightarrow> bool) \<Rightarrow>
     flags \<Rightarrow> byte list \<Rightarrow> byte list list \<Rightarrow> receiver \<Rightarrow> bool" where
  "transfer_inv en fed made frame fl data ys s \<longleftrightarrow>
     (header_start (rv_server s) \<and> (\<forall>k \<le> length ys. untouched en s k)) \<or>
     (cn_result (rv_conns s ! 0) = Some (Returned 0) \<and>
        (cn_pending (rv_conns s ! 0) = [] \<longrightarrow> slices_inv en fed made frame fl data ys s))"

lemma fresh_with_rest:
  assumes "carries en fl data ys" and "j < length ys"
  shows "with_rest (unsent en fl data ys j) (fresh_conn (re_incoming en ! Suc j))
    = \<lparr>cn_local = recv_start, cn_pending = slice_message (split_slices fl data ! j) (ys ! j), cn_result = None\<rparr>"
  using assms by (auto simp: carries_def with_rest_def unsent_def fresh_conn_def prefix_def)

lemma net_inv_count:
  "net_inv z fed made frame fl data ys \<lparr>nt_server = sv\<lparr>sv_slices_th_num := t\<rparr>, nt_conns = cs\<rparr>
    = net_inv z fed made frame fl data ys \<lparr>nt_server = sv, nt_conns = cs\<rparr>"
  by (simp add: net_inv_def ready_def conn_inv_def receiving_def slice_entry_def)

lemma transfer_count:
  assumes "transfer_inv en fed made frame fl data ys s"
    and "rv_server s' = rv_server s \<or> rv_server s' = (rv_server s)\<lparr>sv_slices_th_num := t\<rparr>" and "rv_conns s' = rv_conns s"
  shows "transfer_inv en fed made frame fl data ys s'"
  using assms by (auto simp: transfer_inv_def untouched_def header_start_def slices_inv_def slices_net_def net_inv_count)

text \<open>The header has been taken in: for the slices this is the start of \<open>net_step\<close>, less those that have
  failed already.\<close>

lemma slices_start:
  assumes "carried_by en fed made frame fl data ys" and "\<forall>j < length ys. untouched en s (Suc j)"
    and "rv_server s = header_state (recv_map en) sv0 (of_nat (length data)) (ucast (of_nat (length ys) :: u16))"
  shows "slices_inv en fed made frame fl data ys s"
proof -
  let ?z = "replicate (length data) (0 :: byte)"
  have pl: "plan_ok fl data" and fr: "frames_ok frame (split_slices fl data) ys" and ca: "carries en fl data ys"
    and op: "re_opened en" using assms(1) by (simp_all add: carried_by_def)
  have ys: "length ys = length (split_slices fl data)" using fr by (simp add: frames_ok_def)
  have "0 < length data" "length data < 2 ^ 63" using pl by (auto simp: plan_ok_def elim: split_okE)
  then have m: "recv_map en (of_nat (length data)) = Mapped ?z" using op by (simp add: recv_map_def MMapOutput_zeros)
  note sv = assms(3) [unfolded ys]
  have su: "transfer_setup frame fl data ys (sv_split_len (rv_server s))" by (rule plan_setup [OF pl fr m sv])
  have "conn_inv fl data ys (rv_server s) ?z j (with_rest (unsent en fl data ys j) (rv_conns s ! Suc j))" if j: "j < length ys" for j
  proof (cases "failed_result (cn_result (rv_conns s ! Suc j))")
    case True
    then show ?thesis by (auto simp: failed_result_def conn_inv_def with_rest_def)
  next
    case False
    then have "rv_conns s ! Suc j = fresh_conn (re_incoming en ! Suc j)" using assms(2) j unfolding untouched_def by blast
    then show ?thesis using fresh_with_rest [OF ca j] fresh_conn_inv [OF su j] by simp
  qed
  moreover have "sv_slices_num (rv_server s) = ucast (of_nat (length ys) :: u16)" using assms(3) by (simp add: header_state_def)
  ultimately show ?thesis using assms(1) su header_ready(1) [OF pl m sv]
    by (auto simp: slices_inv_def net_inv_def slices_net_def carried_by_def intro!: exI [of _ ?z])
qed


lemma fresh_fields: "cn_local (fresh_conn c) = recv_start" "cn_result (fresh_conn c) = None"
  by (simp_all add: fresh_conn_def)

lemma untouched_upd:
  assumes "untouched en s i" and "c = rv_conns s ! k \<or> failed_result (cn_result c)" and "k < length (rv_conns s)"
  shows "untouched en (s\<lparr>rv_server := sv, rv_conns := (rv_conns s)[k := c]\<rparr>) i"
  using assms by (cases "i = k") (auto simp: untouched_def)

lemma early_step:
  assumes cb: "carried_by en fed made frame fl data ys" and b: "recv_base en s" and hs: "header_start (rv_server s)"
    and un: "\<forall>i \<le> length ys. untouched en s i" and k: "k < length (rv_conns s)" and live: "cn_result (rv_conns s ! k) = None"
    and rd: "conn_round (re_zstd en) (recv_map en) (rv_server s) (rv_conns s ! k) w = Some (Inr (sv, c))"
  shows "transfer_inv en fed made frame fl data ys (s\<lparr>rv_server := sv, rv_conns := (rv_conns s)[k := c]\<rparr>)"
proof -
  let ?s = "s\<lparr>rv_server := sv, rv_conns := (rv_conns s)[k := c]\<rparr>"
  have ca: "carries en fl data ys" and pl: "plan_ok fl data" and ys: "length ys = length (split_slices fl data)"
    and few: "length ys \<le> 83 * 256" using cb by (auto simp: carried_by_def frames_ok_def)
  have kl: "k \<le> length ys" using k b ca by (simp add: recv_base_def carries_def)
  then have f: "rv_conns s ! k = fresh_conn (re_incoming en ! k)" using un live by (auto simp: untouched_def failed_result_def)
  have loc: "cn_local (rv_conns s ! k) = recv_start" using f by (simp add: fresh_fields)
  have still: "transfer_inv en fed made frame fl data ys ?s" if "header_start sv" "c = rv_conns s ! k \<or> failed_result (cn_result c)"
  proof -
    have "untouched en ?s i" if "i \<le> length ys" for i
      using un that by (intro untouched_upd) (use \<open>c = rv_conns s ! k \<or> failed_result (cn_result c)\<close> k in auto)
    then show ?thesis using that(1) by (simp add: transfer_inv_def)
  qed
  show ?thesis
  proof (cases k)
    case 0
    let ?n = "of_nat (length data) :: u64" and ?k = "of_nat (length ys) :: u16"
    have "cn_pending (rv_conns s ! k) = file_header ?n ?k" using f 0 ca by (simp add: carries_def fresh_conn_def)
    moreover have "?k \<noteq> 0" using plan_count(2) [OF pl] ys by simp
    ultimately have "(header_start sv \<and> (c = rv_conns s ! k \<or> failed_result (cn_result c))) \<or>
      (cn_result c = Some (Returned 0) \<and> (cn_pending c = [] \<longrightarrow> sv = header_state (recv_map en) (rv_server s) ?n (ucast ?k)))"
      by (rule early_header [OF hs loc live rd])
    then show ?thesis
    proof
      assume a: "cn_result c = Some (Returned 0) \<and> (cn_pending c = [] \<longrightarrow> sv = header_state (recv_map en) (rv_server s) ?n (ucast ?k))"
      have "\<forall>j < length ys. untouched en ?s (Suc j)" using un 0 by (auto simp: untouched_def)
      then have "slices_inv en fed made frame fl data ys ?s" if "cn_pending c = []"
        using a that by (intro slices_start [OF cb]) simp_all
      then show ?thesis using a 0 k by (simp add: transfer_inv_def)
    qed (use still in blast)
  next
    case (Suc j)
    then have j: "j < length ys" using kl by simp
    have "prefix (cn_pending (rv_conns s ! k)) (slice_message (split_slices fl data ! j) (ys ! j))"
      using f Suc ca j by (simp add: carries_def)
    moreover have "unat (fs_index (split_slices fl data ! j)) < 83 * 256"
      using plan_slice_nonempty(4) [OF pl] j few ys by (simp add: unat_u16_of_nat)
    ultimately have "header_start sv \<and> (c = rv_conns s ! k \<or> failed_result (cn_result c))"
      by (rule early_slice [OF hs loc live rd])
    then show ?thesis using still by blast
  qed
qed

lemma late_step:
  assumes b: "recv_base en s" and ca: "carries en fl data ys" and h: "cn_result (rv_conns s ! 0) = Some (Returned 0)"
    and inv: "cn_pending (rv_conns s ! 0) = [] \<longrightarrow> slices_inv en fed made frame fl data ys s"
    and k: "k < length (rv_conns s)" and live: "cn_result (rv_conns s ! k) = None"
    and rd: "conn_round (re_zstd en) (recv_map en) (rv_server s) (rv_conns s ! k) w = Some (Inr (sv, c))"
  shows "transfer_inv en fed made frame fl data ys (s\<lparr>rv_server := sv, rv_conns := (rv_conns s)[k := c]\<rparr>)"
proof -
  let ?s = "s\<lparr>rv_server := sv, rv_conns := (rv_conns s)[k := c]\<rparr>"
  let ?n = "slices_net en fl data ys s"
  have "k \<noteq> 0" using h live by (metis option.distinct(1))
  then obtain j where j: "k = Suc j" "j < length ys"
    using k b ca by (cases k) (simp_all add: recv_base_def carries_def)
  have nj: "nt_conns ?n ! j = with_rest (unsent en fl data ys j) (rv_conns s ! k)" "j < length (nt_conns ?n)" "nt_server ?n = rv_server s"
    using j by (simp_all add: slices_net_def)
  obtain w' where "conn_round (re_zstd en) (recv_map en) (nt_server ?n) (nt_conns ?n ! j) w' = Some (Inr (sv, with_rest (unsent en fl data ys j) c))"
    using conn_round_more [OF rd] nj by metis
  moreover have "cn_result (nt_conns ?n ! j) = None" using live nj(1) by (simp add: with_rest_def)
  ultimately have st: "net_step (re_zstd en) (recv_map en) ?n \<lparr>nt_server = sv, nt_conns = (nt_conns ?n)[j := with_rest (unsent en fl data ys j) c]\<rparr>"
    using conn_round_net nj(2) by blast
  have "slices_net en fl data ys ?s = \<lparr>nt_server = sv, nt_conns = (nt_conns ?n)[j := with_rest (unsent en fl data ys j) c]\<rparr>"
    using j k by (auto simp: slices_net_def nth_list_update intro!: nth_equalityI)
  then have "slices_inv en fed made frame fl data ys ?s" if "cn_pending (rv_conns s ! 0) = []"
  proof -
    have i: "slices_inv en fed made frame fl data ys s" using inv that by blast
    then have "sv_start (rv_server s) \<noteq> MapNull" by (auto simp: slices_inv_def net_inv_def ready_def slices_net_def)
    moreover have "counters (rv_server s) sv" by (rule conn_round_counters [OF rd]) (simp add: recv_map_not_null)
    ultimately show ?thesis using i \<open>slices_net en fl data ys ?s = _\<close> net_step_inv [OF _ st]
      by (simp add: slices_inv_def counters_def)
  qed
  then show ?thesis using h j k by (simp add: transfer_inv_def)
qed

lemma transfer_step:
  assumes cb: "carried_by en fed made frame fl data ys" and b: "recv_base en s"
    and inv: "transfer_inv en fed made frame fl data ys s" and st: "recv_step en s s'"
  shows "transfer_inv en fed made frame fl data ys s'"
  using st
proof cases
  case (round k w sv c)
  have k: "k < length (rv_conns s)" using busy_accepted(2) [OF b round(3)] .
  have ca: "carries en fl data ys" using cb by (simp add: carried_by_def)
  from inv show ?thesis unfolding round(1) transfer_inv_def [of _ _ _ _ _ _ _ s]
    using early_step [OF cb b _ _ k round(4,5)] late_step [OF b ca _ _ k round(4,5)] by blast
next
  case count
  then show ?thesis by (intro transfer_count [OF inv]) auto
next
  case supervise
  then show ?thesis using sup_next_keeps [OF supervise(3)] by (intro transfer_count [OF inv]) auto
qed (simp_all add: transfer_count [OF inv])

lemma transfer_init:
  assumes "carried_by en fed made frame fl data ys"
  shows "transfer_inv en fed made frame fl data ys (recv_init en)"
proof -
  have "length (re_incoming en) = Suc (length ys)" using assms by (simp add: carried_by_def carries_def)
  then have "\<forall>k \<le> length ys. untouched en (recv_init en) k"
    by (auto simp: untouched_def recv_init_def Let_def split: sum.splits)
  moreover have "rv_server (recv_init en) = server_init" by (simp add: recv_init_def Let_def split: sum.splits)
  ultimately show ?thesis by (simp add: transfer_inv_def header_start_def server_init_def)
qed

text \<open>All handlers have returned 0.\<close>

lemma transfer_done:
  assumes inv: "transfer_inv en fed made frame fl data ys s"
    and "\<forall>k \<le> length ys. cn_result (rv_conns s ! k) = Some (Returned 0)" and "cn_pending (rv_conns s ! 0) = []"
  shows "sv_start (rv_server s) = Mapped data"
proof -
  have "\<not> untouched en s 0" using assms(2) by (auto simp: untouched_def failed_result_def fresh_conn_def)
  then have "net_inv (re_zstd en) fed made frame fl data ys (slices_net en fl data ys s)"
    using inv assms(3) by (auto simp: transfer_inv_def slices_inv_def)
  moreover have "\<forall>c \<in> set (nt_conns (slices_net en fl data ys s)). cn_result c = Some (Returned 0)"
    using assms(2) by (auto simp: slices_net_def with_rest_def)
  ultimately show ?thesis using net_inv_done [of _ _ _ _ _ _ _ "slices_net en fl data ys s"] by (simp add: slices_net_def)
qed

text \<open>When the header and as many connections as it announces are there, these are all connections.\<close>

lemma all_accepted:
  assumes "recv_base en s" and "length (re_incoming en) \<le> length (rv_res s)" and "k < length (re_incoming en)"
  shows "k \<in> set (rv_res s)"
proof -
  have "set (rv_res s) \<subseteq> {..<length (re_incoming en)}" "card (set (rv_res s)) = length (rv_res s)"
    using assms(1) by (auto simp: recv_base_def distinct_card)
  then have "set (rv_res s) = {..<length (re_incoming en)}"
    using assms(2) by (metis card_lessThan card_seteq finite_lessThan)
  then show ?thesis using assms(3) by simp
qed

text \<open>No handler has failed, and that of the header has taken in all of it.\<close>

definition well_run :: "receiver \<Rightarrow> bool" where
  "well_run s \<longleftrightarrow> (\<forall>k < length (rv_conns s). \<not> failed_result (cn_result (rv_conns s ! k))) \<and> cn_pending (rv_conns s ! 0) = []"

text \<open>The report goes out and no handler has failed: then all handlers have returned 0.\<close>

lemma reported_header:
  assumes cb: "carried_by en fed made frame fl data ys" and inv: "transfer_inv en fed made frame fl data ys s"
    and b: "recv_base en s" and got: "got_inv s n n"
  shows "cn_result (rv_conns s ! 0) = Some (Returned 0)" and "length (rv_res s) \<le> Suc (length ys)" and "length ys \<le> 83 * 256"
    and "unat (sv_slices_num (rv_server s)) + 1 < 2 ^ 32 \<Longrightarrow> unat (sv_slices_num (rv_server s)) + 1 \<le> n"
proof -
  have len: "length (re_incoming en) = Suc (length ys)" and few: "length ys \<le> 83 * 256"
    using cb by (auto simp: carried_by_def carries_def frames_ok_def)
  have res: "distinct (rv_res s)" "set (rv_res s) \<subseteq> {..<Suc (length ys)}" using b len by (auto simp: recv_base_def)
  then show rl: "length (rv_res s) \<le> Suc (length ys)" by (metis card_lessThan card_mono distinct_card finite_lessThan)
  show "length ys \<le> 83 * 256" by (rule few)
  have small: "length (rv_res s) < 2 ^ 15" using rl few by simp
  then have "sv_slices_num (rv_server s) \<noteq> 0" using got by (auto simp: got_inv_def)
  then have "\<not> header_start (rv_server s)" using b by (simp add: recv_base_def header_start_def)
  then show "cn_result (rv_conns s ! 0) = Some (Returned 0)" using inv by (auto simp: transfer_inv_def)
  show "unat (sv_slices_num (rv_server s)) + 1 < 2 ^ 32 \<Longrightarrow> unat (sv_slices_num (rv_server s)) + 1 \<le> n"
    using got small by (simp add: got_inv_def)
qed

lemma reported_count:
  assumes cb: "carried_by en fed made frame fl data ys" and inv: "transfer_inv en fed made frame fl data ys s"
    and b: "recv_base en s" and got: "got_inv s n n" and well: "well_run s"
  shows "unat (sv_slices_num (rv_server s)) = length ys"
proof -
  note h = reported_header [OF cb inv b got]
  have "\<not> untouched en s 0" using h(1) by (auto simp: untouched_def failed_result_def fresh_conn_def)
  then have "slices_inv en fed made frame fl data ys s" using inv well by (auto simp: transfer_inv_def well_run_def)
  then have "sv_slices_num (rv_server s) = ucast (of_nat (length ys) :: u16)" by (simp add: slices_inv_def)
  then show ?thesis using h(3) by (simp add: unsigned_ucast_eq unat_u16_of_nat take_bit_nat_eq_self)
qed

lemma reported_done:
  assumes cb: "carried_by en fed made frame fl data ys" and inv: "transfer_inv en fed made frame fl data ys s"
    and b: "recv_base en s" and got: "got_inv s n n" and well: "well_run s" and k: "k \<le> length ys"
  shows "cn_result (rv_conns s ! k) = Some (Returned 0)"
proof -
  note h = reported_header [OF cb inv b got]
  have len: "length (re_incoming en) = Suc (length ys)" using cb by (simp add: carried_by_def carries_def)
  have n: "Suc (length ys) \<le> n" "n \<le> length (rv_res s)"
    using reported_count [OF cb inv b got well] h(3,4) got by (simp_all add: got_inv_def)
  have "k \<in> set (rv_res s)" by (rule all_accepted [OF b]) (use n len k in simp_all)
  then obtain i where i: "i < length (rv_res s)" "rv_res s ! i = k" by (auto simp: in_set_conv_nth)
  then have "i < n" using n h(2) by simp
  then obtain r where "cn_result (rv_conns s ! k) = Some (Returned r)" using got i by (auto simp: got_inv_def)
  moreover have "k < length (rv_conns s)" using b len k by (simp add: recv_base_def)
  ultimately show ?thesis using well by (auto simp: failed_result_def well_run_def)
qed

text \<open>What the report says.\<close>

definition report_on :: "'d recv_env \<Rightarrow> byte list \<Rightarrow> byte list \<Rightarrow> bool" where
  "report_on en mem out \<longleftrightarrow>
     (case getValidResult_file (re_nan en) (re_arrow en) ((re_fs en)(re_path en \<mapsto> mem)) (re_path en) (sint (re_rows en)) of
        Inl e \<Rightarrow> \<exists>rest. write_end 0 [] (re_ws en) = Done (out, rest)
      | Inr valid_res \<Rightarrow> \<exists>futures bufs r. collect futures = Inr 0 \<and>
          Server_Supervise True futures valid_res bufs (Mapped mem) (re_ws en) = Done (r, out))"

lemma collect_returned_0: "\<forall>f \<in> set fs. f = Returned 0 \<Longrightarrow> collect fs = Inr 0"
  by (induction fs) auto

lemma sup_report_on:
  assumes "sup_report en n s = Some s'" and "sv_start (rv_server s) = Mapped mem"
    and "\<forall>k \<in> set (take n (rv_res s)). cn_result (rv_conns s ! k) = Some (Returned 0)"
  shows "rv_report s' = rv_report s \<or> report_on en mem (rv_report s')"
proof (cases "recv_validate en (rv_server s)")
  case (Inl e)
  then have "getValidResult_file (re_nan en) (re_arrow en) ((re_fs en)(re_path en \<mapsto> mem)) (re_path en) (sint (re_rows en)) = Inl e"
    using assms(2) by (simp add: recv_validate_def recv_files_def)
  then show ?thesis using assms(1) Inl
    by (auto simp: sup_report_def report_on_def sup_end_def split: run.splits if_splits sup_result.splits)
next
  case (Inr msg)
  let ?fs = "map (\<lambda>k. the (cn_result (rv_conns s ! k))) (take n (rv_res s))"
  have v: "getValidResult_file (re_nan en) (re_arrow en) ((re_fs en)(re_path en \<mapsto> mem)) (re_path en) (sint (re_rows en)) = Inr msg"
    using Inr assms(2) by (simp add: recv_validate_def recv_files_def)
  have c: "collect ?fs = Inr 0" using assms(3) by (intro collect_returned_0) auto
  show ?thesis
  proof (cases "Server_Supervise True ?fs msg (map_bufs (rv_server s)) (Mapped mem) (re_ws en)")
    case (Done x)
    obtain r out where x: "x = (r, out)" by (cases x)
    then have "rv_report s' = out" using assms(1,2) Inr Done by (auto simp: sup_report_def sup_end_def split: sup_result.splits)
    then show ?thesis using v c Done x unfolding report_on_def by auto
  qed (use assms(1,2) Inr in \<open>auto simp: sup_report_def\<close>)
qed

text \<open>The report, once it is out, in a transfer in which no handler has failed.\<close>

definition report_inv :: "'d recv_env \<Rightarrow> byte list \<Rightarrow> receiver \<Rightarrow> bool" where
  "report_inv en data s \<longleftrightarrow> (rv_report s \<noteq> [] \<and> well_run s \<longrightarrow> report_on en data (rv_report s))"

lemma well_run_back:
  assumes "recv_base en s" and "recv_step en s s'" and "well_run s'" and "rv_conns s' ! 0 = rv_conns s ! 0"
  shows "well_run s"
  unfolding well_run_def
proof (intro conjI allI impI)
  fix k assume "k < length (rv_conns s)"
  then have "\<not> failed_result (cn_result (rv_conns s' ! k))"
    using assms(1,3) base_step [OF assms(1,2)] by (simp add: well_run_def recv_base_def)
  then show "\<not> failed_result (cn_result (rv_conns s ! k))"
    using recv_step_grows(3) [OF assms(1,2), of k] by (auto simp: failed_result_def)
qed (use assms(3,4) in \<open>simp add: well_run_def\<close>)

lemma done_conn_kept:
  assumes "recv_step en s s'" and "cn_result (rv_conns s ! k) \<noteq> None"
  shows "rv_conns s' ! k = rv_conns s ! k"
  using assms(1)
proof cases
  case (round i w sv c)
  then show ?thesis using assms(2) by (cases "i = k") simp_all
next
  case supervise
  then show ?thesis using sup_next_keeps [OF supervise(3)] by simp
qed simp_all

lemma report_inv_step:
  assumes cb: "carried_by en fed made frame fl data ys" and inv: "transfer_inv en fed made frame fl data ys s"
    and r: "recv_inv en s" and rep: "report_inv en data s" and st: "recv_step en s s'"
  shows "report_inv en data s'"
  unfolding report_inv_def
proof
  assume a: "rv_report s' \<noteq> [] \<and> well_run s'"
  have b: "recv_base en s" using r by (simp add: recv_inv_def)
  have same: "report_on en data (rv_report s')" if "rv_report s' = rv_report s"
  proof -
    have "\<exists>n. got_inv s n n" using that a r by (simp add: recv_inv_def)
    then obtain n where "got_inv s n n" ..
    then have "rv_conns s' ! 0 = rv_conns s ! 0" using reported_header(1) [OF cb inv b] by (intro done_conn_kept [OF st]) simp
    then show ?thesis using well_run_back [OF b st] a rep that by (simp add: report_inv_def)
  qed
  from sup_moves [OF st] show "report_on en data (rv_report s')"
  proof
    assume nx: "sup_next en (rv_sup s) s = Some s'"
    have w: "well_run s" using well_run_back [OF b st] a sup_next_keeps [OF nx] by simp
    show ?thesis
    proof (cases "\<exists>n. rv_sup s = SupGet n n")
      case True
      then obtain n where n: "rv_sup s = SupGet n n" by blast
      then have got: "got_inv s n n" and sr: "sup_report en n s = Some s'" using r nx by (auto simp: recv_inv_def)
      have d: "cn_result (rv_conns s ! k) = Some (Returned 0)" if "k \<le> length ys" for k
        by (rule reported_done [OF cb inv b got w that])
      then have "sv_start (rv_server s) = Mapped data" using transfer_done [OF inv] w by (simp add: well_run_def)
      moreover have "k \<le> length ys" if "k \<in> set (take n (rv_res s))" for k
        using in_set_takeD [OF that] b cb by (auto simp: recv_base_def carried_by_def carries_def)
      ultimately show ?thesis using sup_report_on [OF sr] d same by blast
    next
      case False
      have "\<And>j n. rv_sup s = SupGet j n \<Longrightarrow> j < n" using False r by (force simp: recv_inv_def)
      then have "rv_report s' = rv_report s" using nx
        by (cases "rv_sup s" rule: recv_sup.exhaust) (auto elim!: sup_next.elims split: option.splits handler_result.splits if_splits)
      then show ?thesis by (rule same)
    qed
  qed (use same in blast)
qed

interpretation receiving_transfer: invariant_system
    "\<lambda>s. s = recv_init en \<and> (\<exists>n. pool_size (re_jobs en) = Inr n) \<and> carried_by en fed made frame fl data ys" "recv_step en"
    "\<lambda>s. carried_by en fed made frame fl data ys \<and> recv_inv en s \<and> transfer_inv en fed made frame fl data ys s \<and> report_inv en data s"
  for en :: "'d recv_env" and fed made frame fl data ys
proof (unfold_locales, goal_cases)
  case (1 s)
  then have "rv_report s = []" by (simp add: recv_init_def Let_def split: sum.splits)
  then show ?case using 1 receiving_program.init_inv transfer_init by (auto simp: report_inv_def)
next
  case (2 s t)
  then have i: "carried_by en fed made frame fl data ys" "recv_inv en s" "transfer_inv en fed made frame fl data ys s"
    "report_inv en data s" "recv_base en s" by (simp_all add: recv_inv_def)
  then show ?case using recv_inv_step [OF i(2) 2(2)] transfer_step [OF i(1,5,3) 2(2)] report_inv_step [OF i(1,3,2,4) 2(2)] by simp
qed

lemma reach_transfer_inv:
  assumes "carried_by en fed made frame fl data ys" and "rtranclp (recv_step en) (recv_init en) s"
    and "0 \<le> sint (re_jobs en)" and "sint (re_jobs en) < int_max"
  shows "recv_inv en s" and "transfer_inv en fed made frame fl data ys s" and "report_inv en data s"
proof -
  have i: "recv_init en = recv_init en \<and> (\<exists>n. pool_size (re_jobs en) = Inr n) \<and> carried_by en fed made frame fl data ys"
    using assms(1) pool_size_jobs [OF assms(3,4)] by blast
  show "recv_inv en s" "transfer_inv en fed made frame fl data ys s" "report_inv en data s"
    using receiving_transfer.reach_inv [OF i assms(2)] by blast+
qed

lemma report_of_transfer:
  assumes "carried_by en fed made frame fl data ys" and "rtranclp (recv_step en) (recv_init en) s"
    and "0 \<le> sint (re_jobs en)" and "sint (re_jobs en) < int_max" and "rv_report s \<noteq> []" and "well_run s"
  shows "sv_start (rv_server s) = Mapped data" and "report_on en data (rv_report s)"
proof -
  note inv = reach_transfer_inv [OF assms(1-4)]
  have b: "recv_base en s" using inv(1) by (simp add: recv_inv_def)
  have "\<exists>n. got_inv s n n" using inv(1) assms(5) by (simp add: recv_inv_def)
  then obtain n where "got_inv s n n" ..
  then have "\<forall>k \<le> length ys. cn_result (rv_conns s ! k) = Some (Returned 0)"
    using reported_done [OF assms(1) inv(2) b _ assms(6)] by blast
  then show "sv_start (rv_server s) = Mapped data"
    using transfer_done [OF inv(2)] assms(6) by (simp add: well_run_def)
  show "report_on en data (rv_report s)" using inv(3) assms(5,6) by (simp add: report_inv_def)
qed

end
