(* ===== verification/Recv_Schedule.thy ===== *)
theory Recv_Schedule
  imports Recv_Transfer
begin

section \<open>A schedule for the receiver\<close>

text \<open>
  The receiver can do its work: with at least one job, connections that carry the whole of a transfer
  and a sender's supervisor that can be reached there is a schedule after which all handlers have
  returned 0 and the report is out. The main thread accepts all connections, one worker runs the
  supervisor, another one handler after the other.
\<close>

text \<open>The connections bring everything.\<close>

definition complete :: "'d recv_env \<Rightarrow> flags \<Rightarrow> byte list \<Rightarrow> byte list list \<Rightarrow> bool" where
  "complete en fl data ys \<longleftrightarrow> length (file_header (of_nat (length data)) (of_nat (length ys))) \<le> 17 \<and>
     (\<forall>j < length ys. re_incoming en ! Suc j = Some (slice_message (split_slices fl data ! j) (ys ! j)))"

lemma complete_net:
  assumes "complete en fl data ys" and "j < length ys"
  shows "nt_conns (slices_net en fl data ys s) ! j = rv_conns s ! Suc j"
  using assms by (simp add: slices_net_def with_rest_def unsent_def complete_def fresh_conn_def)

text \<open>All connections are accepted.\<close>

lemma accept_all:
  assumes "pool_size (re_jobs en) = Inr n" and "\<forall>k < length (re_incoming en). re_incoming en ! k \<noteq> None" and "m \<le> length (re_incoming en)"
  shows "\<exists>s. rtranclp (recv_step en) (recv_init en) s \<and> rv_exit s = None \<and> rv_main s = RWait \<and> rv_sup s = SupWait SupEval \<and>
    rv_report s = [] \<and> rv_res s = [0..<m] \<and> rv_conns s = map fresh_conn (re_incoming en) \<and>
    tp_threads (rv_pool s) = replicate n Checking \<and> tp_tasks (rv_pool s) = TSupervise # map (\<lambda>k. TRecv (int k)) [0..<m] \<and>
    tp_finished (rv_pool s) = []"
  using assms(3)
proof (induction m)
  case 0
  show ?case using assms(1)
    by (intro exI [of _ "recv_init en"]) (simp add: recv_init_def Let_def enqueue_def make_pool_def)
next
  case (Suc m)
  then obtain s where s: "rtranclp (recv_step en) (recv_init en) s" "rv_exit s = None" "rv_main s = RWait" "rv_sup s = SupWait SupEval"
    "rv_report s = []" "rv_res s = [0..<m]" "rv_conns s = map fresh_conn (re_incoming en)"
    "tp_threads (rv_pool s) = replicate n Checking" "tp_tasks (rv_pool s) = TSupervise # map (\<lambda>k. TRecv (int k)) [0..<m]"
    "tp_finished (rv_pool s) = []" by auto
  let ?s1 = "s\<lparr>rv_main := RCount, rv_pool := enqueue (TRecv (int m)) (rv_pool s), rv_res := rv_res s @ [m]\<rparr>"
  let ?s2 = "?s1\<lparr>rv_main := RNotify, rv_server := (rv_server ?s1)\<lparr>sv_slices_th_num := sv_slices_th_num (rv_server ?s1) + 1\<rparr>\<rparr>"
  let ?s3 = "?s2\<lparr>rv_main := RWait, rv_sup := recv_notify (rv_sup ?s2)\<rparr>"
  have "recv_step en s ?s1" by (rule recv_step.accept) (use s Suc.prems assms(2) in simp_all)
  moreover have "recv_step en ?s1 ?s2" by (rule recv_step.count) (use s in simp_all)
  moreover have "recv_step en ?s2 ?s3" by (rule recv_step.notify) (use s in simp_all)
  ultimately have "rtranclp (recv_step en) (recv_init en) ?s3" using s(1) by (meson rtranclp.rtrancl_into_rtrancl)
  then show ?case by (rule exI [of _ ?s3, OF conjI]) (use s in \<open>simp add: recv_notify_def enqueue_def\<close>)
qed

text \<open>The second worker handles the connections in order; \<open>k\<close> is the next one.\<close>

definition serving :: "'d recv_env \<Rightarrow> receiver \<Rightarrow> nat \<Rightarrow> bool" where
  "serving en s k \<longleftrightarrow> rtranclp (recv_step en) (recv_init en) s \<and> rv_exit s = None \<and> rv_main s = RWait \<and> rv_sup s = SupWait SupEval \<and>
     rv_report s = [] \<and> rv_res s = [0..<length (re_incoming en)] \<and> 2 \<le> length (tp_threads (rv_pool s)) \<and>
     tp_threads (rv_pool s) ! 0 = Busy TSupervise \<and> tp_threads (rv_pool s) ! 1 = Checking \<and>
     tp_tasks (rv_pool s) = map (\<lambda>k. TRecv (int k)) [k..<length (re_incoming en)] \<and>
     (\<forall>i < k. cn_result (rv_conns s ! i) = Some (Returned 0)) \<and>
     (\<forall>i < length (re_incoming en). k \<le> i \<longrightarrow> rv_conns s ! i = fresh_conn (re_incoming en ! i)) \<and>
     (0 < k \<longrightarrow> cn_pending (rv_conns s ! 0) = [])"

lemma serving_start:
  assumes "pool_size (re_jobs en) = Inr n" and "2 \<le> n" and "\<forall>k < length (re_incoming en). re_incoming en ! k \<noteq> None"
  shows "\<exists>s. serving en s 0"
proof -
  obtain s where s: "rtranclp (recv_step en) (recv_init en) s" "rv_exit s = None" "rv_main s = RWait" "rv_sup s = SupWait SupEval"
    "rv_report s = []" "rv_res s = [0..<length (re_incoming en)]" "rv_conns s = map fresh_conn (re_incoming en)"
    "tp_threads (rv_pool s) = replicate n Checking"
    "tp_tasks (rv_pool s) = TSupervise # map (\<lambda>k. TRecv (int k)) [0..<length (re_incoming en)]" "tp_finished (rv_pool s) = []"
    using accept_all [OF assms(1,3) order_refl] by blast
  let ?s = "s\<lparr>rv_pool := worker_check 0 (rv_pool s)\<rparr>"
  have "recv_step en s ?s"
    by (rule recv_step.work [OF s(2) pool_work.check]) (use s assms(2) in \<open>simp_all add: worker_check_def\<close>)
  with s(1) have "rtranclp (recv_step en) (recv_init en) ?s" by (rule rtranclp.rtrancl_into_rtrancl)
  then show ?thesis unfolding serving_def
    by (intro exI [of _ ?s]) (use s assms(2) in \<open>simp add: worker_check_def\<close>)
qed

text \<open>A handler that is running is brought to its end.\<close>

lemma slice_served:
  assumes "carried_by en fed made frame fl data ys" and "complete en fl data ys"
    and "0 \<le> sint (re_jobs en)" and "sint (re_jobs en) < int_max" and "j < length ys"
  shows "rtranclp (recv_step en) (recv_init en) s \<Longrightarrow> rv_exit s = None \<Longrightarrow> Busy (TRecv (int (Suc j))) \<in> set (tp_threads (rv_pool s)) \<Longrightarrow>
    cn_result (rv_conns s ! 0) = Some (Returned 0) \<Longrightarrow> cn_pending (rv_conns s ! 0) = [] \<Longrightarrow> cn_result (rv_conns s ! Suc j) = None \<Longrightarrow>
    \<exists>sv c. rtranclp (recv_step en) s (s\<lparr>rv_server := sv, rv_conns := (rv_conns s)[Suc j := c]\<rparr>) \<and> cn_result c = Some (Returned 0)"
proof (induction "conn_work (rv_conns s ! Suc j)" arbitrary: s rule: less_induct)
  case less
  let ?n = "slices_net en fl data ys s"
  note inv = reach_transfer_inv [OF assms(1) less.prems(1) assms(3,4)]
  have "\<not> untouched en s 0" using less.prems(4) by (auto simp: untouched_def failed_result_def fresh_conn_def)
  then have "net_inv (re_zstd en) fed made frame fl data ys ?n"
    using inv(2) less.prems(5) by (auto simp: transfer_inv_def slices_inv_def)
  moreover have j: "j < length (nt_conns ?n)" "nt_conns ?n ! j = rv_conns s ! Suc j" "nt_server ?n = rv_server s"
    using assms(2,5) complete_net by (simp_all add: slices_net_def)
  moreover have live: "cn_result (nt_conns ?n ! j) = None" using less.prems(6) j(2) by simp
  ultimately obtain sv c where c: "conn_round (re_zstd en) (recv_map en) (rv_server s) (rv_conns s ! Suc j) (delivers 10) = Some (Inr (sv, c))"
    "conn_well c" "conn_work c < conn_work (rv_conns s ! Suc j)"
    using net_deliver [of "re_zstd en" fed made frame fl data ys ?n j "recv_map en"] by metis
  let ?s = "s\<lparr>rv_server := sv, rv_conns := (rv_conns s)[Suc j := c]\<rparr>"
  have st: "recv_step en s ?s" by (rule recv_step.round [OF less.prems(2,3,6) c(1)])
  have len: "Suc j < length (rv_conns s)"
    using inv(1) assms(1,5) by (simp add: recv_inv_def recv_base_def carried_by_def carries_def)
  show ?case
  proof (cases "cn_result c = None")
    case False
    then show ?thesis using st c(2) by (auto simp: conn_well_def)
  next
    case True
    have "\<exists>sv' c'. rtranclp (recv_step en) ?s (?s\<lparr>rv_server := sv', rv_conns := (rv_conns ?s)[Suc j := c']\<rparr>) \<and> cn_result c' = Some (Returned 0)"
      by (rule less.hyps) (use c(3) len less.prems st True in \<open>auto intro: rtranclp.rtrancl_into_rtrancl\<close>)
    then obtain sv' c' where "rtranclp (recv_step en) ?s (s\<lparr>rv_server := sv', rv_conns := (rv_conns s)[Suc j := c']\<rparr>)"
      "cn_result c' = Some (Returned 0)" by auto
    with st show ?thesis by (auto intro: converse_rtranclp_into_rtranclp)
  qed
qed

lemma header_served:
  assumes "carried_by en fed made frame fl data ys" and "complete en fl data ys"
    and "0 \<le> sint (re_jobs en)" and "sint (re_jobs en) < int_max"
    and "rtranclp (recv_step en) (recv_init en) s" and "rv_exit s = None" and "Busy (TRecv (int 0)) \<in> set (tp_threads (rv_pool s))"
    and "rv_conns s ! 0 = fresh_conn (re_incoming en ! 0)"
  shows "\<exists>sv c. recv_step en s (s\<lparr>rv_server := sv, rv_conns := (rv_conns s)[0 := c]\<rparr>) \<and> cn_result c = Some (Returned 0) \<and> cn_pending c = []"
proof -
  let ?n = "of_nat (length data) :: u64" and ?k = "of_nat (length ys) :: u16"
  have c: "rv_conns s ! 0 = \<lparr>cn_local = recv_start, cn_pending = file_header ?n ?k, cn_result = None\<rparr>"
    using assms(1,8) by (simp add: carried_by_def carries_def fresh_conn_def)
  then have hs: "header_start (rv_server s)"
    using reach_transfer_inv(2) [OF assms(1,5,3,4)] by (simp add: transfer_inv_def)
  have k: "?k \<noteq> 0" using assms(1) plan_count(2) [of fl data] by (auto simp: carried_by_def frames_ok_def)
  have "list_all ((<) 0) [17 :: nat]" "length (file_header ?n ?k) \<le> sum_list [17]" "length [] + length (file_header ?n ?k) \<le> 17"
    using assms(2) by (simp_all add: complete_def)
  from read_loop_pieces [OF this] obtain rs' where
    rl: "read_loop 17 (file_header ?n ?k) [] (map Ok [17] @ [Err EAGAIN]) = ReadDone (file_header ?n ?k) [] rs'" by auto
  have "conn_round (re_zstd en) (recv_map en) (rv_server s) (rv_conns s ! 0) (WakeIn (map Ok [17] @ [Err EAGAIN]))
    = Some (Inr (header_state (recv_map en) (rv_server s) ?n (ucast ?k),
        (rv_conns s ! 0)\<lparr>cn_pending := [], cn_result := Some (Returned 0)\<rparr>))"
    using recv_iter_header [OF hs, of "re_zstd en" "recv_map en" "map Ok [17] @ [Err EAGAIN]" "file_header ?n ?k"] rl c
      recv_file_header_whole [OF k, of "recv_map en"]
    by (simp add: conn_round_def header_state_reads_max)
  then have "recv_step en s (s\<lparr>rv_server := header_state (recv_map en) (rv_server s) ?n (ucast ?k),
      rv_conns := (rv_conns s)[0 := (rv_conns s ! 0)\<lparr>cn_pending := [], cn_result := Some (Returned 0)\<rparr>]\<rparr>)"
    by (intro recv_step.round [where w = "WakeIn (map Ok [17] @ [Err EAGAIN])"]) (use assms(6,7) c in simp_all)
  then show ?thesis
    by (intro exI [of _ "header_state (recv_map en) (rv_server s) ?n (ucast ?k)"]
        exI [of _ "(rv_conns s ! 0)\<lparr>cn_pending := [], cn_result := Some (Returned 0)\<rparr>"]) simp
qed

lemma conn_served:
  assumes "carried_by en fed made frame fl data ys" and "complete en fl data ys"
    and "0 \<le> sint (re_jobs en)" and "sint (re_jobs en) < int_max"
    and "rtranclp (recv_step en) (recv_init en) s" and "rv_exit s = None" and "Busy (TRecv (int k)) \<in> set (tp_threads (rv_pool s))"
    and "rv_conns s ! k = fresh_conn (re_incoming en ! k)" and "k \<le> length ys"
    and "0 < k \<longrightarrow> cn_result (rv_conns s ! 0) = Some (Returned 0) \<and> cn_pending (rv_conns s ! 0) = []"
  shows "\<exists>sv c. rtranclp (recv_step en) s (s\<lparr>rv_server := sv, rv_conns := (rv_conns s)[k := c]\<rparr>) \<and>
    cn_result c = Some (Returned 0) \<and> (k = 0 \<longrightarrow> cn_pending c = [])"
proof (cases k)
  case 0
  have "\<exists>sv c. recv_step en s (s\<lparr>rv_server := sv, rv_conns := (rv_conns s)[0 := c]\<rparr>) \<and> cn_result c = Some (Returned 0) \<and> cn_pending c = []"
    by (rule header_served [OF assms(1-6)]) (use assms(7,8) 0 in simp_all)
  then obtain sv c where "recv_step en s (s\<lparr>rv_server := sv, rv_conns := (rv_conns s)[0 := c]\<rparr>)"
    "cn_result c = Some (Returned 0)" "cn_pending c = []" by blast
  then show ?thesis using 0 by (intro exI [of _ sv] exI [of _ c]) simp
next
  case (Suc j)
  have "\<exists>sv c. rtranclp (recv_step en) s (s\<lparr>rv_server := sv, rv_conns := (rv_conns s)[Suc j := c]\<rparr>) \<and> cn_result c = Some (Returned 0)"
    by (rule slice_served [OF assms(1-4)]) (use assms(5-10) Suc in \<open>simp_all add: fresh_fields\<close>)
  then show ?thesis using Suc by auto
qed

lemma serve_next:
  assumes cb: "carried_by en fed made frame fl data ys" and cp: "complete en fl data ys"
    and jb: "0 \<le> sint (re_jobs en)" "sint (re_jobs en) < int_max" and sv: "serving en s k" and k: "k \<le> length ys"
  shows "\<exists>s'. serving en s' (Suc k)"
proof -
  have len: "length (re_incoming en) = Suc (length ys)" using cb by (simp add: carried_by_def carries_def)
  have s: "rtranclp (recv_step en) (recv_init en) s" "rv_exit s = None" "2 \<le> length (tp_threads (rv_pool s))"
    "tp_threads (rv_pool s) ! 1 = Checking" "tp_tasks (rv_pool s) = map (\<lambda>k. TRecv (int k)) [k..<length (re_incoming en)]"
    using sv by (simp_all add: serving_def)
  have b: "recv_base en s" using reach_recv_inv [OF s(1) jb] by (simp add: recv_inv_def)
  then have lc: "length (rv_conns s) = length (re_incoming en)" and td: "list_all (task_done s) (tp_finished (rv_pool s))"
    by (simp_all add: recv_base_def)
  let ?p1 = "worker_check 1 (rv_pool s)"
  let ?p2 = "worker_finish 1 (TRecv (int k)) ?p1"
  let ?s1 = "s\<lparr>rv_pool := ?p1\<rparr>"
  have tk: "tp_tasks (rv_pool s) = TRecv (int k) # map (\<lambda>k. TRecv (int k)) [Suc k..<length (re_incoming en)]"
    using s(5) k len by (simp add: upt_conv_Cons)
  then have p1: "tp_threads ?p1 = (tp_threads (rv_pool s))[1 := Busy (TRecv (int k))]" "tp_finished ?p1 = tp_finished (rv_pool s)"
    "tp_tasks ?p1 = map (\<lambda>k. TRecv (int k)) [Suc k..<length (re_incoming en)]" by (simp_all add: worker_check_def)
  have "recv_step en s ?s1"
    by (rule recv_step.work [OF s(2) pool_work.check]) (use s p1(2) td in simp_all)
  with s(1) have r1: "rtranclp (recv_step en) (recv_init en) ?s1" by (rule rtranclp.rtrancl_into_rtrancl)
  have "Busy (TRecv (int k)) \<in> set (tp_threads (rv_pool ?s1))" using p1(1) s(3) by (simp add: set_update_memI)
  then have "\<exists>sv c. rtranclp (recv_step en) ?s1 (?s1\<lparr>rv_server := sv, rv_conns := (rv_conns ?s1)[k := c]\<rparr>) \<and>
    cn_result c = Some (Returned 0) \<and> (k = 0 \<longrightarrow> cn_pending c = [])"
    by (intro conn_served [OF cb cp jb r1]) (use sv k len in \<open>auto simp: serving_def\<close>)
  then obtain sv' c where st: "rtranclp (recv_step en) ?s1 (s\<lparr>rv_pool := ?p1, rv_server := sv', rv_conns := (rv_conns s)[k := c]\<rparr>)"
    (is "rtranclp _ _ ?s2") and c: "cn_result c = Some (Returned 0)" "k = 0 \<longrightarrow> cn_pending c = []" by auto
  have r2: "rtranclp (recv_step en) (recv_init en) ?s2" using r1 st by (rule rtranclp_trans)
  then have "recv_base en ?s2" using reach_recv_inv [OF r2 jb] by (simp add: recv_inv_def)
  then have "list_all (task_done ?s2) (tp_finished (rv_pool ?s2))" by (simp add: recv_base_def)
  moreover have "task_done ?s2 (TRecv (int k))" using c(1) k lc len by simp
  ultimately have td2: "list_all (task_done ?s2) (tp_finished ?p2)" by (simp add: worker_finish_def)
  have "recv_step en ?s2 (?s2\<lparr>rv_pool := ?p2\<rparr>)"
    by (rule recv_step.work [OF _ _ td2]) (use s p1(1) pool_work.finish [of 1 ?p1 "TRecv (int k)"] in simp_all)
  with r2 have r3: "rtranclp (recv_step en) (recv_init en) (?s2\<lparr>rv_pool := ?p2\<rparr>)" by (rule rtranclp.rtrancl_into_rtrancl)
  have kl: "k < length (rv_conns s)" using k lc len by simp
  have "\<forall>i < k. cn_result (rv_conns s ! i) = Some (Returned 0)" using sv by (simp add: serving_def)
  then have "\<forall>i < Suc k. cn_result ((rv_conns s)[k := c] ! i) = Some (Returned 0)"
    using c(1) kl by (simp add: less_Suc_eq nth_list_update)
  moreover have "cn_pending ((rv_conns s)[k := c] ! 0) = []"
    using sv c(2) k lc len by (cases "k = 0") (simp_all add: serving_def)
  ultimately show ?thesis using r3 sv p1 s(3)
    by (intro exI [of _ "?s2\<lparr>rv_pool := ?p2\<rparr>"]) (simp add: serving_def worker_finish_def)
qed

lemma serve_all_conns:
  assumes "carried_by en fed made frame fl data ys" and "complete en fl data ys"
    and "1 \<le> sint (re_jobs en)" and "sint (re_jobs en) < int_max" and "k \<le> Suc (length ys)"
  shows "\<exists>s. serving en s k"
  using assms(5)
proof (induction k)
  case 0
  have n: "pool_size (re_jobs en) = Inr (Suc (nat (sint (re_jobs en))))" by (rule pool_size_jobs) (use assms(3,4) in simp_all)
  have "re_incoming en ! k \<noteq> None" if "k < length (re_incoming en)" for k
    using that assms(1,2) by (cases k) (auto simp: carried_by_def carries_def complete_def)
  then show ?case using assms(3) by (intro serving_start [OF n]) auto
next
  case (Suc k)
  then show ?case using serve_next [OF assms(1,2) _ assms(4)] assms(3) by auto
qed

text \<open>The supervisor goes through and reports.\<close>

lemma get_all:
  assumes "rv_exit s = None" and "Busy TSupervise \<in> set (tp_threads (rv_pool s))" and "rv_sup s = SupGet j n" and "j \<le> n"
    and "\<forall>i < n. cn_result (rv_conns s ! (rv_res s ! i)) = Some (Returned 0)"
  shows "rtranclp (recv_step en) s (s\<lparr>rv_sup := SupGet n n\<rparr>)"
  using assms
proof (induction "n - j" arbitrary: s j)
  case 0
  then have "s\<lparr>rv_sup := SupGet n n\<rparr> = s" by simp
  then show ?case by simp
next
  case (Suc d)
  let ?s = "s\<lparr>rv_sup := SupGet (Suc j) n\<rparr>"
  have "j < n" using Suc.hyps(2) by simp
  then have "recv_step en s ?s" using Suc.prems by (intro recv_step.supervise) simp_all
  moreover have "rtranclp (recv_step en) ?s (?s\<lparr>rv_sup := SupGet n n\<rparr>)"
    by (rule Suc.hyps(1) [where j = "Suc j"]) (use Suc.hyps(2) Suc.prems \<open>j < n\<close> in simp_all)
  ultimately show ?case by (auto intro: converse_rtranclp_into_rtranclp)
qed

lemma receiver_run:
  assumes cb: "carried_by en fed made frame fl data ys" and cp: "complete en fl data ys"
    and jb: "1 \<le> sint (re_jobs en)" "sint (re_jobs en) < int_max" and "re_connected en"
    and "getValidResult_file (re_nan en) (re_arrow en) ((re_fs en)(re_path en \<mapsto> data)) (re_path en) (sint (re_rows en)) = Inr valid_res"
    and "list_all ((<) 0) (re_ws en)" and "length valid_res + 3 \<le> length (re_ws en)"
  shows "\<exists>s. rtranclp (recv_step en) (recv_init en) s \<and> rv_report s = [69, 0] @ valid_res \<and> rv_exit s = Some (RDied BadFree) \<and>
    well_run s \<and> (\<forall>k \<le> length ys. cn_result (rv_conns s ! k) = Some (Returned 0)) \<and> sv_start (rv_server s) = Mapped data"
proof -
  let ?n = "Suc (length ys)"
  have j0: "0 \<le> sint (re_jobs en)" using jb(1) by simp
  have len: "length (re_incoming en) = ?n" and few: "length ys \<le> 83 * 256"
    using cb by (auto simp: carried_by_def carries_def frames_ok_def)
  obtain s where "serving en s ?n" using serve_all_conns [OF cb cp jb order_refl] by blast
  then have s: "rtranclp (recv_step en) (recv_init en) s" "rv_exit s = None" "rv_main s = RWait" "rv_sup s = SupWait SupEval"
    "rv_res s = [0..<?n]" "tp_threads (rv_pool s) ! 0 = Busy TSupervise" "2 \<le> length (tp_threads (rv_pool s))"
    "\<forall>i < ?n. cn_result (rv_conns s ! i) = Some (Returned 0)" "cn_pending (rv_conns s ! 0) = []"
    using len by (simp_all add: serving_def)
  note inv = reach_transfer_inv [OF cb s(1) j0 jb(2)]
  have b: "recv_base en s" using inv(1) by (simp add: recv_inv_def)
  have r0: "\<forall>k \<le> length ys. cn_result (rv_conns s ! k) = Some (Returned 0)" using s(8) by simp
  have m: "sv_start (rv_server s) = Mapped data" by (rule transfer_done [OF inv(2) r0 s(9)])
  have "\<not> untouched en s 0" using s(8) by (auto simp: untouched_def failed_result_def fresh_conn_def)
  then have "sv_slices_num (rv_server s) = ucast (of_nat (length ys) :: u16)"
    using inv(2) s(9) by (auto simp: transfer_inv_def slices_inv_def)
  then have sn: "unat (sv_slices_num (rv_server s)) = length ys"
    using few by (simp add: unsigned_ucast_eq unat_u16_of_nat take_bit_nat_eq_self)
  have "0 < length ys" using cb plan_count(1) [of fl data] by (auto simp: carried_by_def frames_ok_def)
  then have "sv_slices_num (rv_server s) \<noteq> 0" using sn by auto
  moreover have "sv_slices_th_num (rv_server s) = of_nat ?n" using b s(3,5) by (simp add: recv_base_def counted_def)
  ultimately have rdy: "supervise_ready (sv_slices_th_num (rv_server s)) (sv_slices_num (rv_server s))"
    using supervise_ready_small [of ?n "sv_slices_num (rv_server s)"] sn few by simp
  have busy: "Busy TSupervise \<in> set (tp_threads (rv_pool s))" using s(6,7) by (metis less_le_trans nth_mem pos2)
  let ?s1 = "s\<lparr>rv_sup := SupWait SupGo\<rparr>"
  let ?s2 = "s\<lparr>rv_sup := SupGet 0 ?n\<rparr>"
  let ?s3 = "s\<lparr>rv_sup := SupGet ?n ?n\<rparr>"
  have "recv_step en s ?s1" by (rule recv_step.supervise) (use s busy rdy in simp_all)
  moreover have "recv_step en ?s1 ?s2"
    using recv_step.supervise [of ?s1 en ?s2] s busy assms(5) by simp
  moreover have "rtranclp (recv_step en) ?s2 (?s2\<lparr>rv_sup := SupGet ?n ?n\<rparr>)"
    by (rule get_all [where j = 0]) (use s busy in \<open>simp_all add: nth_append\<close>)
  then have "rtranclp (recv_step en) ?s2 ?s3" by simp
  ultimately have r3: "rtranclp (recv_step en) (recv_init en) ?s3"
    using s(1) by (meson rtranclp.rtrancl_into_rtrancl rtranclp_trans)
  let ?fs = "map (\<lambda>k. the (cn_result (rv_conns s ! k))) (take ?n (rv_res s))"
  have "collect ?fs = Inr 0" by (rule collect_returned_0) (use s(5,8) in auto)
  then have rep: "Server_Supervise True ?fs valid_res (map_bufs (rv_server s)) (Mapped data) (re_ws en)
    = Done (sup_cleanup (map_bufs (rv_server s)) (Mapped data), [69, 0] @ valid_res)"
    by (rule supervise_report_sent [OF _ assms(7,8)])
  have "recv_validate en (rv_server s) = Inr valid_res" using assms(6) m by (simp add: recv_validate_def recv_files_def)
  then have "sup_next en (SupGet ?n ?n) ?s3 = Some (?s3\<lparr>rv_exit := Some (RDied BadFree), rv_report := [69, 0] @ valid_res\<rparr>)"
    using rep m by (simp add: sup_report_def sup_end_def sup_cleanup_def)
  then have "recv_step en ?s3 (?s3\<lparr>rv_exit := Some (RDied BadFree), rv_report := [69, 0] @ valid_res\<rparr>)"
    by (intro recv_step.supervise) (use s busy in simp_all)
  with r3 have "rtranclp (recv_step en) (recv_init en) (?s3\<lparr>rv_exit := Some (RDied BadFree), rv_report := [69, 0] @ valid_res\<rparr>)"
    by (rule rtranclp.rtrancl_into_rtrancl)
  moreover have "length (rv_conns s) = ?n" using b len by (simp add: recv_base_def)
  ultimately show ?thesis
    by (intro exI [of _ "?s3\<lparr>rv_exit := Some (RDied BadFree), rv_report := [69, 0] @ valid_res\<rparr>"])
      (use s(8,9) m in \<open>simp add: well_run_def failed_result_def\<close>)
qed

end
