(* ===== verification/Recv_Main.thy ===== *)
theory Recv_Main
  imports Recv_Schedule
begin

section \<open>What the receiving program does\<close>

text \<open>
  Properties of the threads of the receiver together: when the report goes out, that the wait of the
  supervisor is the one analysed in \<open>Recv_Supervise\<close>, and that the output is the sender's file when
  all handlers have returned 0, for every order in which the connections come and are handled.
\<close>

subsection \<open>The text of the report\<close>

text \<open>What the validation returns contains the word the sender looks for, and is not long.\<close>

lemma report_verdict:
  assumes "collect futures = Inr failed" and "list_all ((<) 0) ws" and "length valid_res + 3 \<le> length ws"
    and "contains strings2 valid_res" and "length valid_res \<le> 510"
    and "Server_Supervise True futures valid_res bufs start ws = Done (r, pend fd)"
    and "one_batch n fd waits" and "length valid_res + 2 \<le> n"
  shows "SendingFlow_Supervise waits pend = SSReturn 0 (Some valid_res) 1"
  using supervise_report_sent [OF assms(1-3), of bufs start] assms(4-8) by (intro one_batch_found [of _ pend fd n]) simp_all

lemma contains_infix: "contains pat (a @ pat @ b)"
proof (induction a)
  case Nil
  have "prefix pat (pat @ b)" by simp
  then show ?case by (cases "pat @ b") (metis append_Nil append_is_Nil_conv contains.simps(1), metis append_Nil contains.simps(2))
qed simp

lemma validated_text:
  assumes "readDataFromFile ar fs path rows = Inr cv" and "rows \<le> 2147400000" and "length nan_text \<le> 5"
    and "sum_list (map (\<lambda>v. \<bar>sint v\<bar>) (samples (intVal cv) rows)) < 2 ^ 31"
    and "getValidResult_file nan_text ar fs path rows = Inr valid_res"
  shows "contains strings2 valid_res \<and> length valid_res \<le> 404"
proof -
  have cv: "cols_ok cv" "cv_total cv = rows" using readDataFromFile_ok [OF assms(1)] by simp_all
  have t: "cv_total cv \<le> 2147400000" "sum_list (map (\<lambda>v. \<bar>sint v\<bar>) (samples (intVal cv) (cv_total cv))) < 2 ^ 31"
    using assms(2,4) by (simp_all only: cv(2))
  obtain a b where ab: "getValidResult nan_text cv = Inr (a @ label ''strings2: '' @ b)" "length (a @ label ''strings2: '' @ b) \<le> 404"
    by (rule valid_length [OF cv(1) t(1) assms(3) t(2)])
  have v: "valid_res = a @ label ''strings2: '' @ b" using assms(1,5) ab(1) by (simp add: getValidResult_file_def)
  have "label ''strings2: '' = strings2 @ [32]" by (simp add: label_def strings2_def)
  then have "contains strings2 (a @ label ''strings2: '' @ b)" using contains_infix [of strings2 a "[32] @ b"] by simp
  with ab(2) v show ?thesis by simp
qed

lemma low_read: "fs p \<noteq> None \<Longrightarrow> readDataFromFile low_arrow fs p 2
    = Inr \<lparr>cv_total = 2, stringVal1 = replicate 2 (replicate 20 97), intVal = [1, 1], doubles = [dbl_zero, dbl_zero],
        stringVal2 = [[98, 98], [98, 98]]\<rparr>"
proof -
  have "replicate 2 x = [x, x]" for x :: 'x by (simp add: numeral_2_eq_2)
  then show ?thesis if "fs p \<noteq> None"
    using that by (auto simp: readDataFromFile_def empty_cols_def low_arrow_def low_table_def read_batch_def copy_col_def put_bytes_def)
qed

subsection \<open>A program without jobs\<close>

text \<open>With one worker the supervisor takes it, and no handler ever runs.\<close>

definition no_handler :: "receiver \<Rightarrow> bool" where
  "no_handler s \<longleftrightarrow> one_task TSupervise (rv_pool s) \<and>
     (\<forall>k < length (rv_conns s). cn_result (rv_conns s ! k) = None) \<and> sv_slices_num (rv_server s) = 0 \<and>
     (\<exists>pc. rv_sup s = SupWait pc \<and> pc \<noteq> SupGo) \<and> rv_report s = []"

lemma single_busy:
  assumes "no_handler s" and "recv_base en s" and "Busy t \<in> set (tp_threads (rv_pool s))"
  shows "t = TSupervise"
  by (rule one_task_busy [OF _ _ assms(3)]) (use assms(1,2) in \<open>simp_all add: no_handler_def recv_base_def\<close>)

lemma no_handler_work:
  assumes "no_handler s" and "recv_base en s" and "pool_work (rv_pool s) p" and "list_all (task_done s) (tp_finished p)"
  shows "no_handler (s\<lparr>rv_pool := p\<rparr>)"
proof -
  have "TSupervise \<notin> set (tp_finished p)" using assms(1,4) by (auto simp: no_handler_def list_all_iff)
  then have "one_task TSupervise p"
    by (intro one_task_work [OF _ _ assms(3)]) (use assms(1,2) in \<open>simp_all add: no_handler_def recv_base_def\<close>)
  then show ?thesis using assms(1) by (simp add: no_handler_def)
qed

lemma no_handler_step:
  assumes "no_handler s" and "recv_base en s" and "recv_step en s s'"
  shows "no_handler s'"
  using assms(3)
proof cases
  case (round k w sv c)
  then show ?thesis using single_busy [OF assms(1,2) round(3)] by simp
next
  case (crash k w e)
  then show ?thesis using single_busy [OF assms(1,2) crash(3)] by simp
next
  case supervise
  obtain pc where pc: "rv_sup s = SupWait pc" "pc \<noteq> SupGo" using assms(1) by (auto simp: no_handler_def)
  then have "\<exists>pc. rv_sup s' = SupWait pc \<and> pc \<noteq> SupGo" "rv_report s' = []"
    using supervise(3) assms(1) by (cases pc; auto simp: no_handler_def supervise_ready_def)+
  then show ?thesis using assms(1) sup_next_keeps [OF supervise(3)] by (simp add: no_handler_def)
next
  case (work p)
  then show ?thesis using no_handler_work [OF assms(1,2)] by simp
qed (use assms(1) in \<open>auto simp: no_handler_def recv_notify_def one_task_client\<close>)

subsection \<open>A sample receiver\<close>

text \<open>The sample transfer of \<open>Transfer_Plan\<close>, on connections that bring all of it.\<close>

definition sample_recv :: "byte list recv_env" where
  "sample_recv = \<lparr>re_zstd = store_d, re_arrow = low_arrow, re_nan = [], re_jobs = 1, re_rows = 2, re_path = ''f'', re_fs = (\<lambda>_. None),
     re_opened = True, re_incoming = [Some (file_header 7 2), Some (slice_message (FileSlice sample_data 0 3 3) [1, 2, 3]),
       Some (slice_message (FileSlice sample_data 1 4 3) [4, 5, 6, 7])], re_connected = True, re_ws = replicate 500 9\<rparr>"

lemma sample_frames_ok: "frames_ok (=) (split_slices sample_flags sample_data) sample_frames"
  unfolding sample_slices
  by (simp add: frames_ok_def sample_frames_def FileSlice_def slice_bytes_def GetBuf_def get_bytes_def sample_data_def
      less_Suc_eq all_conj_distrib)

lemma sample_carries: "carries sample_recv sample_flags sample_data sample_frames"
proof -
  have "length sample_data = 7" "length sample_frames = 2" by (simp_all add: sample_data_def sample_frames_def)
  then show ?thesis unfolding carries_def sample_slices
    by (simp add: sample_recv_def sample_frames_def fresh_conn_def less_Suc_eq all_conj_distrib)
qed

lemma sample_carried: "carried_by sample_recv id id (=) sample_flags sample_data sample_frames"
proof -
  have "length (split_slices sample_flags sample_data) \<le> 83 * 256" by (simp add: sample_slices)
  then show ?thesis using sample_plan sample_frames_ok sample_carries store_d_contract
    by (simp add: carried_by_def) (simp add: sample_recv_def)
qed

lemma sample_complete: "complete sample_recv sample_flags sample_data sample_frames"
proof -
  have "length sample_data = 7" "length sample_frames = 2" by (simp_all add: sample_data_def sample_frames_def)
  then show ?thesis unfolding complete_def sample_slices
    by (simp add: sample_recv_def sample_frames_def less_Suc_eq all_conj_distrib file_header_def print_nat.simps)
qed

lemma sample_jobs: "1 \<le> sint (re_jobs sample_recv)" "0 \<le> sint (re_jobs sample_recv)" "sint (re_jobs sample_recv) < int_max"
  by (simp_all add: sample_recv_def int_max_def)

lemma sample_valid:
  assumes "fs p \<noteq> None"
  obtains msg where "getValidResult_file [] low_arrow fs p 2 = Inr msg" and "contains strings2 msg" and "length msg \<le> 404"
proof -
  let ?cv = "\<lparr>cv_total = 2, stringVal1 = replicate 2 (replicate 20 97), intVal = [1, 1], doubles = [dbl_zero, dbl_zero],
        stringVal2 = [[98, 98], [98, 98]]\<rparr> :: ColValue"
  have rd: "readDataFromFile low_arrow fs p 2 = Inr ?cv" using low_read [of fs p] assms by blast
  have sm: "sum_list (map (\<lambda>v. \<bar>sint v\<bar>) (samples (intVal ?cv) 2)) < 2 ^ 31" by (simp add: samples_def)
  have ok: "cols_ok ?cv" by (simp add: cols_ok_def)
  have "sum_list (map (\<lambda>v. \<bar>sint v\<bar>) (samples (intVal ?cv) (cv_total ?cv))) < 2 ^ 31" using sm by simp
  from valid_length [OF ok _ _ this, of "[]"] obtain msg where "getValidResult [] ?cv = Inr msg" by auto
  then have t: "getValidResult_file [] low_arrow fs p 2 = Inr msg"
    using rd by (simp only: getValidResult_file_def sum.case)
  then show ?thesis using validated_text [OF rd _ _ sm t] that by simp
qed

lemma sample_receiver_run:
  obtains s msg where "rtranclp (recv_step sample_recv) (recv_init sample_recv) s" and "rv_report s = [69, 0] @ msg"
    and "rv_exit s = Some (RDied BadFree)" and "well_run s" and "\<forall>k \<le> 2. cn_result (rv_conns s ! k) = Some (Returned 0)"
    and "sv_start (rv_server s) = Mapped sample_data" and "contains strings2 msg" and "length msg \<le> 404"
    and "getValidResult_file [] low_arrow [''f'' \<mapsto> sample_data] ''f'' 2 = Inr msg"
proof -
  obtain msg where m: "getValidResult_file [] low_arrow [''f'' \<mapsto> sample_data] ''f'' 2 = Inr msg" "contains strings2 msg" "length msg \<le> 404"
    by (rule sample_valid [of "[''f'' \<mapsto> sample_data]" "''f''"]) simp_all
  have "\<exists>s. rtranclp (recv_step sample_recv) (recv_init sample_recv) s \<and> rv_report s = [69, 0] @ msg \<and> rv_exit s = Some (RDied BadFree) \<and>
    well_run s \<and> (\<forall>k \<le> length sample_frames. cn_result (rv_conns s ! k) = Some (Returned 0)) \<and> sv_start (rv_server s) = Mapped sample_data"
    by (rule receiver_run [OF sample_carried sample_complete sample_jobs(1,3)])
      (use m in \<open>simp_all add: sample_recv_def list_all_iff\<close>)
  then show ?thesis using that m by (auto simp: sample_frames_def numeral_2_eq_2)
qed

subsection \<open>Properties\<close>

text \<open>(C25) The threads of the receiver implement the wait: every run of the program is a run of the
  supervisor's wait as analysed on its own, with wake-ups for no reason added.\<close>

theorem receiver_refines_wait:
  assumes "rtranclp (recv_step en) (recv_init en) s" and "0 \<le> sint (re_jobs en)" and "sint (re_jobs en) < int_max"
  shows "rtranclp wait_step sup_start (recv_wait s)"
  using receiver_wait.reach_simulates [OF _ assms(1)] pool_size_jobs [OF assms(2,3)] wait_init [of en] by metis

theorem receiver_refines_wait_witness:
  "\<exists>s. rtranclp (recv_step sample_recv) (recv_init sample_recv) s \<and> rv_report s \<noteq> [] \<and> rtranclp wait_step sup_start (recv_wait s)"
proof -
  obtain s msg where s: "rtranclp (recv_step sample_recv) (recv_init sample_recv) s" "rv_report s = [69, 0] @ msg" by (rule sample_receiver_run)
  with receiver_refines_wait [OF s(1) sample_jobs(2,3)] show ?thesis by (intro exI [of _ s]) simp
qed

text \<open>(C24) No report before the end: when the supervisor has written anything, with fewer than 32768
  connections, the header has been processed, there is a connection for it and for each slice, and
  all their handlers have returned.\<close>

theorem report_after_handlers:
  assumes "rtranclp (recv_step en) (recv_init en) s" and "0 \<le> sint (re_jobs en)" and "sint (re_jobs en) < int_max"
    and "rv_report s \<noteq> []" and "length (rv_res s) < 2 ^ 15" and "unat (sv_slices_num (rv_server s)) + 1 < 2 ^ 32"
  shows "sv_slices_num (rv_server s) \<noteq> 0 \<and>
    (\<exists>n \<le> length (rv_res s). unat (sv_slices_num (rv_server s)) + 1 \<le> n \<and>
       (\<forall>i < n. \<exists>r. cn_result (rv_conns s ! (rv_res s ! i)) = Some (Returned r)))"
  using reach_recv_inv [OF assms(1-3)] assms(4-6) by (auto simp: recv_inv_def got_inv_def)

theorem report_after_handlers_witness:
  "\<exists>s. rtranclp (recv_step sample_recv) (recv_init sample_recv) s \<and> sv_slices_num (rv_server s) \<noteq> 0 \<and>
    (\<exists>n \<le> length (rv_res s). unat (sv_slices_num (rv_server s)) + 1 \<le> n)"
proof -
  obtain s msg where s: "rtranclp (recv_step sample_recv) (recv_init sample_recv) s" "rv_report s = [69, 0] @ msg" "well_run s"
    by (rule sample_receiver_run)
  note inv = reach_transfer_inv [OF sample_carried s(1) sample_jobs(2,3)]
  have b: "recv_base sample_recv s" using inv(1) by (simp add: recv_inv_def)
  have "\<exists>n. got_inv s n n" using inv(1) s(2) by (simp add: recv_inv_def)
  then obtain n where g: "got_inv s n n" ..
  have "length (rv_res s) < 2 ^ 15" using reported_header(2,3) [OF sample_carried inv(2) b g] by simp
  moreover have "unat (sv_slices_num (rv_server s)) + 1 < 2 ^ 32"
    using reported_count [OF sample_carried inv(2) b g s(3)] by (simp add: sample_frames_def)
  ultimately show ?thesis using report_after_handlers [OF s(1) sample_jobs(2,3)] s by (intro exI [of _ s]) auto
qed

text \<open>A receiver that is told to use no jobs never handles a connection: the supervisor occupies its only
  thread, and no state that can be reached has a handler that returned or a report.\<close>

theorem receiver_without_jobs:
  assumes "rtranclp (recv_step en) (recv_init en) s" and "re_jobs en = 0"
  shows "(\<forall>k < length (rv_conns s). cn_result (rv_conns s ! k) = None) \<and> sv_slices_num (rv_server s) = 0 \<and> rv_report s = []"
proof -
  have n: "pool_size (re_jobs en) = Inr 1" using assms(2) pool_size_jobs [of 0] by (simp add: int_max_def)
  have "recv_base en s \<and> no_handler s" using assms(1)
  proof (induction rule: rtranclp_induct)
    case base
    show ?case using base_init [OF n] n
      by (simp add: no_handler_def recv_init_def Let_def fresh_conn_def server_init_def) (simp add: one_task_def enqueue_def make_pool_def)
  next
    case (step s t)
    then show ?case using base_step no_handler_step by blast
  qed
  then show ?thesis by (simp add: no_handler_def)
qed

theorem receiver_without_jobs_witness:
  "\<exists>s. rtranclp (recv_step (sample_recv\<lparr>re_jobs := 0\<rparr>)) (recv_init (sample_recv\<lparr>re_jobs := 0\<rparr>)) s \<and> rv_res s = [0] \<and>
    (\<forall>k < length (rv_conns s). cn_result (rv_conns s ! k) = None) \<and> rv_report s = []"
proof -
  let ?en = "sample_recv\<lparr>re_jobs := 0\<rparr>"
  have z: "pool_size 0 = Inr 1" using pool_size_jobs [of 0] by (simp add: int_max_def)
  have "recv_step ?en (recv_init ?en) ((recv_init ?en)\<lparr>rv_main := RCount,
      rv_pool := enqueue (TRecv (int 0)) (rv_pool (recv_init ?en)), rv_res := rv_res (recv_init ?en) @ [0]\<rparr>)" (is "recv_step _ _ ?s")
    by (rule recv_step.accept) (simp_all add: recv_init_def Let_def z sample_recv_def)
  then have r: "rtranclp (recv_step ?en) (recv_init ?en) ?s" by (rule r_into_rtranclp)
  have "rv_res ?s = [0]" by (simp add: recv_init_def Let_def z)
  then show ?thesis using receiver_without_jobs [OF r] r by (intro exI [of _ ?s]) simp
qed

text \<open>(C4) Safety of the receiver: whatever the order in which the connections are made, accepted and handled,
  however the threads are scheduled, and also when connections break off: once the handlers of the
  header and of all slices have returned 0, and the header was taken in whole, the output is the
  sender's file.\<close>

theorem receiver_safe:
  assumes "carried_by en fed made frame fl data ys" and "rtranclp (recv_step en) (recv_init en) s"
    and "0 \<le> sint (re_jobs en)" and "sint (re_jobs en) < int_max"
    and "\<forall>k \<le> length ys. cn_result (rv_conns s ! k) = Some (Returned 0)" and "cn_pending (rv_conns s ! 0) = []"
  shows "sv_start (rv_server s) = Mapped data"
  using transfer_done [OF reach_transfer_inv(2) [OF assms(1-4)] assms(5,6)] .

theorem receiver_safe_witness:
  "\<exists>s. rtranclp (recv_step sample_recv) (recv_init sample_recv) s \<and> sv_start (rv_server s) = Mapped sample_data"
proof -
  obtain s msg where s: "rtranclp (recv_step sample_recv) (recv_init sample_recv) s" "well_run s"
    "\<forall>k \<le> 2. cn_result (rv_conns s ! k) = Some (Returned 0)" by (rule sample_receiver_run)
  have "\<forall>k \<le> length sample_frames. cn_result (rv_conns s ! k) = Some (Returned 0)" using s(3) by (simp add: sample_frames_def)
  moreover have "cn_pending (rv_conns s ! 0) = []" using s(2) by (simp add: well_run_def)
  ultimately have "sv_start (rv_server s) = Mapped sample_data"
    by (rule receiver_safe [OF sample_carried s(1) sample_jobs(2,3)])
  then show ?thesis using s(1) by blast
qed

text \<open>(C5) The receiver can do its work: with at least one job, connections that bring everything and a sender's
  supervisor that takes the report there is a schedule after which the output is the file and the
  report is out. The process then dies, because it frees the mapping.\<close>

theorem receiver_completes:
  assumes "carried_by en fed made frame fl data ys" and "complete en fl data ys"
    and "1 \<le> sint (re_jobs en)" and "sint (re_jobs en) < int_max" and "re_connected en"
    and "getValidResult_file (re_nan en) (re_arrow en) ((re_fs en)(re_path en \<mapsto> data)) (re_path en) (sint (re_rows en)) = Inr valid_res"
    and "list_all ((<) 0) (re_ws en)" and "length valid_res + 3 \<le> length (re_ws en)"
  shows "\<exists>s. rtranclp (recv_step en) (recv_init en) s \<and> rv_report s = [69, 0] @ valid_res \<and> rv_exit s = Some (RDied BadFree) \<and>
    well_run s \<and> (\<forall>k \<le> length ys. cn_result (rv_conns s ! k) = Some (Returned 0)) \<and> sv_start (rv_server s) = Mapped data"
  using assms by (rule receiver_run)

theorem receiver_completes_witness:
  "\<exists>s msg. rtranclp (recv_step sample_recv) (recv_init sample_recv) s \<and> rv_report s = [69, 0] @ msg \<and>
    sv_start (rv_server s) = Mapped sample_data"
proof -
  obtain msg where m: "getValidResult_file [] low_arrow [''f'' \<mapsto> sample_data] ''f'' 2 = Inr msg" "length msg \<le> 404"
    by (rule sample_valid [of "[''f'' \<mapsto> sample_data]" "''f''"]) simp_all
  have "\<exists>s. rtranclp (recv_step sample_recv) (recv_init sample_recv) s \<and> rv_report s = [69, 0] @ msg \<and> rv_exit s = Some (RDied BadFree) \<and>
    well_run s \<and> (\<forall>k \<le> length sample_frames. cn_result (rv_conns s ! k) = Some (Returned 0)) \<and> sv_start (rv_server s) = Mapped sample_data"
    by (rule receiver_completes [OF sample_carried sample_complete sample_jobs(1,3)])
      (use m in \<open>simp_all add: sample_recv_def list_all_iff\<close>)
  then show ?thesis by blast
qed

end
