(* ===== verification/Send_Main.thy ===== *)
theory Send_Main
  imports Send_Program
begin

section \<open>What the sending program does\<close>

text \<open>
  Properties of the threads of main.cc together, on the invariant and the schedules of
  \<open>Send_Program\<close>: what an exit with 0 says, that it can be had, what the main thread waits for, and
  the race between \<open>Destory\<close> and the workers.
\<close>

subsection \<open>A sample program\<close>

text \<open>Three bytes in one slice, one job, the storing codec, and connections that take everything.\<close>

definition sample_env :: "(byte list \<times> byte list) send_env" where
  "sample_env = \<lparr>en_zstd = store_c, en_flags = \<lparr>segment_size = 0, jobs = 1\<rparr>, en_garbage = 0,
     en_fs = [''in'' \<mapsto> [1, 2, 3]], en_path = ''in'', en_connected = True, en_stale = (\<lambda>h. h),
     en_header_rs = [Ok 9], en_slice_connected = (\<lambda>_. True), en_slice_rs = (\<lambda>_. replicate 20 (Ok 3)),
     en_waits = [WaitErr], en_pend = (\<lambda>_. [])\<rparr>"

lemma env_file: "en_file sample_env = ([1, 2, 3], 3)"
  by (simp add: en_file_def sample_env_def ReadArrowFile_def)

lemma env_split:
  "SplitFile (en_flags sample_env) (fst (en_file sample_env)) (snd (en_file sample_env))
    = Some (Inr ([FileSlice [1, 2, 3] 0 3 3], \<lparr>segment_size = 3, jobs = 1\<rparr>))"
  unfolding env_file
  by (simp add: sample_env_def SplitFile_def split_flags_def int_max_def split_loop.simps)

lemma env_init:
  "SendingFlow_Init zstd_util_start (en_connected sample_env) (en_stale sample_env) (snd (en_file sample_env))
     (of_nat (length [FileSlice [1, 2, 3] 0 3 3])) (en_header_rs sample_env) = Done (0, util_init, [83, 51, 35, 49])"
  unfolding env_file
  by (simp add: sample_env_def SendingFlow_Init_def SendFileSizeOnly_def file_header_def ascii_S_def ascii_hash_def
      ZSTDCompressUtil_Init_def util_init_def print_nat.simps mem_read_def get_bytes_def Let_def)

lemma env_slice_sent:
  "slice_run sample_env [FileSlice [1, 2, 3] 0 3 3] 0 = Done (Some (slice_message (FileSlice [1, 2, 3] 0 3 3) [1, 2, 3]))"
proof -
  have "Compress store_c util_init (FileSlice [1, 2, 3] 0 3 3)
    = Some (Inr (Some (compressed_slice (FileSlice [1, 2, 3] 0 3 3) [[1, 2, 3]])))"
    by (simp add: Compress_def util_init_def ZSTDCompressUtil_Init_def FileSlice_def store_c_def compress_loop.simps
      compress_piece.simps Let_def mem_read_def get_bytes_def GetBuf_def LinkCompressChunk_def
      SetChunkLinksHeader_def link_header_bytes compressed_slice_def linked_def mem_write_def put_c_len
      wire32.length_enc)
      (simp add: link_header_def slice_header_len_def Let_def)
  moreover have "SendFileSlice True (compressed_slice (FileSlice [1, 2, 3] 0 3 3) [[1, 2, 3]]) (replicate 20 (Ok 3))
    = Done (0, slice_message (FileSlice [1, 2, 3] 0 3 3) (concat [[1, 2, 3]]))"
    by (rule send_slice_completes) (simp_all add: fair_script_def accepted_def IsSocketError_def list_all_iff)
  ultimately show ?thesis by (simp add: slice_run_def SendingFlow_Run_def) (simp add: sample_env_def)
qed

lemma env_slice_run: "\<exists>out. slice_run sample_env [FileSlice [1, 2, 3] 0 3 3] 0 = Done out"
  using env_slice_sent by blast

lemma env_supervise: "SendingFlow_Supervise (en_waits sample_env) (en_pend sample_env) = SSReturn (-1) None 0"
  by (simp add: sample_env_def SendingFlow_Supervise_def)

lemma env_jobs: "1 \<le> sint (jobs (en_flags sample_env))" "sint (jobs (en_flags sample_env)) < int_max"
  by (simp_all add: sample_env_def int_max_def)

subsection \<open>Properties\<close>

text \<open>(C13) When the sender exits with 0, however its threads were scheduled: the file was split, \<open>Init\<close>
  returned 0, and the supervisor and every slice were run exactly once, each slice as if it had been
  alone, with the compressor set up. What \<open>Init\<close> has put on the header connection is a beginning of the
  header, provided that the memory of the temporary it reads from still holds the text; it is all of it
  unless one of the writes took nothing or would have blocked.\<close>

theorem sender_exit_0:
  assumes "rtranclp (send_step en) (send_start en) s" and "sd_main s = Ended 0"
    and "0 \<le> sint (jobs (en_flags en))" and "sint (jobs (en_flags en)) < int_max"
    and "header = file_header (snd (en_file en)) (of_nat (length (sd_slices s)))" and "en_stale en header = header"
  shows "(\<exists>fl. SplitFile (en_flags en) (fst (en_file en)) (snd (en_file en)) = Some (Inr (sd_slices s, fl))) \<and>
    SendingFlow_Init zstd_util_start (en_connected en) (en_stale en) (snd (en_file en))
      (of_nat (length (sd_slices s))) (en_header_rs en) = Done (0, util_init, sd_header s) \<and>
    (\<exists>m. sd_header s = take m header) \<and> (not_full (en_header_rs en) \<longrightarrow> sd_header s = header) \<and>
    mset (tp_finished (sd_pool s)) = mset (SupTask # map SendTask [0..<length (sd_slices s)]) \<and>
    (\<forall>j < length (sd_slices s). \<exists>out. sd_results s j = Some out \<and> slice_run en (sd_slices s) j = Done out)"
proof -
  note ex = exit_0_facts [OF assms(1-4)]
  then show ?thesis using init_header [of zstd_util_start "en_connected en" "en_stale en"] assms(5,6) by blast
qed

theorem sender_exit_0_witness:
  "\<exists>s. rtranclp (send_step sample_env) (send_start sample_env) s \<and> sd_main s = Ended 0 \<and> sd_slices s = [FileSlice [1, 2, 3] 0 3 3] \<and>
    sd_header s = file_header 3 1 \<and> mset (tp_finished (sd_pool s)) = mset [SupTask, SendTask 0] \<and> sd_results s 0 \<noteq> None"
proof -
  have "\<forall>j < length [FileSlice [1, 2, 3] 0 3 3]. \<exists>out. slice_run sample_env [FileSlice [1, 2, 3] 0 3 3] j = Done out"
    using env_slice_run by simp
  from sender_run [OF env_split env_init this env_supervise] env_jobs obtain s where
    s: "rtranclp (send_step sample_env) (send_start sample_env) s" "sd_main s = Ended 0" "sd_slices s = [FileSlice [1, 2, 3] 0 3 3]"
    by auto
  have h: "file_header 3 1 = file_header (snd (en_file sample_env)) (of_nat (length (sd_slices s)))" by (simp add: env_file s(3))
  have "en_stale sample_env (file_header 3 1) = file_header 3 1" "not_full (en_header_rs sample_env)" by (simp_all add: sample_env_def not_full_def)
  with sender_exit_0 [OF s(1,2) _ _ h] env_jobs s show ?thesis by auto
qed

text \<open>\<open>main\<close> does not look at what the supervisor returned: here it has failed, and the sender exits with 0.\<close>

lemma sender_ignores_verdict:
  "\<exists>s. rtranclp (send_step sample_env) (send_start sample_env) s \<and> sd_main s = Ended 0 \<and> sd_verdict s = Some (SSReturn (-1) None 0)"
proof -
  have "\<forall>j < length [FileSlice [1, 2, 3] 0 3 3]. \<exists>out. slice_run sample_env [FileSlice [1, 2, 3] 0 3 3] j = Done out"
    using env_slice_run by simp
  from sender_run [OF env_split env_init this env_supervise] env_jobs obtain s where
    s: "rtranclp (send_step sample_env) (send_start sample_env) s" "sd_main s = Ended 0" by auto
  moreover have "sd_verdict s = Some (SSReturn (-1) None 0)"
    using ended_drained(2) [OF s] env_jobs env_supervise by simp
  ultimately show ?thesis by blast
qed

text \<open>(C17) The sender can exit with 0 whenever the file splits, the header gets out, every slice can be
  compressed and its writes end, and the supervisor returns: there is a schedule for it.\<close>

theorem sender_completes:
  assumes "SplitFile (en_flags en) (fst (en_file en)) (snd (en_file en)) = Some (Inr (fs, fl))"
    and "SendingFlow_Init zstd_util_start (en_connected en) (en_stale en) (snd (en_file en))
      (of_nat (length fs)) (en_header_rs en) = Done (0, u, out)"
    and "\<forall>j < length fs. \<exists>out. slice_run en fs j = Done out"
    and "SendingFlow_Supervise (en_waits en) (en_pend en) = SSReturn c x k"
    and "0 \<le> sint (jobs (en_flags en))" and "sint (jobs (en_flags en)) < int_max"
  shows "\<exists>s. rtranclp (send_step en) (send_start en) s \<and> sd_main s = Ended 0 \<and> sd_slices s = fs"
  using assms by (rule sender_run)

theorem sender_completes_witness:
  "\<exists>s. rtranclp (send_step sample_env) (send_start sample_env) s \<and> sd_main s = Ended 0 \<and> sd_slices s = [FileSlice [1, 2, 3] 0 3 3]"
  by (rule sender_completes [OF env_split env_init _ env_supervise])
    (use env_slice_run env_jobs in simp_all)

text \<open>How the supervisor can have come to its end.\<close>

fun supervisor_ended :: "ss_result \<Rightarrow> bool" where
  "supervisor_ended (SSReturn c text t) = True"
| "supervisor_ended (SSThrow e) = True"
| "supervisor_ended (SSLoop pend t) = False"
| "supervisor_ended SSReading = False"

text \<open>(C36) The sender does not exit before its supervisor has come to an end, by returning, when it got a
  report or \<open>epoll_wait\<close> or a connection failed, or by an exception. This holds for every exit code, so
  also when the header could not be sent: \<open>main\<close> returns -1, and the destructor of the pool waits for the
  supervisor, which waits for a report that nobody is going to make.\<close>

theorem sender_waits_for_report:
  assumes "rtranclp (send_step en) (send_start en) s" and "sd_main s = Ended r"
    and "0 \<le> sint (jobs (en_flags en))" and "sint (jobs (en_flags en)) < int_max"
  shows "SupTask \<in> set (tp_finished (sd_pool s)) \<and> sd_verdict s = Some (SendingFlow_Supervise (en_waits en) (en_pend en)) \<and>
    supervisor_ended (SendingFlow_Supervise (en_waits en) (en_pend en))"
proof -
  note d = ended_drained [OF assms]
  have "SupTask \<in># mset (tp_finished (sd_pool s))" unfolding d(1) by simp
  moreover have "supervisor_ended v" if "\<And>p t. v \<noteq> SSLoop p t" "v \<noteq> SSReading" for v using that by (cases v) auto
  ultimately show ?thesis using d(2-4) by simp
qed

theorem sender_waits_for_report_witness:
  "\<exists>s. rtranclp (send_step sample_env) (send_start sample_env) s \<and> sd_main s = Ended 0 \<and>
    SupTask \<in> set (tp_finished (sd_pool s)) \<and> supervisor_ended (SendingFlow_Supervise (en_waits sample_env) (en_pend sample_env))"
proof -
  obtain s where s: "rtranclp (send_step sample_env) (send_start sample_env) s" "sd_main s = Ended 0"
    using sender_ignores_verdict by blast
  have "0 \<le> sint (jobs (en_flags sample_env))" using env_jobs by simp
  from sender_waits_for_report [OF s this env_jobs(2)] s show ?thesis by blast
qed

text \<open>So the sender hangs when the header connection fails and no event reaches the supervisor.\<close>

lemma sender_hangs_after_failed_header:
  "\<not> (\<exists>s r. rtranclp (send_step (sample_env\<lparr>en_connected := False, en_waits := []\<rparr>))
      (send_start (sample_env\<lparr>en_connected := False, en_waits := []\<rparr>)) s \<and> sd_main s = Ended r)"
proof -
  let ?en = "sample_env\<lparr>en_connected := False, en_waits := []\<rparr>"
  have jb: "0 \<le> sint (jobs (en_flags ?en))" "sint (jobs (en_flags ?en)) < int_max" by (simp_all add: sample_env_def int_max_def)
  have "SendingFlow_Supervise (en_waits ?en) (en_pend ?en) = SSLoop (\<lambda>_. []) 0" by (simp add: SendingFlow_Supervise_def sample_env_def)
  then show ?thesis using ended_drained(3) [of ?en, OF _ _ jb] by blast
qed

text \<open>(C18) A race in \<open>main\<close>: nothing keeps \<open>Destory\<close> from freeing the arguments of the compressor before a
  worker has read them. For every file that splits into at least one slice there is a schedule in
  which the sender reads freed memory.\<close>

theorem sender_race:
  assumes "SplitFile (en_flags en) (fst (en_file en)) (snd (en_file en)) = Some (Inr (fs, fl))" and "fs \<noteq> []"
    and "SendingFlow_Init zstd_util_start (en_connected en) (en_stale en) (snd (en_file en))
      (of_nat (length fs)) (en_header_rs en) = Done (0, u, out)"
    and "ZSTD_createCCtx (en_zstd en) \<noteq> None" and "1 \<le> sint (jobs (en_flags en))" and "sint (jobs (en_flags en)) < int_max"
  shows "\<exists>s. rtranclp (send_step en) (send_start en) s \<and> sd_main s = Died UseAfterFree"
proof -
  define n where "n = nat (sint (jobs (en_flags en))) - 1"
  have "pool_size (jobs (en_flags en)) = Inr (Suc (nat (sint (jobs (en_flags en)))))"
    by (rule pool_size_jobs) (use assms(5,6) in simp_all)
  then have "pool_size (jobs (en_flags en)) = Inr (Suc (Suc n))" using assms(5) by (simp add: n_def)
  from main_to_Destory [OF assms(1,3) this] obtain p where
    p: "rtranclp (send_step en) (send_start en) \<lparr>sd_main = AtDestory, sd_util = util_init, sd_pool = p,
      sd_slices = fs, sd_header = out, sd_results = (\<lambda>_. None), sd_verdict = None\<rparr>" (is "rtranclp _ _ ?s0")
    "tp_threads p = replicate (Suc (Suc n)) Checking" "tp_tasks p = SupTask # map SendTask [0..<length fs]" "tp_finished p = []"
    by metis
  have ts: "tp_tasks p = SupTask # SendTask 0 # map SendTask [1..<length fs]" using p(3) assms(2) by (simp add: upt_conv_Cons)
  let ?s1 = "?s0\<lparr>sd_main := AtWait 0, sd_util := snd (SendingFlow_Destory util_init)\<rparr>"
  let ?s2 = "?s1\<lparr>sd_pool := worker_check 0 p\<rparr>"
  let ?s3 = "?s2\<lparr>sd_pool := worker_check 1 (worker_check 0 p)\<rparr>"
  have w: "pool_work p (worker_check 0 p)" "pool_work (worker_check 0 p) (worker_check 1 (worker_check 0 p))"
    by (rule pool_work.check; simp add: p(2) ts worker_check_def)+
  have f: "tp_finished (worker_check 0 p) = []" "tp_finished (worker_check 1 (worker_check 0 p)) = []"
    by (simp_all add: worker_check_def p(4))
  have "send_step en ?s0 ?s1" by (rule send_step.main) (simp add: main_step_def)
  moreover have "send_step en ?s1 ?s2" using send_step.work [of ?s1 "worker_check 0 p" en] w(1) f by simp
  moreover have "send_step en ?s2 ?s3" using send_step.work [of ?s2 "worker_check 1 (worker_check 0 p)" en] w(2) f by simp
  moreover have "send_step en ?s3 (?s3\<lparr>sd_main := Died UseAfterFree\<rparr>)"
    by (rule send_step.exec [where t = "SendTask 0"])
      (simp_all add: p(2) ts worker_check_def exec_slice_def unset_args [OF assms(4)] SendingFlow_Destory_def
        ZSTDCompressUtil_Destory_def)
  ultimately have "rtranclp (send_step en) (send_start en) (?s3\<lparr>sd_main := Died UseAfterFree\<rparr>)"
    using p(1) by (meson rtranclp.rtrancl_into_rtrancl)
  then show ?thesis by (rule exI [of _ "?s3\<lparr>sd_main := Died UseAfterFree\<rparr>", OF conjI]) simp
qed

theorem sender_race_witness:
  "\<exists>s. rtranclp (send_step sample_env) (send_start sample_env) s \<and> sd_main s = Died UseAfterFree"
  by (rule sender_race [OF env_split _ env_init]) (use env_jobs in \<open>simp_all add: sample_env_def store_c_def\<close>)

subsection \<open>Generating and verifying\<close>

text \<open>(C21) Generated files verify to known text: run with \<open>gen_file\<close> and then with \<open>verify\<close>, on the same path
  and number of rows, the program prints averages of 20 and 2 for the two columns of strings.\<close>

theorem gen_then_verify:
  assumes "arrow_contract ar" and "\<forall>k. draws_ok (rnd k)" and "0 < sint file_rows" and "sint file_rows \<le> 2147400000"
    and "main_local nan_text ar rnd opened True verify file_rows file_path fs = Generated (Inr fs')" and "length nan_text \<le> 5"
  shows "\<exists>i d. main_local nan_text ar rnd' opened' False True file_rows file_path fs'
    = Verified (Inr (label ''strings1: 20.0000, ints: '' @ i @ label '', doubles: '' @ d @ label '', strings2: 2.0000''))"
proof -
  have "createDataFile ar rnd opened (sint file_rows) file_path fs = Inr fs'" using assms(5) by (simp add: main_local_def)
  from generated_text [OF assms(1-4) this assms(6)] obtain i d where "getValidResult_file nan_text ar fs' file_path (sint file_rows)
    = Inr (label ''strings1: 20.0000, ints: '' @ i @ label '', doubles: '' @ d @ label '', strings2: 2.0000'')" by blast
  then have "main_local nan_text ar rnd' opened' False True file_rows file_path fs'
    = Verified (Inr (label ''strings1: 20.0000, ints: '' @ i @ label '', doubles: '' @ d @ label '', strings2: 2.0000''))"
    by (simp only: main_local_def if_False if_True)
  then show ?thesis by blast
qed

theorem gen_then_verify_witness:
  "\<exists>i d. main_local [] low_arrow low_draws True False True 2 ''a'' ((\<lambda>_. None)(''a'' \<mapsto> [7]))
    = Verified (Inr (label ''strings1: 20.0000, ints: '' @ i @ label '', doubles: '' @ d @ label '', strings2: 2.0000''))"
  by (rule gen_then_verify [where rnd = low_draws and opened = True and verify = False and fs = "\<lambda>_. None", OF low_arrow_contract])
    (simp_all add: low_draws_ok main_local_def low_created)

end
