(* ===== verification/Two_Programs.thy ===== *)
theory Two_Programs
  imports Recv_Main Send_Main
begin

section \<open>Sender and receiver as programs\<close>

text \<open>
  The two programs meet in the connections: what the threads of the sender have got out on theirs is
  what the threads of the receiver can read. Whatever of its message a sending thread got out is a
  prefix of it, so the connections of a sender that has exited carry its transfer, whole or broken
  off, and the receiver is as safe as \<open>Recv_Transfer\<close> says.
\<close>

subsection \<open>What a sending thread gets out\<close>

text \<open>No write of something writes nothing: true of the sockets of Linux. Then a chunk is sent whole, unless
  an error ends the thread.\<close>

lemma write_ref_nonzero:
  "Ok 0 \<notin> set rs \<Longrightarrow> j \<le> length mem \<Longrightarrow>
    (case write_ref mem j s rs of Sent s' sent rs' \<Rightarrow> sent = mem \<and> set rs' \<subseteq> set rs | SendFailed sent \<Rightarrow> prefix sent mem | _ \<Rightarrow> True)"
proof (induction mem j s rs rule: write_ref.induct)
  case (2 mem j s e rs)
  then show ?case by (auto simp: take_is_prefix split: send_result.splits if_splits)
next
  case (3 mem j s n rs)
  define k where "k = min n (length mem - j)"
  have n: "0 < n" using 3(2) by (cases n) auto
  show ?case
  proof (cases "0 < k \<and> j + k < length mem")
    case True
    then show ?thesis using 3(1) [OF k_def] 3(2) unfolding write_ref.simps Let_def k_def [symmetric]
      by (auto split: send_result.splits)
  next
    case False
    then have "j + k = length mem" using n 3(3) by (auto simp: k_def)
    then show ?thesis using False unfolding write_ref.simps Let_def k_def [symmetric] by auto
  qed
qed simp

lemma send_chunks_nonzero:
  "list_all chunk_ok cs \<Longrightarrow> Ok 0 \<notin> set rs \<Longrightarrow>
    (case send_chunks cs s out rs of Sent s' out' rs' \<Rightarrow> out' = out @ concat (map c_mem cs)
     | SendFailed out' \<Rightarrow> prefix out' (out @ concat (map c_mem cs)) | _ \<Rightarrow> True)"
proof (induction cs arbitrary: s out rs)
  case (Cons c cs)
  have w: "write_chunk (c_mem c) (c_size c) 0 s [] rs = write_ref (c_mem c) 0 s rs" using Cons.prems(1) by (simp add: write_chunk_ref)
  note nz = write_ref_nonzero [OF Cons.prems(2) le0, of "c_mem c" s]
  show ?case
  proof (cases "write_ref (c_mem c) 0 s rs")
    case (Sent s1 sent rs1)
    then have "sent = c_mem c" "Ok 0 \<notin> set rs1" using nz Cons.prems(2) by auto
    then show ?thesis using Cons.IH [where rs = rs1 and s = s1 and out = "out @ c_mem c"] Cons.prems(1) Sent w
      by (simp split: send_result.splits)
  next
    case (SendFailed sent)
    then have "prefix sent (c_mem c)" using nz by simp
    then have "prefix (out @ sent) (out @ c_mem c @ concat (map c_mem cs))" by (auto simp: prefix_def)
    then show ?thesis using SendFailed w by simp
  qed (use w in simp_all)
qed simp

lemma SendFileSlice_prefix:
  assumes "list_all (\<lambda>p. length p < 2 ^ 31) ps" and "Ok 0 \<notin> set rs" and "SendFileSlice con (compressed_slice f ps) rs = Done (r, out)"
  shows "prefix out (slice_message f (concat ps))"
proof -
  let ?cs = "fs_compress_buf (compressed_slice f ps)"
  have "case send_chunks ?cs 0 [] rs of Sent s' out' rs' \<Rightarrow> out' = [] @ concat (map c_mem ?cs)
     | SendFailed out' \<Rightarrow> prefix out' ([] @ concat (map c_mem ?cs)) | _ \<Rightarrow> True"
    by (rule send_chunks_nonzero [OF compressed_slice_chunk_ok [OF assms(1)] assms(2)])
  then show ?thesis using assms(3)
    by (auto simp: SendFileSlice_def compressed_slice_chunks(1) split: if_splits send_result.splits)
qed

lemma Run_prefix:
  assumes "compressor_contract z taken given frame" and "Ok 0 \<notin> set rs" and "SendingFlow_Run z u con f rs = Done (Some out)"
    and "fs_compress_buf f = []" and "unat (fs_len f) < 2 ^ 63"
  obtains y where "frame (slice_bytes f) y" and "prefix out (slice_message f y)"
proof -
  obtain g r where g: "Compress z u f = Some (Inr (Some g))" "SendFileSlice con g rs = Done (r, out)"
    using assms(3) by (auto simp: SendingFlow_Run_def split: option.splits sum.splits run.splits)
  from Compress_payloads [OF assms(1) g(1) assms(4,5)] obtain ps where ps: "list_all (\<lambda>p. length p \<le> 2 ^ 30) ps"
    "g = compressed_slice f ps" "frame (slice_bytes f) (concat ps)" by blast
  have "list_all (\<lambda>p. length p < 2 ^ 31) ps" using ps(1) by (auto simp: list_all_iff)
  then show ?thesis using SendFileSlice_prefix [OF _ assms(2)] g(2) ps that by blast
qed

subsection \<open>The connections between the programs\<close>

text \<open>The connections that a run of the sender leaves behind: that of the header, and one for each slice
  whose thread got as far as connecting.\<close>

definition slice_connection :: "'c send_env \<Rightarrow> sender \<Rightarrow> nat \<Rightarrow> byte list option" where
  "slice_connection en ss j =
     (if en_slice_connected en j then (case sd_results ss j of Some r \<Rightarrow> r | None \<Rightarrow> None) else None)"

definition connections :: "'c send_env \<Rightarrow> sender \<Rightarrow> byte list option list" where
  "connections en ss = Some (sd_header ss) # map (slice_connection en ss) [0..<length (sd_slices ss)]"

text \<open>What is asked of the compressed forms: every slice has one, none is empty, and all fit the length
  field of the slice header.\<close>

definition frames_fit :: "(byte list \<Rightarrow> byte list \<Rightarrow> bool) \<Rightarrow> bool" where
  "frames_fit frame \<longleftrightarrow> (\<forall>x. x \<noteq> [] \<and> length x < 2 ^ 31 \<longrightarrow>
     (\<exists>y. frame x y) \<and> (\<forall>y. frame x y \<longrightarrow> y \<noteq> [] \<and> length y < 2 ^ 32))"

lemma conn_carried:
  assumes "plan_ok fl data" and "compressor_contract (en_zstd en) taken given frame" and "frames_fit frame"
    and "j < length (split_slices fl data)" and "Ok 0 \<notin> set (en_slice_rs en j)"
    and "\<forall>out. c = Some out \<longrightarrow> (\<exists>full. slice_run en (split_slices fl data) j = Done (Some full) \<and> prefix out full)"
  shows "\<exists>y. frame (slice_bytes (split_slices fl data ! j)) y \<and> y \<noteq> [] \<and> length y < 2 ^ 32 \<and>
    prefix (cn_pending (fresh_conn c)) (slice_message (split_slices fl data ! j) y)"
proof -
  let ?f = "split_slices fl data ! j"
  note sl = plan_slice_nonempty [OF assms(1,4)]
  have "length (slice_bytes ?f) \<le> unat (fs_len ?f)" by (simp add: slice_bytes_def get_bytes_def)
  then have fit: "\<exists>y. frame (slice_bytes ?f) y" "\<And>y. frame (slice_bytes ?f) y \<Longrightarrow> y \<noteq> [] \<and> length y < 2 ^ 32"
    using assms(3) sl(1,3) by (auto simp: frames_fit_def)
  show ?thesis
  proof (cases c)
    case None
    then show ?thesis using fit by (auto simp: fresh_conn_def)
  next
    case (Some out)
    then obtain full where "slice_run en (split_slices fl data) j = Done (Some full)" and pf: "prefix out full" using assms(6) by auto
    then have "SendingFlow_Run (en_zstd en) util_init (en_slice_connected en j) ?f (en_slice_rs en j) = Done (Some full)"
      by (simp add: slice_run_def)
    then obtain y where "frame (slice_bytes ?f) y" "prefix full (slice_message ?f y)"
      by (rule Run_prefix [OF assms(2,5)]) (use sl(2,3) in simp_all)
    then show ?thesis using fit(2) Some prefix_order.trans [OF pf] by (auto simp: fresh_conn_def)
  qed
qed

text \<open>Connections of which each brings a beginning of what its thread gets out carry the transfer.\<close>

lemma net_carried:
  assumes "plan_ok fl data" and "length (split_slices fl data) \<le> 83 * 256"
    and "compressor_contract (en_zstd en) taken given frame" and "decompressor_contract (re_zstd ren) fed made frame" and "frames_fit frame"
    and "\<forall>j. Ok 0 \<notin> set (en_slice_rs en j)" and "re_opened ren"
    and "length (re_incoming ren) = Suc (length (split_slices fl data))"
    and "re_incoming ren ! 0 = Some (file_header (of_nat (length data)) (of_nat (length (split_slices fl data))))"
    and "\<forall>j < length (split_slices fl data). \<forall>out. re_incoming ren ! Suc j = Some out \<longrightarrow>
      (\<exists>full. slice_run en (split_slices fl data) j = Done (Some full) \<and> prefix out full)"
  obtains ys where "carried_by ren fed made frame fl data ys" and "length ys = length (split_slices fl data)"
proof -
  let ?fs = "split_slices fl data"
  have "\<exists>y. frame (slice_bytes (?fs ! j)) y \<and> y \<noteq> [] \<and> length y < 2 ^ 32 \<and>
      prefix (cn_pending (fresh_conn (re_incoming ren ! Suc j))) (slice_message (?fs ! j) y)" if "j < length ?fs" for j
    using conn_carried [OF assms(1,3,5) that, of "re_incoming ren ! Suc j"] assms(6,10) that by blast
  then obtain ya where ya: "\<And>j. j < length ?fs \<Longrightarrow> frame (slice_bytes (?fs ! j)) (ya j) \<and> ya j \<noteq> [] \<and> length (ya j) < 2 ^ 32 \<and>
      prefix (cn_pending (fresh_conn (re_incoming ren ! Suc j))) (slice_message (?fs ! j) (ya j))"
    by metis
  define ys where "ys = map ya [0..<length ?fs]"
  have "frames_ok frame ?fs ys" using ya by (simp add: frames_ok_def ys_def)
  moreover have "carries ren fl data ys" using assms(8,9) ya by (simp add: carries_def ys_def)
  ultimately have "carried_by ren fed made frame fl data ys" using assms(1,2,4,7) by (simp add: carried_by_def)
  then show ?thesis using that by (simp add: ys_def)
qed

lemma programs_carried:
  assumes "rtranclp (send_step en) (send_start en) ss" and "sd_main ss = Ended 0"
    and "0 \<le> sint (jobs (en_flags en))" and "sint (jobs (en_flags en)) < int_max"
    and "en_file en = (data, of_nat (length data))" and "plan_ok (en_flags en) data" and "length (split_slices (en_flags en) data) \<le> 83 * 256"
    and "compressor_contract (en_zstd en) taken given frame" and "decompressor_contract (re_zstd ren) fed made frame" and "frames_fit frame"
    and "\<forall>j. Ok 0 \<notin> set (en_slice_rs en j)"
    and "sd_header ss = file_header (of_nat (length data)) (of_nat (length (sd_slices ss)))"
    and "re_incoming ren = connections en ss" and "re_opened ren"
  obtains ys where "carried_by ren fed made frame (en_flags en) data ys" and "length ys = length (sd_slices ss)"
proof -
  let ?fs = "split_slices (en_flags en) data"
  note ex = exit_0_facts [OF assms(1-4)]
  have sl: "sd_slices ss = ?fs" using ex assms(5) by (auto simp: split_slices_def)
  have "\<exists>full. slice_run en ?fs j = Done (Some full) \<and> prefix out full" if "j < length ?fs" "slice_connection en ss j = Some out" for j out
    using ex sl that by (fastforce simp: slice_connection_def split: if_splits option.splits)
  then have "\<forall>j < length ?fs. \<forall>out. re_incoming ren ! Suc j = Some out \<longrightarrow> (\<exists>full. slice_run en ?fs j = Done (Some full) \<and> prefix out full)"
    using assms(13) sl by (simp add: connections_def)
  moreover have "length (re_incoming ren) = Suc (length ?fs)" "re_incoming ren ! 0 = Some (file_header (of_nat (length data)) (of_nat (length ?fs)))"
    using assms(12,13) sl by (simp_all add: connections_def)
  ultimately obtain ys where "carried_by ren fed made frame (en_flags en) data ys" "length ys = length ?fs"
    using net_carried [OF assms(6-11,14)] by metis
  then show ?thesis using that sl by simp
qed

subsection \<open>Both programs\<close>

text \<open>What a transfer rests on: the sender's file and a sound plan for it, in which slices can be told from
  the header; what libzstd documents; sockets on which no write of something writes nothing; and an
  output file that can be opened.\<close>

definition transfer_ok ::
    "'c send_env \<Rightarrow> 'd recv_env \<Rightarrow> ('c \<Rightarrow> byte list) \<Rightarrow> ('c \<Rightarrow> byte list) \<Rightarrow> ('d \<Rightarrow> byte list) \<Rightarrow> ('d \<Rightarrow> byte list) \<Rightarrow>
     (byte list \<Rightarrow> byte list \<Rightarrow> bool) \<Rightarrow> byte list \<Rightarrow> bool" where
  "transfer_ok en ren taken given fed made frame data \<longleftrightarrow>
     en_fs en (en_path en) = Some data \<and> plan_ok (en_flags en) data \<and> length (split_slices (en_flags en) data) \<le> 83 * 256 \<and>
     compressor_contract (en_zstd en) taken given frame \<and> decompressor_contract (re_zstd ren) fed made frame \<and> frames_fit frame \<and>
     (\<forall>j. Ok 0 \<notin> set (en_slice_rs en j)) \<and> re_opened ren \<and>
     0 \<le> sint (jobs (en_flags en)) \<and> sint (jobs (en_flags en)) < int_max \<and>
     0 \<le> sint (re_jobs ren) \<and> sint (re_jobs ren) < int_max"

text \<open>The programs have run: the sender has exited with 0, with the header out whole, and the receiver is
  somewhere in its run on the connections the sender made.\<close>

definition programs_run :: "'c send_env \<Rightarrow> 'd recv_env \<Rightarrow> sender \<Rightarrow> receiver \<Rightarrow> bool" where
  "programs_run en ren ss rs \<longleftrightarrow>
     rtranclp (send_step en) (send_start en) ss \<and> sd_main ss = Ended 0 \<and>
     sd_header ss = file_header (snd (en_file en)) (of_nat (length (sd_slices ss))) \<and>
     re_incoming ren = connections en ss \<and> rtranclp (recv_step ren) (recv_init ren) rs"

lemma file_read:
  assumes "en_fs en (en_path en) = Some data" and "plan_ok fl data"
  shows "en_file en = (data, of_nat (length data))"
proof -
  have "data \<noteq> []" using assms(2) by (auto simp: plan_ok_def elim: split_okE)
  then show ?thesis using assms(1) by (simp add: en_file_def ReadArrowFile_def)
qed

lemma run_carried:
  assumes "transfer_ok en ren taken given fed made frame data" and "programs_run en ren ss rs"
  obtains ys where "carried_by ren fed made frame (en_flags en) data ys" and "length ys = length (sd_slices ss)"
proof -
  have f: "en_file en = (data, of_nat (length data))" using assms(1) file_read by (auto simp: transfer_ok_def)
  obtain ys where "carried_by ren fed made frame (en_flags en) data ys" "length ys = length (sd_slices ss)"
    by (rule programs_carried [of en ss data taken given frame ren fed made]) (use assms f in \<open>simp_all add: transfer_ok_def programs_run_def\<close>)
  then show ?thesis by (rule that)
qed

lemma run_reported:
  assumes "transfer_ok en ren taken given fed made frame data" and "programs_run en ren ss rs"
    and "rv_report rs \<noteq> []" and "well_run rs"
  shows "sv_start (rv_server rs) = Mapped data" and "report_on ren data (rv_report rs)"
proof -
  obtain ys where c: "carried_by ren fed made frame (en_flags en) data ys" by (rule run_carried [OF assms(1,2)])
  have r: "rtranclp (recv_step ren) (recv_init ren) rs" "0 \<le> sint (re_jobs ren)" "sint (re_jobs ren) < int_max"
    using assms(1,2) by (simp_all add: transfer_ok_def programs_run_def)
  show "sv_start (rv_server rs) = Mapped data" "report_on ren data (rv_report rs)"
    using report_of_transfer [OF c r assms(3,4)] by simp_all
qed

text \<open>The validation depends on nothing but the bytes of the file.\<close>

lemma validation_same: "fs path = fs' path' \<Longrightarrow> getValidResult_file nan_text ar fs path rows = getValidResult_file nan_text ar fs' path' rows"
  by (simp only: getValidResult_file_def readDataFromFile_def)

text \<open>What has to be so for a verdict: the receiver's reading of the sender's file is in order and the sums of
  its validation do not overflow; the report is taken, and is delivered to the sender's supervisor in one
  batch, before any of its waits has failed.\<close>

definition verdict_ok :: "'c send_env \<Rightarrow> int \<Rightarrow> 'd recv_env \<Rightarrow> bool" where
  "verdict_ok en fd ren \<longleftrightarrow>
     (\<exists>cv. readDataFromFile (re_arrow ren) (en_fs en) (en_path en) (sint (re_rows ren)) = Inr cv \<and>
        sum_list (map (\<lambda>v. \<bar>sint v\<bar>) (samples (intVal cv) (sint (re_rows ren)))) < 2 ^ 31) \<and>
     sint (re_rows ren) \<le> 2147400000 \<and> length (re_nan ren) \<le> 5 \<and> list_all ((<) 0) (re_ws ren) \<and> 407 \<le> length (re_ws ren) \<and>
     one_batch 406 fd (en_waits en)"

lemma verdict_text:
  assumes rd: "readDataFromFile (re_arrow ren) (en_fs en) (en_path en) (sint (re_rows ren)) = Inr cv"
    and rows: "sint (re_rows ren) \<le> 2147400000" and nan: "length (re_nan ren) \<le> 5"
    and sm: "sum_list (map (\<lambda>v. \<bar>sint v\<bar>) (samples (intVal cv) (sint (re_rows ren)))) < 2 ^ 31"
  obtains msg where "getValidResult_file (re_nan ren) (re_arrow ren) (en_fs en) (en_path en) (sint (re_rows ren)) = Inr msg"
    and "contains strings2 msg" and "length msg \<le> 404"
proof -
  have cv: "cols_ok cv" "cv_total cv = sint (re_rows ren)" using readDataFromFile_ok [OF rd] by simp_all
  have t: "cv_total cv \<le> 2147400000" "sum_list (map (\<lambda>v. \<bar>sint v\<bar>) (samples (intVal cv) (cv_total cv))) < 2 ^ 31"
    using rows sm by (simp_all only: cv(2))
  obtain a b where "getValidResult (re_nan ren) cv = Inr (a @ label ''strings2: '' @ b)"
    by (rule valid_length [OF cv(1) t(1) nan t(2)])
  then obtain msg where v: "getValidResult_file (re_nan ren) (re_arrow ren) (en_fs en) (en_path en) (sint (re_rows ren)) = Inr msg"
    using rd by (auto simp: getValidResult_file_def)
  with validated_text [OF rd rows nan sm v] that show ?thesis by simp
qed

text \<open>A report on the sender's file, once it gets to the sender's supervisor.\<close>

lemma report_read:
  assumes rep: "report_on ren data (pend fd)" and fs: "en_fs en (en_path en) = Some data"
    and rd: "readDataFromFile (re_arrow ren) (en_fs en) (en_path en) (sint (re_rows ren)) = Inr cv"
    and rows: "sint (re_rows ren) \<le> 2147400000" and nan: "length (re_nan ren) \<le> 5"
    and sm: "sum_list (map (\<lambda>v. \<bar>sint v\<bar>) (samples (intVal cv) (sint (re_rows ren)))) < 2 ^ 31"
    and ws: "list_all ((<) 0) (re_ws ren)" "407 \<le> length (re_ws ren)" and wt: "one_batch 406 fd waits"
  shows "\<exists>msg. SendingFlow_Supervise waits pend = SSReturn 0 (Some msg) 1 \<and>
    getValidResult_file (re_nan ren) (re_arrow ren) (en_fs en) (en_path en) (sint (re_rows ren)) = Inr msg"
proof -
  obtain msg where v: "getValidResult_file (re_nan ren) (re_arrow ren) (en_fs en) (en_path en) (sint (re_rows ren)) = Inr msg"
    and m: "contains strings2 msg" "length msg \<le> 404" by (rule verdict_text [OF rd rows nan sm])
  have "((re_fs ren)(re_path ren \<mapsto> data)) (re_path ren) = en_fs en (en_path en)" using fs by simp
  from validation_same [where fs = "(re_fs ren)(re_path ren \<mapsto> data)" and path = "re_path ren" and fs' = "en_fs en" and path' = "en_path en", OF this] v
  have "getValidResult_file (re_nan ren) (re_arrow ren) ((re_fs ren)(re_path ren \<mapsto> data)) (re_path ren) (sint (re_rows ren)) = Inr msg" by simp
  then obtain futures bufs r where c: "collect futures = Inr 0"
    and sup: "Server_Supervise True futures msg bufs (Mapped data) (re_ws ren) = Done (r, pend fd)"
    using rep unfolding report_on_def by auto
  have "SendingFlow_Supervise waits pend = SSReturn 0 (Some msg) 1"
    by (rule report_verdict [where pend = pend and fd = fd, OF c ws(1) _ m(1) _ sup wt]) (use ws(2) m(2) in simp_all)
  then show ?thesis using v by blast
qed

lemma run_verdict:
  assumes ok: "transfer_ok en ren taken given fed made frame data" and run: "programs_run en ren ss rs"
    and rep: "rv_report rs \<noteq> []" "well_run rs"
    and rd: "readDataFromFile (re_arrow ren) (en_fs en) (en_path en) (sint (re_rows ren)) = Inr cv"
    and rows: "sint (re_rows ren) \<le> 2147400000" and nan: "length (re_nan ren) \<le> 5"
    and sm: "sum_list (map (\<lambda>v. \<bar>sint v\<bar>) (samples (intVal cv) (sint (re_rows ren)))) < 2 ^ 31"
    and ws: "list_all ((<) 0) (re_ws ren)" "407 \<le> length (re_ws ren)"
    and wt: "one_batch 406 fd (en_waits en)" and pend: "en_pend en fd = rv_report rs"
  shows "\<exists>msg. sd_verdict ss = Some (SSReturn 0 (Some msg) 1) \<and>
    getValidResult_file (re_nan ren) (re_arrow ren) (en_fs en) (en_path en) (sint (re_rows ren)) = Inr msg"
proof -
  have "en_fs en (en_path en) = Some data" using ok by (simp add: transfer_ok_def)
  moreover have "report_on ren data (en_pend en fd)" using run_reported(2) [OF ok run rep] pend by simp
  moreover have "sd_verdict ss = Some (SendingFlow_Supervise (en_waits en) (en_pend en))"
    by (rule ended_drained(2)) (use ok run in \<open>auto simp: transfer_ok_def programs_run_def\<close>)
  ultimately show ?thesis using report_read [OF _ _ rd rows nan sm ws wt, of data "en_pend en"] by auto
qed

subsection \<open>A sample run of both programs\<close>

text \<open>The sender of \<open>Send_Main\<close>, whose supervisor gets \<open>report\<close>, and a receiver on its connections.\<close>

definition pair_send :: "byte list \<Rightarrow> (byte list \<times> byte list) send_env" where
  "pair_send report = sample_env\<lparr>en_waits := [WaitOk [EvAccept [(5, True), (-1, True)]], WaitOk [EvRead 5 (map Ok [500] @ [Err EAGAIN])]],
     en_pend := (\<lambda>_. [])(5 := report)\<rparr>"

definition pair_recv :: "sender \<Rightarrow> byte list recv_env" where
  "pair_recv ss = sample_recv\<lparr>re_incoming := connections sample_env ss\<rparr>"

lemma pair_same: "en_file (pair_send report) = ([1, 2, 3], 3)" "slice_run (pair_send report) = slice_run sample_env"
  "connections (pair_send report) = connections sample_env"
  using env_file by (simp_all add: pair_send_def en_file_def slice_run_def connections_def slice_connection_def fun_eq_iff)

lemma pair_plan:
  "split_slices (en_flags (pair_send report)) [1, 2, 3] = [FileSlice [1, 2, 3] 0 3 3]"
  "plan_ok (en_flags (pair_send report)) [1, 2, 3]"
proof -
  have e: "en_flags (pair_send report) = en_flags sample_env" by (simp add: pair_send_def)
  show sl: "split_slices (en_flags (pair_send report)) [1, 2, 3] = [FileSlice [1, 2, 3] 0 3 3]"
    using env_split unfolding e env_file by (simp add: split_slices_def)
  have "split_ok (en_flags sample_env, [1, 2, 3])"
    by (simp add: split_ok_def split_flags_def int_max_def sample_env_def)
  then show "plan_ok (en_flags (pair_send report)) [1, 2, 3]"
    using sl unfolding e by (simp add: plan_ok_def FileSlice_def)
qed

lemma pair_ok: "transfer_ok (pair_send report) (pair_recv ss) (\<lambda>(g, b). g @ b) fst id id (=) [1, 2, 3]"
proof -
  have "compressor_contract (en_zstd (pair_send report)) (\<lambda>(g, b). g @ b) fst (=)" using store_c_contract by (simp add: pair_send_def sample_env_def)
  moreover have "decompressor_contract (re_zstd (pair_recv ss)) id id (=)" using store_d_contract by (simp add: pair_recv_def sample_recv_def)
  moreover have "frames_fit (=)" by (simp add: frames_fit_def)
  moreover have "0 \<le> sint (re_jobs (pair_recv ss))" "sint (re_jobs (pair_recv ss)) < int_max"
    using sample_jobs by (simp_all add: pair_recv_def)
  moreover have "length (split_slices (en_flags (pair_send report)) [1, 2, 3]) \<le> 83 * 256" by (simp add: pair_plan)
  moreover have "0 \<le> sint (jobs (en_flags (pair_send report)))" "sint (jobs (en_flags (pair_send report))) < int_max"
    "en_fs (pair_send report) (en_path (pair_send report)) = Some [1, 2, 3]" "\<forall>j. Ok 0 \<notin> set (en_slice_rs (pair_send report) j)"
    "re_opened (pair_recv ss)"
    by (simp_all add: pair_send_def sample_env_def pair_recv_def sample_recv_def int_max_def)
  ultimately show ?thesis unfolding transfer_ok_def using pair_plan(2) by blast
qed

lemma pair_run:
  obtains ss rs msg where "programs_run (pair_send ([69, 0] @ msg)) (pair_recv ss) ss rs" and "rv_report rs = [69, 0] @ msg" and "well_run rs"
proof -
  obtain msg where m: "getValidResult_file [] low_arrow [''f'' \<mapsto> [1, 2, 3]] ''f'' 2 = Inr msg" "contains strings2 msg" "length msg \<le> 404"
    by (rule sample_valid [of "[''f'' \<mapsto> [1, 2, 3]]" "''f''"]) simp_all
  let ?en = "pair_send ([69, 0] @ msg)" and ?f = "FileSlice [1, 2, 3] 0 3 3"
  have sp: "SplitFile (en_flags ?en) (fst (en_file ?en)) (snd (en_file ?en)) = Some (Inr ([?f], \<lparr>segment_size = 3, jobs = 1\<rparr>))"
    using env_split by (simp add: pair_same env_file) (simp add: pair_send_def)
  have "SendingFlow_Init zstd_util_start (en_connected sample_env) (en_stale sample_env) 3 (of_nat (length [?f])) (en_header_rs sample_env)
    = Done (0, util_init, [83, 51, 35, 49])" using env_init by (simp add: env_file)
  then have ini: "SendingFlow_Init zstd_util_start (en_connected ?en) (en_stale ?en) (snd (en_file ?en)) (of_nat (length [?f])) (en_header_rs ?en)
    = Done (0, util_init, [83, 51, 35, 49])" by (simp add: pair_same) (simp add: pair_send_def)
  have sup: "SendingFlow_Supervise (en_waits ?en) (en_pend ?en) = SSReturn 0 (Some msg) 1"
  proof -
    have "SendingFlow_Supervise [WaitOk [EvAccept [(5, True), (-1, True)]], WaitOk [EvRead 5 (map Ok [500] @ [Err EAGAIN])]]
      ((\<lambda>_. [])(5 := [69, 0] @ msg)) = SSReturn 0 (Some msg) 1"
      by (rule report_found) (use m in simp_all)
    then show ?thesis by (simp add: pair_send_def)
  qed
  have jb: "0 \<le> sint (jobs (en_flags ?en))" "sint (jobs (en_flags ?en)) < int_max" by (simp_all add: pair_send_def sample_env_def int_max_def)
  have "\<forall>j < length [?f]. \<exists>out. slice_run ?en [?f] j = Done out" using env_slice_run by (simp add: pair_same)
  from sender_run [OF sp ini this sup jb] obtain ss where
    ss: "rtranclp (send_step ?en) (send_start ?en) ss" "sd_main ss = Ended 0" "sd_slices ss = [?f]" by auto
  note ex = exit_0_facts [OF ss(1,2) jb]
  have hd: "sd_header ss = [83, 51, 35, 49]" using ex ini ss(3) by simp
  have fh: "file_header 3 1 = [83, 51, 35, 49]" by (simp add: file_header_def ascii_S_def ascii_hash_def print_nat.simps)
  have res: "sd_results ss 0 = Some (Some (slice_message ?f [1, 2, 3]))" using ex ss(3) env_slice_sent by (auto simp: pair_same)
  have cn: "connections ?en ss = [Some (file_header 3 1), Some (slice_message ?f [1, 2, 3])]"
    using hd fh res ss(3) by (simp add: connections_def slice_connection_def pair_send_def sample_env_def)
  have run: "programs_run ?en (pair_recv ss) ss (recv_init (pair_recv ss))"
    using ss hd fh by (simp add: programs_run_def pair_same) (simp add: pair_recv_def)
  obtain ys where cb: "carried_by (pair_recv ss) id id (=) (en_flags ?en) [1, 2, 3] ys" "length ys = length (sd_slices ss)"
    by (rule run_carried [OF pair_ok run])
  have "ys ! 0 = slice_bytes ?f" "length ys = 1" using cb pair_plan(1) [of "[69, 0] @ msg"] by (auto simp: carried_by_def frames_ok_def ss(3))
  then have ys: "ys = [[1, 2, 3]]" by (cases ys) (simp_all add: slice_bytes_def FileSlice_def GetBuf_def get_bytes_def)
  have inc: "re_incoming (pair_recv ss) = connections ?en ss" by (simp add: pair_recv_def pair_same)
  have cp: "complete (pair_recv ss) (en_flags ?en) [1, 2, 3] ys"
    unfolding complete_def pair_plan inc cn ys by (simp add: file_header_def print_nat.simps)
  have "\<exists>s. rtranclp (recv_step (pair_recv ss)) (recv_init (pair_recv ss)) s \<and> rv_report s = [69, 0] @ msg \<and> rv_exit s = Some (RDied BadFree) \<and>
    well_run s \<and> (\<forall>k \<le> length ys. cn_result (rv_conns s ! k) = Some (Returned 0)) \<and> sv_start (rv_server s) = Mapped [1, 2, 3]"
    by (rule receiver_run [OF cb(1) cp]) (use m sample_jobs in \<open>simp_all add: pair_recv_def, simp_all add: sample_recv_def list_all_iff\<close>)
  then obtain rs where rs: "rtranclp (recv_step (pair_recv ss)) (recv_init (pair_recv ss)) rs" "rv_report rs = [69, 0] @ msg" "well_run rs" by blast
  have "programs_run ?en (pair_recv ss) ss rs" using run rs(1) by (simp add: programs_run_def)
  then show ?thesis using that rs(2,3) by blast
qed

end
