(* ===== verification/Whole_System.thy ===== *)
theory Whole_System
  imports Two_Programs
begin

section \<open>Both programs at the same time\<close>

text \<open>
  The threads of both programs, interleaved in one system. A connection appears when the thread of the
  sender that makes it has done its part; the receiver can accept it from then on. What the receiver's
  supervisor has written is what the sender's supervisor can read. The system is shown to be made of a
  run of the sender and a run of the receiver on the connections there are, so that what holds of each
  program holds of the system, at any time.
\<close>

subsection \<open>The system\<close>

text \<open>The connections so far: \<open>None\<close> for those that have not been made.\<close>

record system =
  sy_sender :: sender
  sy_net :: "byte list option list"
  sy_receiver :: receiver

definition with_report :: "'c send_env \<Rightarrow> int \<Rightarrow> byte list \<Rightarrow> 'c send_env" where
  "with_report en fd out = en\<lparr>en_pend := (\<lambda>_. [])(fd := out)\<rparr>"

definition with_net :: "'d recv_env \<Rightarrow> byte list option list \<Rightarrow> 'd recv_env" where
  "with_net ren net = ren\<lparr>re_incoming := net\<rparr>"

fun header_out :: "main_at \<Rightarrow> bool" where
  "header_out AtSplit = False"
| "header_out AtInit = False"
| "header_out (Died _) = False"
| "header_out _ = True"

definition offered :: "'c send_env \<Rightarrow> sender \<Rightarrow> nat \<Rightarrow> byte list option" where
  "offered en ss k =
     (if header_out (sd_main ss)
      then (case k of 0 \<Rightarrow> if en_connected en then Some (sd_header ss) else None | Suc j \<Rightarrow> slice_connection en ss j)
      else None)"

definition net_grow :: "'c send_env \<Rightarrow> sender \<Rightarrow> byte list option list \<Rightarrow> byte list option list" where
  "net_grow en ss net = map (\<lambda>k. case net ! k of None \<Rightarrow> offered en ss k | Some out \<Rightarrow> Some out) [0..<length net]"

text \<open>New connections reach the receiver.\<close>

definition deliver :: "byte list option list \<Rightarrow> byte list option list \<Rightarrow> receiver \<Rightarrow> receiver" where
  "deliver net net' rs =
     rs\<lparr>rv_conns := map (\<lambda>k. if net ! k = None then fresh_conn (net' ! k) else rv_conns rs ! k) [0..<length (rv_conns rs)]\<rparr>"

text \<open>The sender's supervisor gets through its events only when there is a report, or when it reads nothing
  at all, as when a system call fails.\<close>

fun reads_none :: "wait_result list \<Rightarrow> bool" where
  "reads_none [] = True"
| "reads_none (WaitErr # ws) = True"
| "reads_none (WaitOk evs # ws) \<longleftrightarrow> (\<forall>ev \<in> set evs. case ev of EvRead _ _ \<Rightarrow> False | _ \<Rightarrow> True) \<and> reads_none ws"

definition system_start :: "'c send_env \<Rightarrow> 'd recv_env \<Rightarrow> system" where
  "system_start en ren =
     (let net = replicate (Suc (length (split_slices (en_flags en) (fst (en_file en))))) None
      in \<lparr>sy_sender = send_start en, sy_net = net, sy_receiver = recv_init (with_net ren net)\<rparr>)"

definition system_net :: "byte list option list \<Rightarrow> system \<Rightarrow> system" where
  "system_net net s = s\<lparr>sy_net := net, sy_receiver := deliver (sy_net s) net (sy_receiver s)\<rparr>"

text \<open>A step of the sender, with the connections it makes; what a thread of a sender that died leaves on its
  connection; a step of the receiver.\<close>

inductive system_step :: "'c send_env \<Rightarrow> int \<Rightarrow> 'd recv_env \<Rightarrow> system \<Rightarrow> system \<Rightarrow> bool" for en fd ren where
  sends: "send_step (with_report en fd (rv_report (sy_receiver s))) (sy_sender s) ss \<Longrightarrow>
    sd_verdict ss = sd_verdict (sy_sender s) \<or> rv_report (sy_receiver s) \<noteq> [] \<or> reads_none (en_waits en) \<Longrightarrow>
    system_step en fd ren s (system_net (net_grow en ss (sy_net s)) (s\<lparr>sy_sender := ss\<rparr>))"
| breaks: "sd_main (sy_sender s) = Died e \<Longrightarrow> Busy (SendTask j) \<in> set (tp_threads (sd_pool (sy_sender s))) \<Longrightarrow>
    Suc j < length (sy_net s) \<Longrightarrow> sy_net s ! Suc j = None \<Longrightarrow> slice_run en (split_slices (en_flags en) (fst (en_file en))) j = Done (Some full) \<Longrightarrow>
    prefix out full \<Longrightarrow> system_step en fd ren s (system_net ((sy_net s)[Suc j := Some out]) s)"
| receives: "recv_step (with_net ren (sy_net s)) (sy_receiver s) rs \<Longrightarrow> system_step en fd ren s (s\<lparr>sy_receiver := rs\<rparr>)"

subsection \<open>The receiver in the system\<close>

definition net_le :: "byte list option list \<Rightarrow> byte list option list \<Rightarrow> bool" where
  "net_le net net' \<longleftrightarrow> length net' = length net \<and> (\<forall>k < length net. net ! k \<noteq> None \<longrightarrow> net' ! k = net ! k)"

lemma net_grow_nth:
  "k < length net \<Longrightarrow> net_grow en ss net ! k = (case net ! k of None \<Rightarrow> offered en ss k | Some out \<Rightarrow> Some out)"
  by (cases "net ! k") (simp_all add: net_grow_def)

lemma net_grow_le: "net_le net (net_grow en ss net)"
  by (auto simp: net_le_def net_grow_def)

lemma with_net_fields:
  "re_incoming (with_net ren net) = net" "re_zstd (with_net ren net) = re_zstd ren" "re_jobs (with_net ren net) = re_jobs ren"
  "re_opened (with_net ren net) = re_opened ren" "re_connected (with_net ren net) = re_connected ren" "re_ws (with_net ren net) = re_ws ren"
  "re_nan (with_net ren net) = re_nan ren" "re_arrow (with_net ren net) = re_arrow ren" "re_fs (with_net ren net) = re_fs ren"
  "re_path (with_net ren net) = re_path ren" "re_rows (with_net ren net) = re_rows ren"
  "recv_map (with_net ren net) = recv_map ren" "recv_validate (with_net ren net) = recv_validate ren"
proof -
  have f: "recv_files (with_net ren net) sv = recv_files ren sv" for sv
    by (cases "sv_start sv") (simp_all add: with_net_def recv_files_def)
  show "recv_validate (with_net ren net) = recv_validate ren"
    by (rule ext) (simp only: recv_validate_def f, simp add: with_net_def)
qed (simp_all add: with_net_def recv_map_def fun_eq_iff)

lemma deliver_fields:
  "rv_exit (deliver net net' s) = rv_exit s" "rv_main (deliver net net' s) = rv_main s" "rv_pool (deliver net net' s) = rv_pool s"
  "rv_server (deliver net net' s) = rv_server s" "rv_res (deliver net net' s) = rv_res s" "rv_sup (deliver net net' s) = rv_sup s"
  "rv_report (deliver net net' s) = rv_report s" "length (rv_conns (deliver net net' s)) = length (rv_conns s)"
  by (simp_all add: deliver_def)

lemma deliver_conn:
  "k < length (rv_conns s) \<Longrightarrow> net ! k \<noteq> None \<Longrightarrow> rv_conns (deliver net net' s) ! k = rv_conns s ! k"
  by (auto simp: deliver_def)

lemma deliver_update:
  "deliver net net' (s\<lparr>rv_exit := e\<rparr>) = (deliver net net' s)\<lparr>rv_exit := e\<rparr>"
  "deliver net net' (s\<lparr>rv_main := m\<rparr>) = (deliver net net' s)\<lparr>rv_main := m\<rparr>"
  "deliver net net' (s\<lparr>rv_pool := p\<rparr>) = (deliver net net' s)\<lparr>rv_pool := p\<rparr>"
  "deliver net net' (s\<lparr>rv_server := sv\<rparr>) = (deliver net net' s)\<lparr>rv_server := sv\<rparr>"
  "deliver net net' (s\<lparr>rv_res := rs\<rparr>) = (deliver net net' s)\<lparr>rv_res := rs\<rparr>"
  "deliver net net' (s\<lparr>rv_sup := r\<rparr>) = (deliver net net' s)\<lparr>rv_sup := r\<rparr>"
  "deliver net net' (s\<lparr>rv_report := out\<rparr>) = (deliver net net' s)\<lparr>rv_report := out\<rparr>"
  by (simp_all add: deliver_def)

lemma deliver_update_conn:
  assumes "k < length (rv_conns s)" and "net ! k \<noteq> None"
  shows "deliver net net' (s\<lparr>rv_conns := (rv_conns s)[k := c]\<rparr>)
    = (deliver net net' s)\<lparr>rv_conns := (rv_conns (deliver net net' s))[k := c]\<rparr>"
proof -
  have "map (\<lambda>i. if net ! i = None then fresh_conn (net' ! i) else (rv_conns s)[k := c] ! i) [0..<length (rv_conns s)]
      = (map (\<lambda>i. if net ! i = None then fresh_conn (net' ! i) else rv_conns s ! i) [0..<length (rv_conns s)])[k := c]" (is "?l = ?r")
  proof (rule nth_equalityI)
    fix i assume "i < length ?l"
    then show "?l ! i = ?r ! i" using assms by (cases "i = k") auto
  qed simp
  then show ?thesis by (simp add: deliver_def cong: if_cong)
qed

lemma deliver_init:
  assumes "net_le net net'" and "pool_size (re_jobs ren) = Inr n"
  shows "deliver net net' (recv_init (with_net ren net)) = recv_init (with_net ren net')"
  using assms by (auto simp: deliver_def recv_init_def with_net_fields net_le_def Let_def intro!: nth_equalityI)

text \<open>Accepted connections have been made, and a step touches no others.\<close>

lemma accepted_made:
  assumes "recv_base (with_net ren net) s" and "k \<in> set (rv_res s)"
  shows "k < length (rv_conns s)" and "net ! k \<noteq> None" and "k < length net"
  using assms by (auto simp: recv_base_def with_net_fields)

lemma deliver_sup:
  assumes "recv_inv (with_net ren net) s" and "sup_next (with_net ren net) (rv_sup s) s = Some s'"
  shows "sup_next (with_net ren net') (rv_sup s) (deliver net net' s) = Some (deliver net net' s')"
proof (cases "rv_sup s")
  case (SupWait pc)
  then show ?thesis using assms(2) by (cases pc) (auto simp: with_net_fields deliver_fields deliver_update)
next
  case (SupGet j n)
  have b: "recv_base (with_net ren net) s" using assms(1) by (simp add: recv_inv_def)
  have n: "n \<le> length (rv_res s)" using assms(1) SupGet by (simp add: recv_inv_def got_inv_def)
  have c: "rv_conns (deliver net net' s) ! k = rv_conns s ! k" if "k \<in> set (rv_res s)" for k
    by (rule deliver_conn) (use accepted_made [OF b that] in simp_all)
  show ?thesis
  proof (cases "j < n")
    case True
    then have "rv_res s ! j \<in> set (rv_res s)" using n by simp
    then show ?thesis using assms(2) SupGet True c [of "rv_res s ! j"]
      by (auto simp: deliver_fields deliver_update split: option.splits handler_result.splits)
  next
    case False
    have f: "map (\<lambda>k. the (cn_result (rv_conns (deliver net net' s) ! k))) (take n (rv_res s))
        = map (\<lambda>k. the (cn_result (rv_conns s ! k))) (take n (rv_res s))"
      by (rule map_cong [OF refl]) (drule in_set_takeD, simp add: c)
    have m: "sup_report (with_net ren net') n (deliver net net' s) = map_option (deliver net net') (sup_report (with_net ren net) n s)"
      unfolding sup_report_def with_net_fields deliver_fields f
      by (simp add: sup_end_def deliver_update split: sum.split run.split sup_result.split)
    show ?thesis using assms(2) SupGet False m by simp
  qed
qed (use assms(2) in simp)

lemma deliver_done:
  assumes "recv_base (with_net ren net) s" and "pool_work (rv_pool s) p" and "list_all (task_done s) (tp_finished p)"
  shows "list_all (task_done (deliver net net' s)) (tp_finished p)"
proof -
  have p: "pool_inv (rv_pool s)" "tp_enqueued (rv_pool s) = TSupervise # map (\<lambda>k. TRecv (int k)) (rv_res s)"
    using assms(1) by (simp_all add: recv_base_def)
  have "task_done (deliver net net' s) t" if t: "t \<in> set (tp_finished p)" for t
  proof (cases t)
    case TSupervise
    then show ?thesis using assms(3) t by (auto simp: list_all_iff deliver_fields)
  next
    case (TRecv k)
    have "t \<in> set (tp_enqueued p)" using finished_enqueued [OF pool_work_inv [OF assms(2) p(1)]] t by blast
    then obtain i where i: "k = int i" "i \<in> set (rv_res s)" using p(2) work_keeps [OF assms(2)] TRecv by auto
    have "rv_conns (deliver net net' s) ! i = rv_conns s ! i"
      by (rule deliver_conn) (use accepted_made [OF assms(1) i(2)] in simp_all)
    then show ?thesis using assms(3) t TRecv i(1) by (auto simp: list_all_iff)
  qed
  then show ?thesis by (simp add: list_all_iff)
qed

lemma deliver_step:
  assumes inv: "recv_inv (with_net ren net) s" and le: "net_le net net'" and st: "recv_step (with_net ren net) s s'"
  shows "recv_step (with_net ren net') (deliver net net' s) (deliver net net' s')"
proof -
  have b: "recv_base (with_net ren net) s" using inv by (simp add: recv_inv_def)
  have busy: "k < length (rv_conns s)" "net ! k \<noteq> None" if "Busy (TRecv (int k)) \<in> set (tp_threads (rv_pool s))" for k
    using accepted_made [OF b busy_accepted(1) [OF b that]] by simp_all
  show ?thesis using st
  proof cases
    case (accept k)
    have k: "k < length net" "net ! k \<noteq> None" using accept by (simp_all add: with_net_fields)
    then have "k < length net'" "net' ! k \<noteq> None" using le by (auto simp: net_le_def)
    then show ?thesis unfolding accept(1) deliver_update
      using recv_step.accept [where en = "with_net ren net'" and s = "deliver net net' s" and k = k] accept
      by (simp add: deliver_fields with_net_fields)
  next
    case count
    then show ?thesis using recv_step.count [where en = "with_net ren net'" and s = "deliver net net' s"]
      by (simp add: deliver_fields deliver_update)
  next
    case notify
    then show ?thesis using recv_step.notify [where en = "with_net ren net'" and s = "deliver net net' s"]
      by (simp add: deliver_fields deliver_update)
  next
    case fail
    then show ?thesis using recv_step.fail [where en = "with_net ren net'" and s = "deliver net net' s"]
      by (simp add: deliver_fields deliver_update)
  next
    case (round k w sv c)
    note k = busy [OF round(3)]
    have "deliver net net' s' = (deliver net net' s)\<lparr>rv_server := sv, rv_conns := (rv_conns (deliver net net' s))[k := c]\<rparr>"
      using deliver_update_conn [of k "s\<lparr>rv_server := sv\<rparr>" net net' c] k round(1) by (simp add: deliver_update)
    moreover have "recv_step (with_net ren net') (deliver net net' s)
        ((deliver net net' s)\<lparr>rv_server := sv, rv_conns := (rv_conns (deliver net net' s))[k := c]\<rparr>)"
      by (rule recv_step.round [where w = w]) (use round k in \<open>simp_all add: deliver_fields with_net_fields deliver_conn\<close>)
    ultimately show ?thesis by simp
  next
    case (crash k w e)
    note k = busy [OF crash(3)]
    have "recv_step (with_net ren net') (deliver net net' s) ((deliver net net' s)\<lparr>rv_exit := Some (RDied e)\<rparr>)"
      by (rule recv_step.crash [where w = w and k = k]) (use crash k in \<open>simp_all add: deliver_fields with_net_fields deliver_conn\<close>)
    then show ?thesis using crash(1) by (simp add: deliver_update)
  next
    case supervise
    show ?thesis
      by (rule recv_step.supervise) (use supervise deliver_sup [OF inv supervise(3)] in \<open>simp_all add: deliver_fields\<close>)
  next
    case awake
    then show ?thesis using recv_step.awake [where en = "with_net ren net'" and s = "deliver net net' s"]
      by (simp add: deliver_fields deliver_update)
  next
    case (work p)
    then show ?thesis using recv_step.work [where en = "with_net ren net'" and s = "deliver net net' s" and p = p] deliver_done [OF b work(3,4)]
      by (simp add: deliver_fields deliver_update)
  next
    case (spurious i)
    then show ?thesis using recv_step.spurious [where en = "with_net ren net'" and s = "deliver net net' s" and i = i]
      by (simp add: deliver_fields deliver_update)
  qed
qed

lemma deliver_run:
  assumes "rtranclp (recv_step (with_net ren net)) (recv_init (with_net ren net)) s" and "net_le net net'"
    and "0 \<le> sint (re_jobs ren)" and "sint (re_jobs ren) < int_max"
  shows "rtranclp (recv_step (with_net ren net')) (recv_init (with_net ren net')) (deliver net net' s)"
  using assms(1)
proof (induction rule: rtranclp_induct)
  case base
  show ?case using deliver_init [OF assms(2) pool_size_jobs [OF assms(3,4)]] by simp
next
  case (step s s')
  have "recv_inv (with_net ren net) s" by (rule reach_recv_inv [OF step(1)]) (use assms(3,4) in \<open>simp_all add: with_net_fields\<close>)
  from deliver_step [OF this assms(2) step(2)] step(3) show ?case by (rule rtranclp.rtrancl_into_rtrancl [rotated])
qed

text \<open>Once there is a report it stays.\<close>

definition report_over :: "receiver \<Rightarrow> bool" where
  "report_over s \<longleftrightarrow> (rv_report s \<noteq> [] \<longrightarrow> rv_exit s \<noteq> None \<or> (\<exists>r. rv_sup s = SupDone r))"

lemma sup_report_over:
  assumes "sup_next en (rv_sup s) s = Some s'" and "rv_report s = []"
  shows "report_over s'"
proof (cases "rv_sup s")
  case (SupWait pc)
  then show ?thesis using assms by (cases pc) (auto simp: report_over_def)
next
  case (SupGet j n)
  then show ?thesis using assms
    by (auto simp: report_over_def sup_report_def sup_end_def
        split: if_splits option.splits handler_result.splits sum.splits run.splits sup_result.splits)
qed (use assms in simp)

lemma report_over_step:
  assumes "recv_step en s s'" and "report_over s"
  shows "report_over s'" and "rv_report s \<noteq> [] \<Longrightarrow> rv_report s' = rv_report s"
proof -
  have "report_over s' \<and> (rv_report s \<noteq> [] \<longrightarrow> rv_report s' = rv_report s)" using assms(1)
  proof cases
    case supervise
    then have "rv_report s = []" using assms(2) by (auto simp: report_over_def)
    then show ?thesis using sup_report_over [OF supervise(3)] by simp
  qed (use assms(2) in \<open>auto simp: report_over_def recv_notify_def\<close>)
  then show "report_over s'" "rv_report s \<noteq> [] \<Longrightarrow> rv_report s' = rv_report s" by blast+
qed

subsection \<open>The sender in the system\<close>

lemma brings_reads: "brings n fd evs \<Longrightarrow> \<exists>ev \<in> set evs. case ev of EvRead _ _ \<Rightarrow> True | _ \<Rightarrow> False"
  by (induction n fd evs rule: brings.induct) auto

lemma one_batch_reads: "one_batch n fd ws \<Longrightarrow> \<not> reads_none ws"
proof (induction n fd ws rule: one_batch.induct)
  case (3 n fd evs ws)
  then show ?case using brings_reads [of n fd evs] by (fastforce split: sup_event.splits)
qed simp_all

lemma reads_none_events:
  "\<forall>ev \<in> set evs. case ev of EvRead _ _ \<Rightarrow> False | _ \<Rightarrow> True \<Longrightarrow>
    (\<exists>t'. ss_events evs p t = SSLoop p t' \<and> ss_events evs q t = SSLoop q t') \<or>
    (ss_events evs p t = ss_events evs q t \<and> (\<forall>x t'. ss_events evs p t \<noteq> SSLoop x t'))"
  by (induction evs arbitrary: t) (auto simp: ss_event_def split: sup_event.splits)

lemma reads_none_loop:
  "reads_none ws \<Longrightarrow> (\<exists>t'. ss_loop ws p t = SSLoop p t' \<and> ss_loop ws q t = SSLoop q t') \<or>
    (ss_loop ws p t = ss_loop ws q t \<and> (\<forall>x t'. ss_loop ws p t \<noteq> SSLoop x t'))"
proof (induction ws arbitrary: t)
  case (Cons w ws)
  show ?case
  proof (cases w)
    case (WaitOk evs)
    then have evs: "\<forall>ev \<in> set evs. case ev of EvRead _ _ \<Rightarrow> False | _ \<Rightarrow> True" and ws: "reads_none ws" using Cons.prems by simp_all
    from reads_none_events [OF evs, of p t q] show ?thesis
    proof
      assume "\<exists>t'. ss_events evs p t = SSLoop p t' \<and> ss_events evs q t = SSLoop q t'"
      then obtain t' where "ss_events evs p t = SSLoop p t'" "ss_events evs q t = SSLoop q t'" by blast
      then show ?thesis using Cons.IH [OF ws, of t'] WaitOk by simp
    next
      assume e: "ss_events evs p t = ss_events evs q t \<and> (\<forall>x t'. ss_events evs p t \<noteq> SSLoop x t')"
      note conjunct1 [OF e, symmetric] conjunct2 [OF e]
      then show ?thesis using WaitOk by (cases "ss_events evs p t") simp_all
    qed
  qed simp
qed simp

lemma send_inv_report:
  assumes "send_inv (with_report en fd out) s" and "sd_verdict s = None \<or> reads_none (en_waits en)"
  shows "send_inv (with_report en fd out') s"
proof -
  have v: "sd_verdict s = Some r \<Longrightarrow> r = SendingFlow_Supervise (en_waits en) ((\<lambda>_. [])(fd := out)) \<Longrightarrow> \<forall>p t. r \<noteq> SSLoop p t \<Longrightarrow>
      r = SendingFlow_Supervise (en_waits en) ((\<lambda>_. [])(fd := out'))" for r
    using assms(2) reads_none_loop [of "en_waits en" "(\<lambda>_. [])(fd := out)" 0 "(\<lambda>_. [])(fd := out')"]
    by (auto simp: SendingFlow_Supervise_def split: ss_result.splits)
  have f: "en_file (with_report en fd o') = en_file en" "slice_run (with_report en fd o') = slice_run en" for o'
    by (simp_all add: with_report_def en_file_def slice_run_def fun_eq_iff)
  have "tasks_inv (with_report en fd out) s \<Longrightarrow> tasks_inv (with_report en fd out') s"
    using v by (auto simp: tasks_inv_def f) (simp_all add: with_report_def)
  moreover have "main_inv (with_report en fd out) s = main_inv (with_report en fd out') s"
    unfolding main_inv_def f by (simp add: with_report_def)
  ultimately show ?thesis using assms(1) by (auto simp: send_inv_def)
qed

text \<open>The header goes out whole.\<close>

definition header_sent :: "'c send_env \<Rightarrow> byte list \<Rightarrow> nat \<Rightarrow> bool" where
  "header_sent en data n \<longleftrightarrow> en_connected en \<and>
     SendingFlow_Init zstd_util_start True (en_stale en) (of_nat (length data)) (of_nat n) (en_header_rs en)
       = Done (0, util_init, file_header (of_nat (length data)) (of_nat n))"

lemma with_report_fields:
  "en_file (with_report en fd out) = en_file en" "slice_run (with_report en fd out) = slice_run en"
  "en_flags (with_report en fd out) = en_flags en" "en_connected (with_report en fd out) = en_connected en"
  "en_stale (with_report en fd out) = en_stale en" "en_header_rs (with_report en fd out) = en_header_rs en"
  "en_waits (with_report en fd out) = en_waits en"
  by (simp_all add: with_report_def en_file_def slice_run_def fun_eq_iff)

definition sender_ok :: "sender \<Rightarrow> bool" where
  "sender_ok ss \<longleftrightarrow> (\<forall>r. returned (sd_main ss) = Some r \<longrightarrow> r = 0)"

text \<open>What the sender has when it is past \<open>Init\<close>.\<close>

lemma sender_past_Init:
  assumes "send_inv (with_report en fd out) ss" and "header_out (sd_main ss)" and "sender_ok ss" and "header_sent en data (length (split_slices (en_flags en) data))"
    and "en_file en = (data, of_nat (length data))"
  shows "sd_slices ss = split_slices (en_flags en) data"
    and "sd_header ss = file_header (of_nat (length data)) (of_nat (length (split_slices (en_flags en) data)))"
    and "sd_results ss j = Some o' \<Longrightarrow> j < length (split_slices (en_flags en) data) \<and> slice_run en (split_slices (en_flags en) data) j = Done o'"
proof -
  have inv: "tasks_inv (with_report en fd out) ss" "main_inv (with_report en fd out) ss"
    using assms(1,2) by (auto simp: send_inv_def)
  have m: "sd_main ss \<noteq> AtSplit" "sd_main ss \<noteq> AtInit" using assms(2) by auto
  then show sl: "sd_slices ss = split_slices (en_flags en) data"
    using inv(2) assms(5) by (auto simp: main_inv_def Let_def with_report_fields split_slices_def)
  have "SendingFlow_Init zstd_util_start (en_connected en) (en_stale en) (snd (en_file en))
      (of_nat (length (sd_slices ss))) (en_header_rs en) = Done (0, util_init, sd_header ss)"
    using inv(2) m assms(3) by (simp add: main_inv_def Let_def with_report_fields sender_ok_def)
  then show "sd_header ss = file_header (of_nat (length data)) (of_nat (length (split_slices (en_flags en) data)))"
    using assms(4,5) sl by (simp add: header_sent_def)
  show "sd_results ss j = Some o' \<Longrightarrow> j < length (split_slices (en_flags en) data) \<and> slice_run en (split_slices (en_flags en) data) j = Done o'"
    using inv(1) sl by (auto simp: tasks_inv_def with_report_fields)
qed

lemma sender_ok_step:
  assumes "send_step (with_report en fd out) ss ss'" and "send_inv (with_report en fd out) ss" and "sender_ok ss"
    and "header_sent en data (length (split_slices (en_flags en) data))" and "en_file en = (data, of_nat (length data))"
  shows "sender_ok ss'"
  using assms(1)
proof cases
  case main
  show ?thesis
  proof (cases "sd_main ss = AtInit")
    case True
    then have inv: "sd_util ss = zstd_util_start" "main_inv (with_report en fd out) ss"
      using assms(2) by (auto simp: send_inv_def util_inv_def)
    have "sd_slices ss = split_slices (en_flags en) data"
      using inv(2) True assms(5) by (auto simp: main_inv_def Let_def with_report_fields split_slices_def)
    then show ?thesis using main True assms(4,5) inv(1)
      by (auto simp: main_step_def with_report_fields header_sent_def sender_ok_def)
  next
    case False
    then show ?thesis using main assms(3)
      by (cases "sd_main ss") (auto simp: main_step_def sender_ok_def split: option.splits sum.splits if_splits ss_result.splits)
  qed
next
  case (exec t)
  have "sd_main ss' = sd_main ss \<or> (\<exists>e. sd_main ss' = Died e)"
    using exec(4) by (cases t) (auto simp: exec_slice_def exec_supervise_def split: run.splits ss_result.splits)
  then show ?thesis using assms(3) by (auto simp: sender_ok_def)
qed (use assms(3) in \<open>auto simp: sender_ok_def\<close>)

subsection \<open>The invariant of the system\<close>

text \<open>The connections carry the header and what the threads got out of their slices.\<close>

definition net_ok :: "'c send_env \<Rightarrow> byte list \<Rightarrow> byte list option list \<Rightarrow> bool" where
  "net_ok en data net \<longleftrightarrow> (let fs = split_slices (en_flags en) data in
     length net = Suc (length fs) \<and>
     (net ! 0 = None \<or> net ! 0 = Some (file_header (of_nat (length data)) (of_nat (length fs)))) \<and>
     (\<forall>j < length fs. \<forall>out. net ! Suc j = Some out \<longrightarrow> (\<exists>full. slice_run en fs j = Done (Some full) \<and> prefix out full)))"

text \<open>The system is a state of the sender in its invariant, for the report there is, and a run of the receiver
  on the connections there are.\<close>

definition system_inv :: "'c send_env \<Rightarrow> int \<Rightarrow> 'd recv_env \<Rightarrow> byte list \<Rightarrow> system \<Rightarrow> bool" where
  "system_inv en fd ren data s \<longleftrightarrow>
     send_inv (with_report en fd (rv_report (sy_receiver s))) (sy_sender s) \<and> sender_ok (sy_sender s) \<and>
     (sd_verdict (sy_sender s) = None \<or> rv_report (sy_receiver s) \<noteq> [] \<or> reads_none (en_waits en)) \<and>
     net_ok en data (sy_net s) \<and> report_over (sy_receiver s) \<and>
     rtranclp (recv_step (with_net ren (sy_net s))) (recv_init (with_net ren (sy_net s))) (sy_receiver s)"

definition system_ok :: "'c send_env \<Rightarrow> 'd recv_env \<Rightarrow> byte list \<Rightarrow> bool" where
  "system_ok en ren data \<longleftrightarrow> en_file en = (data, of_nat (length data)) \<and> header_sent en data (length (split_slices (en_flags en) data)) \<and>
     0 \<le> sint (re_jobs ren) \<and> sint (re_jobs ren) < int_max"

lemma system_net_inv:
  assumes "system_ok en ren data" and "system_inv en fd ren data s" and "net_le (sy_net s) net" and "net_ok en data net"
  shows "system_inv en fd ren data (system_net net s)"
proof -
  have "rtranclp (recv_step (with_net ren net)) (recv_init (with_net ren net)) (deliver (sy_net s) net (sy_receiver s))"
    by (rule deliver_run) (use assms(1-3) in \<open>simp_all add: system_inv_def system_ok_def\<close>)
  then show ?thesis using assms(2,4) by (simp add: system_inv_def system_net_def deliver_fields report_over_def)
qed

lemma system_sends:
  assumes ok: "system_ok en ren data" and inv: "system_inv en fd ren data s"
    and st: "send_step (with_report en fd (rv_report (sy_receiver s))) (sy_sender s) ss"
    and v: "sd_verdict ss = sd_verdict (sy_sender s) \<or> rv_report (sy_receiver s) \<noteq> [] \<or> reads_none (en_waits en)"
  shows "system_inv en fd ren data (system_net (net_grow en ss (sy_net s)) (s\<lparr>sy_sender := ss\<rparr>))"
proof -
  let ?fs = "split_slices (en_flags en) data" and ?net = "net_grow en ss (sy_net s)"
  have si: "send_inv (with_report en fd (rv_report (sy_receiver s))) ss"
    by (rule send_step_inv [OF st]) (use inv in \<open>simp add: system_inv_def\<close>)
  have so: "sender_ok ss"
    by (rule sender_ok_step [OF st, of data]) (use inv ok in \<open>simp_all add: system_inv_def system_ok_def\<close>)
  have i1: "system_inv en fd ren data (s\<lparr>sy_sender := ss\<rparr>)" using inv si so v by (auto simp: system_inv_def)
  have hs: "header_sent en data (length ?fs)" "en_file en = (data, of_nat (length data))" using ok by (simp_all add: system_ok_def)
  have n: "net_ok en data (sy_net s)" using inv by (simp add: system_inv_def)
  have len: "length (sy_net s) = Suc (length ?fs)" using n by (simp add: net_ok_def Let_def)
  have h: "offered en ss 0 = None \<or> offered en ss 0 = Some (file_header (of_nat (length data)) (of_nat (length ?fs)))"
    using sender_past_Init(2) [OF si _ so hs] by (simp add: offered_def)
  have o: "\<exists>full. slice_run en ?fs j = Done (Some full) \<and> prefix out full" if "offered en ss (Suc j) = Some out" for j out
  proof -
    have ho: "header_out (sd_main ss)" and "sd_results ss j = Some (Some out)"
      using that by (auto simp: offered_def slice_connection_def split: if_splits option.splits)
    from sender_past_Init(3) [OF si ho so hs this(2)] show ?thesis by auto
  qed
  have "net_ok en data ?net"
    unfolding net_ok_def Let_def
  proof (intro conjI allI impI)
    show "length ?net = Suc (length ?fs)" using len by (simp add: net_grow_def)
    show "?net ! 0 = None \<or> ?net ! 0 = Some (file_header (of_nat (length data)) (of_nat (length ?fs)))"
      using n h len net_grow_nth [of 0 "sy_net s" en ss] by (auto simp: net_ok_def Let_def)
  next
    fix j out assume j: "j < length ?fs" "?net ! Suc j = Some out"
    then have "sy_net s ! Suc j = Some out \<or> offered en ss (Suc j) = Some out"
      using len net_grow_nth [of "Suc j" "sy_net s" en ss] by (auto split: option.splits)
    then show "\<exists>full. slice_run en ?fs j = Done (Some full) \<and> prefix out full" using n o j(1) by (auto simp: net_ok_def Let_def)
  qed
  then show ?thesis by (intro system_net_inv [OF ok i1]) (simp_all add: net_grow_le)
qed

lemma system_breaks:
  assumes "system_ok en ren data" and "system_inv en fd ren data s" and "Suc j < length (sy_net s)" and "sy_net s ! Suc j = None"
    and "slice_run en (split_slices (en_flags en) (fst (en_file en))) j = Done (Some full)" and "prefix out full"
  shows "system_inv en fd ren data (system_net ((sy_net s)[Suc j := Some out]) s)"
proof (rule system_net_inv [OF assms(1,2)])
  show "net_le (sy_net s) ((sy_net s)[Suc j := Some out])" using assms(3,4) by (auto simp: net_le_def nth_list_update)
  have "en_file en = (data, of_nat (length data))" using assms(1) by (simp add: system_ok_def)
  then show "net_ok en data ((sy_net s)[Suc j := Some out])"
    using assms(2,3,5,6) by (auto simp: system_inv_def net_ok_def Let_def nth_list_update)
qed

lemma system_receives:
  assumes "system_inv en fd ren data s" and "recv_step (with_net ren (sy_net s)) (sy_receiver s) rs"
  shows "system_inv en fd ren data (s\<lparr>sy_receiver := rs\<rparr>)"
proof -
  have ro: "report_over (sy_receiver s)" using assms(1) by (simp add: system_inv_def)
  note r = report_over_step [OF assms(2) ro]
  have "send_inv (with_report en fd (rv_report rs)) (sy_sender s)"
    using assms(1) r(2) send_inv_report [of en fd "rv_report (sy_receiver s)" "sy_sender s" "rv_report rs"]
    by (cases "rv_report (sy_receiver s) = []") (auto simp: system_inv_def)
  moreover have "rtranclp (recv_step (with_net ren (sy_net s))) (recv_init (with_net ren (sy_net s))) rs"
    using assms by (auto simp: system_inv_def intro: rtranclp.rtrancl_into_rtrancl)
  ultimately show ?thesis using assms(1) r by (auto simp: system_inv_def)
qed

lemma system_start_inv:
  assumes "system_ok en ren data"
  shows "system_inv en fd ren data (system_start en ren)"
proof -
  have "send_start (with_report en fd out) = send_start en" for out by (simp add: send_start_def with_report_def)
  then have "send_inv (with_report en fd out) (send_start en)" for out using send_start_inv [of "with_report en fd out"] by simp
  moreover have "sender_ok (send_start en)" by (simp add: sender_ok_def send_start_def split: sum.split)
  moreover have "net_ok en data (replicate (Suc (length (split_slices (en_flags en) (fst (en_file en))))) None)"
    using assms by (simp add: net_ok_def system_ok_def Let_def del: replicate_Suc)
  moreover have "sd_verdict (send_start en) = None" by (simp add: send_start_def split: sum.split)
  moreover have "report_over (recv_init en')" for en' :: "'b recv_env"
    by (simp add: report_over_def recv_init_def Let_def split: sum.split)
  ultimately show ?thesis by (simp add: system_inv_def system_start_def Let_def)
qed

interpretation whole_system: invariant_system "\<lambda>s. s = system_start en ren \<and> system_ok en ren data" "system_step en fd ren"
    "\<lambda>s. system_ok en ren data \<and> system_inv en fd ren data s"
  for en :: "'c send_env" and fd and ren :: "'d recv_env" and data
proof (unfold_locales, goal_cases)
  case (1 s)
  then show ?case using system_start_inv by blast
next
  case (2 s t)
  from 2(2) show ?case
    by cases (use 2(1) system_sends system_breaks system_receives in blast)+
qed

subsection \<open>What holds of the system\<close>

lemma transfer_system_ok:
  assumes "transfer_ok en ren taken given fed made frame data" and "header_sent en data (length (split_slices (en_flags en) data))"
  shows "system_ok en ren data"
  using assms file_read [of en data "en_flags en"] by (simp add: system_ok_def transfer_ok_def)

lemma with_net_report: "report_on (with_net ren net) data out = report_on ren data out"
  unfolding report_on_def with_net_fields ..

lemma system_carried:
  assumes ok: "transfer_ok en ren taken given fed made frame data" and net: "net_ok en data net"
    and h: "net ! 0 = Some (file_header (of_nat (length data)) (of_nat (length (split_slices (en_flags en) data))))"
  obtains ys where "carried_by (with_net ren net) fed made frame (en_flags en) data ys" and "length ys = length (split_slices (en_flags en) data)"
  by (rule net_carried [of "en_flags en" data en taken given frame "with_net ren net" fed made])
    (use ok net h in \<open>simp_all add: transfer_ok_def net_ok_def Let_def with_net_fields\<close>)

text \<open>A report shows that the header was there: a receiver without it has nothing to report.\<close>

lemma system_header:
  assumes ok: "transfer_ok en ren taken given fed made frame data" and inv: "system_inv en fd ren data s"
    and rep: "rv_report (sy_receiver s) \<noteq> []"
  shows "sy_net s ! 0 = Some (file_header (of_nat (length data)) (of_nat (length (split_slices (en_flags en) data))))"
proof (rule ccontr)
  let ?net = "sy_net s" and ?h = "Some (file_header (of_nat (length data)) (of_nat (length (split_slices (en_flags en) data))))"
  let ?net' = "?net[0 := ?h]"
  let ?rs = "deliver ?net ?net' (sy_receiver s)"
  assume "?net ! 0 \<noteq> ?h"
  then have none: "?net ! 0 = None" and n: "net_ok en data ?net" using inv by (auto simp: system_inv_def net_ok_def Let_def)
  have len: "0 < length ?net" using n by (simp add: net_ok_def Let_def)
  have n': "net_ok en data ?net'" using n by (simp add: net_ok_def Let_def)
  have le: "net_le ?net ?net'" using none len by (auto simp: net_le_def nth_list_update)
  have jb: "0 \<le> sint (re_jobs ren)" "sint (re_jobs ren) < int_max" using ok by (simp_all add: transfer_ok_def)
  have run: "rtranclp (recv_step (with_net ren ?net')) (recv_init (with_net ren ?net')) ?rs"
    by (rule deliver_run [OF _ le jb]) (use inv in \<open>simp add: system_inv_def\<close>)
  have h': "?net' ! 0 = ?h" using len by simp
  obtain ys where c: "carried_by (with_net ren ?net') fed made frame (en_flags en) data ys"
    by (rule system_carried [OF ok n' h'])
  have jb': "0 \<le> sint (re_jobs (with_net ren ?net'))" "sint (re_jobs (with_net ren ?net')) < int_max" using jb by (simp_all add: with_net_fields)
  note i = reach_transfer_inv [OF c run jb']
  have b: "recv_base (with_net ren ?net') ?rs" using i(1) by (simp add: recv_inv_def)
  have "\<exists>n. got_inv ?rs n n" using i(1) rep by (simp add: recv_inv_def deliver_fields)
  then obtain n where "got_inv ?rs n n" ..
  from reported_header(1) [OF c i(2) b this] have "cn_result (rv_conns ?rs ! 0) = Some (Returned 0)" .
  moreover have "0 < length (rv_conns (sy_receiver s))"
    using b len by (simp add: recv_base_def deliver_fields with_net_fields)
  ultimately show False using none by (simp add: deliver_def fresh_conn_def)
qed

lemma system_reported:
  assumes ok: "transfer_ok en ren taken given fed made frame data" and inv: "system_inv en fd ren data s"
    and rep: "rv_report (sy_receiver s) \<noteq> []" and well: "well_run (sy_receiver s)"
  shows "sv_start (rv_server (sy_receiver s)) = Mapped data" and "report_on ren data (rv_report (sy_receiver s))"
proof -
  have n: "net_ok en data (sy_net s)" using inv by (simp add: system_inv_def)
  obtain ys where c: "carried_by (with_net ren (sy_net s)) fed made frame (en_flags en) data ys"
    by (rule system_carried [OF ok n system_header [OF ok inv rep]])
  have r: "rtranclp (recv_step (with_net ren (sy_net s))) (recv_init (with_net ren (sy_net s))) (sy_receiver s)"
    using inv by (simp add: system_inv_def)
  have "0 \<le> sint (re_jobs (with_net ren (sy_net s)))" "sint (re_jobs (with_net ren (sy_net s))) < int_max"
    using ok by (simp_all add: transfer_ok_def with_net_fields)
  from report_of_transfer [OF c r this rep well]
  show "sv_start (rv_server (sy_receiver s)) = Mapped data" "report_on ren data (rv_report (sy_receiver s))"
    by (simp_all add: with_net_report)
qed

text \<open>A sender that exits with 0 has its verdict, and so there is a report if its supervisor reads anything.\<close>

lemma system_exit_0:
  assumes inv: "system_inv en fd ren data s" and ex: "sd_main (sy_sender s) = Ended 0"
  shows "sd_verdict (sy_sender s) = Some (SendingFlow_Supervise (en_waits en) ((\<lambda>_. [])(fd := rv_report (sy_receiver s))))"
    and "rv_report (sy_receiver s) \<noteq> [] \<or> reads_none (en_waits en)"
proof -
  let ?en = "with_report en fd (rv_report (sy_receiver s))"
  have i: "tasks_inv ?en (sy_sender s)" "main_inv ?en (sy_sender s)" using inv ex by (auto simp: system_inv_def send_inv_def)
  then have "SupTask \<in> set (tp_finished (sd_pool (sy_sender s)))" using ex by (simp add: main_inv_def Let_def)
  then have "executed (sy_sender s) SupTask" using i(1) by (auto simp: tasks_inv_def list_all_iff)
  then obtain v where v: "sd_verdict (sy_sender s) = Some v" by auto
  then show "sd_verdict (sy_sender s) = Some (SendingFlow_Supervise (en_waits en) ((\<lambda>_. [])(fd := rv_report (sy_receiver s))))"
    using i(1) by (auto simp: tasks_inv_def with_report_def)
  show "rv_report (sy_receiver s) \<noteq> [] \<or> reads_none (en_waits en)" using inv v by (auto simp: system_inv_def)
qed

subsection \<open>A schedule for the system\<close>

text \<open>As long as there is no verdict, the sender does not look at the report.\<close>

lemma verdict_none: "send_step en s s' \<Longrightarrow> sd_verdict s' = None \<Longrightarrow> sd_verdict s = None"
proof (induction rule: send_step.induct)
  case (main s s')
  then show ?case
    by (cases "sd_main s") (auto simp: main_step_def split: option.splits sum.splits run.splits if_splits)
next
  case (exec s t s')
  then show ?case by (cases t) (auto simp: exec_slice_def exec_supervise_def split: run.splits ss_result.splits)
qed simp_all

lemma send_step_report:
  assumes "send_step (with_report en fd out) s s'" and "sd_verdict s' = None"
  shows "send_step (with_report en fd out') s s'"
  using assms(1)
proof cases
  case main
  have "main_step (with_report en fd out) s = main_step (with_report en fd out') s"
    by (cases "sd_main s") (simp_all add: main_step_def with_report_fields)
  then show ?thesis using main by (intro send_step.main) simp
next
  case (exec t)
  show ?thesis
  proof (cases t)
    case SupTask
    then show ?thesis using exec assms(2) by (auto simp: exec_supervise_def split: ss_result.splits)
  next
    case (SendTask j)
    have "exec_task (with_report en fd out) t s = exec_task (with_report en fd out') t s"
      by (simp add: SendTask exec_slice_def with_report_def)
    then show ?thesis using exec by (intro send_step.exec [where t = t]) simp_all
  qed
next
  case (work p)
  then show ?thesis using send_step.work [of s p] by simp
next
  case (spurious i)
  then show ?thesis using send_step.spurious [of s i] by simp
qed

lemma send_run_report:
  assumes "rtranclp (send_step (with_report en fd out)) a b" and "sd_verdict b = None"
  shows "rtranclp (send_step (with_report en fd out')) a b"
  using assms
proof (induction rule: rtranclp_induct)
  case (step b c)
  then show ?case using verdict_none [OF step(2)] send_step_report [OF step(2)] by (auto intro: rtranclp.rtrancl_into_rtrancl)
qed simp

text \<open>The sender runs while the receiver does not: the connections are those it has made, with all that was
  sent on them.\<close>

definition net_exact :: "'c send_env \<Rightarrow> byte list \<Rightarrow> byte list option list \<Rightarrow> bool" where
  "net_exact en data net \<longleftrightarrow> (\<forall>j < length (split_slices (en_flags en) data). \<forall>out. net ! Suc j = Some out \<longrightarrow>
     slice_run en (split_slices (en_flags en) data) j = Done (Some out))"

definition sending_alone :: "'c send_env \<Rightarrow> int \<Rightarrow> 'd recv_env \<Rightarrow> byte list \<Rightarrow> system \<Rightarrow> bool" where
  "sending_alone en fd ren data s \<longleftrightarrow> rtranclp (system_step en fd ren) (system_start en ren) s \<and>
     sy_receiver s = recv_init (with_net ren (sy_net s)) \<and> net_exact en data (sy_net s) \<and>
     (\<forall>k < length (sy_net s). offered en (sy_sender s) k \<noteq> None \<longrightarrow> sy_net s ! k \<noteq> None)"

lemma send_alone:
  assumes ok: "system_ok en ren data" and run: "rtranclp (send_step (with_report en fd [])) (send_start en) b" and "sd_verdict b = None"
  shows "\<exists>s. sending_alone en fd ren data s \<and> sy_sender s = b"
  using run assms(3)
proof (induction rule: rtranclp_induct)
  case base
  have "offered en (send_start en) k = None" for k by (simp add: offered_def send_start_def split: sum.split)
  then show ?case
    by (intro exI [of _ "system_start en ren"])
      (use ok in \<open>simp add: sending_alone_def system_start_def Let_def net_exact_def system_ok_def del: replicate_Suc\<close>)
next
  case (step b c)
  have bn: "sd_verdict b = None" by (rule verdict_none [OF step(2,4)])
  with step(3) obtain s where s: "sending_alone en fd ren data s" "sy_sender s = b" by blast
  let ?net = "net_grow en c (sy_net s)"
  let ?t = "system_net ?net (s\<lparr>sy_sender := c\<rparr>)"
  have rp: "rv_report (sy_receiver s) = []" using s(1)
    by (simp add: sending_alone_def recv_init_def Let_def split: sum.split)
  have st: "system_step en fd ren s ?t"
    by (rule system_step.sends) (use step(2,4) s(2) bn rp in simp_all)
  have reach: "rtranclp (system_step en fd ren) (system_start en ren) ?t"
    using s(1) st by (auto simp: sending_alone_def intro: rtranclp.rtrancl_into_rtrancl)
  have inv: "system_inv en fd ren data ?t" using whole_system.reach_inv [OF _ reach] ok by blast
  have jb: "0 \<le> sint (re_jobs ren)" "sint (re_jobs ren) < int_max" using ok by (simp_all add: system_ok_def)
  have rc: "sy_receiver ?t = recv_init (with_net ren ?net)"
    using s(1) deliver_init [where ren = ren and net = "sy_net s" and net' = ?net, OF net_grow_le pool_size_jobs [OF jb]] by (simp add: sending_alone_def system_net_def)
  have len: "length ?net = Suc (length (split_slices (en_flags en) data))" "length (sy_net s) = length ?net"
    using inv by (simp_all add: system_inv_def net_ok_def Let_def system_net_def net_grow_def)
  have ex: "net_exact en data ?net"
    unfolding net_exact_def
  proof (intro allI impI)
    fix j out assume j: "j < length (split_slices (en_flags en) data)" "?net ! Suc j = Some out"
    then consider "sy_net s ! Suc j = Some out" | "offered en c (Suc j) = Some out"
      using len net_grow_nth [of "Suc j" "sy_net s" en c] by (auto split: option.splits)
    then show "slice_run en (split_slices (en_flags en) data) j = Done (Some out)"
    proof cases
      case 1
      then show ?thesis using s(1) j(1) by (simp add: sending_alone_def net_exact_def)
    next
      case 2
      then have ho: "header_out (sd_main c)" and r: "sd_results c j = Some (Some out)"
        by (auto simp: offered_def slice_connection_def split: if_splits option.splits)
      have i: "send_inv (with_report en fd (rv_report (sy_receiver ?t))) c" "sender_ok c"
        using inv by (simp_all add: system_inv_def system_net_def)
      show ?thesis using sender_past_Init(3) [OF i(1) ho i(2) _ _ r] ok by (simp add: system_ok_def)
    qed
  qed
  have "sending_alone en fd ren data ?t"
    unfolding sending_alone_def
  proof (intro conjI allI impI)
    fix k assume k: "k < length (sy_net ?t)" "offered en (sy_sender ?t) k \<noteq> None"
    then show "sy_net ?t ! k \<noteq> None" using net_grow_nth [of k "sy_net s" en c] len
      by (auto simp: system_net_def split: option.splits)
  qed (use reach rc ex in \<open>simp_all add: system_net_def\<close>)
  then show ?case by (intro exI [of _ ?t]) (simp add: system_net_def)
qed


lemma receive_run:
  assumes "rtranclp (recv_step (with_net ren (sy_net s))) (sy_receiver s) rs"
  shows "rtranclp (system_step en fd ren) s (s\<lparr>sy_receiver := rs\<rparr>)"
  using assms
proof (induction rule: rtranclp_induct)
  case (step a b)
  have "system_step en fd ren (s\<lparr>sy_receiver := a\<rparr>) (s\<lparr>sy_receiver := a\<rparr>\<lparr>sy_receiver := b\<rparr>)"
    by (rule system_step.receives) (use step(2) in simp)
  with step(3) show ?case by simp
qed simp

text \<open>With all connections made, and a report, the sender goes on as it likes.\<close>

lemma full_same:
  assumes "\<forall>k < length (sy_net s). sy_net s ! k \<noteq> None" and "length (rv_conns (sy_receiver s)) = length (sy_net s)"
  shows "system_net (net_grow en ss (sy_net s)) (s\<lparr>sy_sender := ss\<rparr>) = s\<lparr>sy_sender := ss\<rparr>"
proof -
  have "net_grow en ss (sy_net s) = sy_net s" using assms(1) by (auto simp: net_grow_def intro!: nth_equalityI)
  moreover have "deliver (sy_net s) (sy_net s) (sy_receiver s) = sy_receiver s"
  proof -
    have "map (\<lambda>k. if sy_net s ! k = None then fresh_conn (sy_net s ! k) else rv_conns (sy_receiver s) ! k) [0..<length (rv_conns (sy_receiver s))]
      = rv_conns (sy_receiver s)" using assms by (auto intro!: nth_equalityI)
    then show ?thesis by (simp add: deliver_def)
  qed
  ultimately show ?thesis by (simp add: system_net_def)
qed

lemma send_full:
  assumes "rtranclp (send_step (with_report en fd (rv_report (sy_receiver s)))) (sy_sender s) ss"
    and "\<forall>k < length (sy_net s). sy_net s ! k \<noteq> None" and "length (rv_conns (sy_receiver s)) = length (sy_net s)"
    and "rv_report (sy_receiver s) \<noteq> []"
  shows "rtranclp (system_step en fd ren) s (s\<lparr>sy_sender := ss\<rparr>)"
  using assms(1)
proof (induction rule: rtranclp_induct)
  case (step a b)
  let ?s = "s\<lparr>sy_sender := a\<rparr>"
  have "system_step en fd ren ?s (system_net (net_grow en b (sy_net ?s)) (?s\<lparr>sy_sender := b\<rparr>))"
    by (rule system_step.sends) (use step(2) assms(4) in simp_all)
  then have "system_step en fd ren ?s (s\<lparr>sy_sender := b\<rparr>)" using full_same [of ?s en b] assms(2,3) by simp
  with step(3) show ?case by simp
qed simp

text \<open>A message that is a beginning of a message for the same slice is that message: the length is in the
  header.\<close>

lemma slice_message_prefix:
  assumes "prefix (slice_message f y) (slice_message f y')" and "length y' < 2 ^ 32"
  shows "y = y'"
proof -
  obtain z where z: "slice_message f y' = slice_message f y @ z" using assms(1) by (auto simp: prefix_def)
  have t: "take 10 (slice_message f w) = slice_header (fs_index f) (ucast (fs_len f)) (of_nat (length w))" for w
    by (simp add: slice_message_def)
  have "take 10 (slice_message f y') = take 10 (slice_message f y)" using z by (simp add: slice_message_def del: append_assoc)
  then have "put_u32 (of_nat (length y')) = put_u32 (of_nat (length y))" unfolding t slice_header_def by simp
  then have h: "(of_nat (length y') :: u32) = of_nat (length y)" by (rule wire32.enc_inj)
  have "length y \<le> length y'" using arg_cong [OF z, of length] by (simp add: slice_message_def)
  then have "length y = length y'" using arg_cong [OF h, of unat] assms(2) by (simp add: unat_of_nat take_bit_nat_eq_self)
  then show ?thesis using z by (simp add: slice_message_def)
qed

text \<open>Every slice gets out whole.\<close>

definition slices_out :: "'c send_env \<Rightarrow> byte list \<Rightarrow> bool" where
  "slices_out en data \<longleftrightarrow> (let fs = split_slices (en_flags en) data in
     \<forall>j < length fs. en_slice_connected en j \<and> (\<exists>y. slice_run en fs j = Done (Some (slice_message (fs ! j) y))))"

lemma plan_split:
  assumes "plan_ok fl data"
  obtains fl' where "SplitFile fl data (of_nat (length data)) = Some (Inr (split_slices fl data, fl'))"
proof -
  have "split_slices fl data \<noteq> []" using plan_count(1) [OF assms] by auto
  then show ?thesis using that by (auto simp: split_slices_def split: option.splits sum.splits)
qed

lemma all_sent:
  assumes ok: "system_ok en ren data" and pl: "plan_ok (en_flags en) data" and so: "slices_out en data"
    and jb: "1 \<le> sint (jobs (en_flags en))" "sint (jobs (en_flags en)) < int_max"
  obtains s where "rtranclp (system_step en fd ren) (system_start en ren) s" and "sy_receiver s = recv_init (with_net ren (sy_net s))"
    and "length (sy_net s) = Suc (length (split_slices (en_flags en) data))"
    and "sy_net s ! 0 = Some (file_header (of_nat (length data)) (of_nat (length (split_slices (en_flags en) data))))"
    and "\<forall>j < length (split_slices (en_flags en) data). \<exists>y. sy_net s ! Suc j = Some (slice_message (split_slices (en_flags en) data ! j) y)"
    and "rtranclp (send_step (with_report en fd [])) (send_start en) (sy_sender s)"
    and "sd_main (sy_sender s) = AtDestory" and "sd_verdict (sy_sender s) = None"
    and "0 < length (tp_threads (sd_pool (sy_sender s)))" and "tp_threads (sd_pool (sy_sender s)) ! 0 = Busy SupTask"
    and "tp_finished (sd_pool (sy_sender s)) = map SendTask [0..<length (sd_slices (sy_sender s))]"
proof -
  let ?fs = "split_slices (en_flags en) data" and ?en = "with_report en fd []"
  have ef: "en_file en = (data, of_nat (length data))" and hs: "header_sent en data (length ?fs)" using ok by (simp_all add: system_ok_def)
  obtain fl where sp: "SplitFile (en_flags en) data (of_nat (length data)) = Some (Inr (?fs, fl))" by (rule plan_split [OF pl])
  let ?h = "file_header (of_nat (length data)) (of_nat (length ?fs))"
  have ini: "SendingFlow_Init zstd_util_start (en_connected ?en) (en_stale ?en) (snd (en_file ?en)) (of_nat (length ?fs)) (en_header_rs ?en)
    = Done (0, util_init, ?h)" using hs ef by (simp add: header_sent_def with_report_fields)
  have run: "\<forall>j < length ?fs. \<exists>out. slice_run ?en ?fs j = Done out" using so by (auto simp: slices_out_def Let_def with_report_fields)
  have start: "send_start ?en = send_start en" by (simp add: send_start_def with_report_def)
  obtain p r where b: "rtranclp (send_step ?en) (send_start ?en) \<lparr>sd_main = AtDestory, sd_util = util_init, sd_pool = p,
      sd_slices = ?fs, sd_header = ?h, sd_results = r, sd_verdict = None\<rparr>" (is "rtranclp _ _ ?b")
    and p: "0 < length (tp_threads p)" "tp_threads p ! 0 = Busy SupTask" "tp_finished p = map SendTask [0..<length ?fs]"
    by (rule slices_first [OF _ ini run]) (use sp ef jb in \<open>simp_all add: with_report_fields\<close>)
  obtain s where s: "sending_alone en fd ren data s" "sy_sender s = ?b"
    using send_alone [OF ok b [unfolded start]] by auto
  have reach: "rtranclp (system_step en fd ren) (system_start en ren) s" using s(1) by (simp add: sending_alone_def)
  have inv: "system_inv en fd ren data s" using whole_system.reach_inv [OF _ reach] ok by blast
  have n: "net_ok en data (sy_net s)" using inv by (simp add: system_inv_def)
  then have len: "length (sy_net s) = Suc (length ?fs)" by (simp add: net_ok_def Let_def)
  have res: "r j = Some (Some (slice_message (?fs ! j) y))" if j: "j < length ?fs" "slice_run en ?fs j = Done (Some (slice_message (?fs ! j) y))" for j y
  proof -
    have i: "tasks_inv ?en ?b" using reach_send_inv [OF b] by (simp add: send_inv_def)
    have "SendTask j \<in> set (tp_finished p)" using p(3) j(1) by simp
    then have "executed ?b (SendTask j)" using i by (auto simp: tasks_inv_def list_all_iff)
    then obtain o' where "r j = Some o'" by auto
    then show ?thesis using i j(2) by (auto simp: tasks_inv_def with_report_fields)
  qed
  have made: "offered en ?b k \<noteq> None \<Longrightarrow> k < length (sy_net s) \<Longrightarrow> sy_net s ! k \<noteq> None" for k
    using s by (simp add: sending_alone_def)
  have h0: "sy_net s ! 0 = Some ?h"
    using n made [of 0] len hs by (auto simp: net_ok_def Let_def offered_def header_sent_def)
  have sl: "\<exists>y. sy_net s ! Suc j = Some (slice_message (?fs ! j) y)" if j: "j < length ?fs" for j
  proof -
    obtain y where y: "en_slice_connected en j" "slice_run en ?fs j = Done (Some (slice_message (?fs ! j) y))"
      using so j by (auto simp: slices_out_def Let_def)
    then have "sy_net s ! Suc j \<noteq> None" using made [of "Suc j"] len j res [OF j y(2)] by (auto simp: offered_def slice_connection_def)
    then obtain out where o: "sy_net s ! Suc j = Some out" by auto
    then have "slice_run en ?fs j = Done (Some out)" using s(1) j by (simp add: sending_alone_def net_exact_def)
    then show ?thesis using o y(2) by auto
  qed
  show ?thesis
    by (rule that [OF reach _ len h0])
      (use s b sl p in \<open>simp_all add: sending_alone_def start\<close>)
qed

text \<open>First the slices, then the receiver, then the rest of the sender.\<close>

lemma system_run:
  assumes ok: "transfer_ok en ren taken given fed made frame data" and hs: "header_sent en data (length (split_slices (en_flags en) data))"
    and short: "length (file_header (of_nat (length data)) (of_nat (length (split_slices (en_flags en) data)))) \<le> 17"
    and so: "slices_out en data" and jb: "1 \<le> sint (jobs (en_flags en))" "1 \<le> sint (re_jobs ren)"
    and rc: "re_connected ren" and vd: "verdict_ok en fd ren"
  shows "\<exists>s msg. rtranclp (system_step en fd ren) (system_start en ren) s \<and> sd_main (sy_sender s) = Ended 0 \<and>
    well_run (sy_receiver s) \<and> rv_report (sy_receiver s) = [69, 0] @ msg \<and> sv_start (rv_server (sy_receiver s)) = Mapped data \<and>
    sd_verdict (sy_sender s) = Some (SSReturn 0 (Some msg) 1) \<and>
    getValidResult_file (re_nan ren) (re_arrow ren) (en_fs en) (en_path en) (sint (re_rows ren)) = Inr msg"
proof -
  let ?fs = "split_slices (en_flags en) data"
  have sok: "system_ok en ren data" by (rule transfer_system_ok [OF ok hs])
  have t: "plan_ok (en_flags en) data" "en_fs en (en_path en) = Some data" "sint (jobs (en_flags en)) < int_max" "sint (re_jobs ren) < int_max"
    using ok by (simp_all add: transfer_ok_def)
  obtain cv where rd: "readDataFromFile (re_arrow ren) (en_fs en) (en_path en) (sint (re_rows ren)) = Inr cv"
    and sm: "sum_list (map (\<lambda>v. \<bar>sint v\<bar>) (samples (intVal cv) (sint (re_rows ren)))) < 2 ^ 31"
    and rows: "sint (re_rows ren) \<le> 2147400000" and nan: "length (re_nan ren) \<le> 5"
    and ws: "list_all ((<) 0) (re_ws ren)" "407 \<le> length (re_ws ren)"
    and wt: "one_batch 406 fd (en_waits en)"
    using vd unfolding verdict_ok_def by blast
  obtain msg where v: "getValidResult_file (re_nan ren) (re_arrow ren) (en_fs en) (en_path en) (sint (re_rows ren)) = Inr msg"
    and m: "contains strings2 msg" "length msg \<le> 404" by (rule verdict_text [OF rd rows nan sm])
  obtain s where reach: "rtranclp (system_step en fd ren) (system_start en ren) s"
    and rcv: "sy_receiver s = recv_init (with_net ren (sy_net s))" and len: "length (sy_net s) = Suc (length ?fs)"
    and h0: "sy_net s ! 0 = Some (file_header (of_nat (length data)) (of_nat (length ?fs)))"
    and sl: "\<forall>j < length ?fs. \<exists>y. sy_net s ! Suc j = Some (slice_message (?fs ! j) y)"
    and b: "rtranclp (send_step (with_report en fd [])) (send_start en) (sy_sender s)" "sd_main (sy_sender s) = AtDestory"
      "sd_verdict (sy_sender s) = None"
    and p: "0 < length (tp_threads (sd_pool (sy_sender s)))" "tp_threads (sd_pool (sy_sender s)) ! 0 = Busy SupTask"
      "tp_finished (sd_pool (sy_sender s)) = map SendTask [0..<length (sd_slices (sy_sender s))]"
    by (rule all_sent [OF sok t(1) so jb(1) t(3)])
  let ?ren = "with_net ren (sy_net s)"
  have inv: "system_inv en fd ren data s" using whole_system.reach_inv [OF _ reach] sok by blast
  then have n: "net_ok en data (sy_net s)" by (simp add: system_inv_def)
  obtain ys where c: "carried_by ?ren fed made frame (en_flags en) data ys" and ly: "length ys = length ?fs"
    by (rule system_carried [OF ok n h0])
  have cp: "complete ?ren (en_flags en) data ys"
    unfolding complete_def with_net_fields ly
  proof (intro conjI allI impI)
    fix j assume j: "j < length ?fs"
    then obtain y where y: "sy_net s ! Suc j = Some (slice_message (?fs ! j) y)" using sl by blast
    have "prefix (slice_message (?fs ! j) y) (slice_message (?fs ! j) (ys ! j))" "length (ys ! j) < 2 ^ 32"
      using c j y ly by (auto simp: carried_by_def carries_def frames_ok_def with_net_fields fresh_conn_def)
    then have "y = ys ! j" by (rule slice_message_prefix)
    with y show "sy_net s ! Suc j = Some (slice_message (?fs ! j) (ys ! j))" by simp
  qed (rule short)
  have "getValidResult_file (re_nan ren) (re_arrow ren) ((re_fs ren)(re_path ren \<mapsto> data)) (re_path ren) (sint (re_rows ren)) = Inr msg"
    using validation_same [of "(re_fs ren)(re_path ren \<mapsto> data)" "re_path ren" "en_fs en" "en_path en"] t(2) v by simp
  then obtain rs where rs: "rtranclp (recv_step ?ren) (recv_init ?ren) rs" "rv_report rs = [69, 0] @ msg" "well_run rs"
      "sv_start (rv_server rs) = Mapped data"
    using receiver_run [OF c cp, of msg] jb(2) t(4) rc ws m(2) unfolding with_net_fields by auto
  let ?s = "s\<lparr>sy_receiver := rs\<rparr>" and ?en = "with_report en fd ([69, 0] @ msg)"
  have r2: "rtranclp (system_step en fd ren) (system_start en ren) ?s"
    using reach receive_run [of ren s rs en fd] rs(1) rcv by (simp add: rtranclp_trans)
  have base: "recv_base ?ren rs" using reach_recv_inv [OF rs(1)] jb(2) t(4) by (simp add: with_net_fields recv_inv_def)
  have start: "send_start ?en = send_start en" by (simp add: send_start_def with_report_def)
  have b3: "rtranclp (send_step ?en) (send_start ?en) (sy_sender s)" unfolding start by (rule send_run_report [OF b(1,3)])
  have "SendingFlow_Supervise (en_waits ?en) (en_pend ?en) = SSReturn 0 (Some msg) 1"
    unfolding with_report_fields by (rule one_batch_found [OF m(1) _ _ _ wt]) (use m in \<open>simp_all add: with_report_def\<close>)
  from supervisor_last [OF b3 b(2,3) p this] obtain ss where ss: "rtranclp (send_step ?en) (sy_sender s) ss" "sd_main ss = Ended 0" by blast
  have full: "sy_net s ! k \<noteq> None" if "k < length (sy_net s)" for k using that h0 sl len by (cases k) auto
  have "rtranclp (system_step en fd ren) ?s (?s\<lparr>sy_sender := ss\<rparr>)"
    by (rule send_full) (use ss(1) rs(2) full base len in \<open>simp_all add: recv_base_def with_net_fields\<close>)
  with r2 have r3: "rtranclp (system_step en fd ren) (system_start en ren) (?s\<lparr>sy_sender := ss\<rparr>)" by (rule rtranclp_trans)
  have "system_inv en fd ren data (?s\<lparr>sy_sender := ss\<rparr>)" using whole_system.reach_inv [OF _ r3] sok by blast
  then have "sd_verdict ss = Some (SendingFlow_Supervise (en_waits en) ((\<lambda>_. [])(fd := rv_report rs)))"
    using system_exit_0(1) [of en fd ren data "?s\<lparr>sy_sender := ss\<rparr>"] ss(2) by simp
  moreover have "SendingFlow_Supervise (en_waits en) ((\<lambda>_. [])(fd := rv_report rs)) = SSReturn 0 (Some msg) 1"
    by (rule one_batch_found [OF m(1) _ _ _ wt]) (use m rs(2) in simp_all)
  ultimately show ?thesis
    using r3 ss(2) rs v by (intro exI [of _ "?s\<lparr>sy_sender := ss\<rparr>"] exI [of _ msg]) simp
qed


text \<open>The verdict: what has to be there for it is a report on the sender's file.\<close>

lemma system_validated:
  assumes ok: "transfer_ok en ren taken given fed made frame data" and inv: "system_inv en fd ren data s"
    and vd: "verdict_ok en fd ren" and ex: "sd_main (sy_sender s) = Ended 0" and well: "well_run (sy_receiver s)"
  shows "\<exists>msg. sd_verdict (sy_sender s) = Some (SSReturn 0 (Some msg) 1) \<and>
    getValidResult_file (re_nan ren) (re_arrow ren) (en_fs en) (en_path en) (sint (re_rows ren)) = Inr msg"
proof -
  obtain cv where rd: "readDataFromFile (re_arrow ren) (en_fs en) (en_path en) (sint (re_rows ren)) = Inr cv"
    and sm: "sum_list (map (\<lambda>v. \<bar>sint v\<bar>) (samples (intVal cv) (sint (re_rows ren)))) < 2 ^ 31"
    and rest: "sint (re_rows ren) \<le> 2147400000" "length (re_nan ren) \<le> 5" "list_all ((<) 0) (re_ws ren)" "407 \<le> length (re_ws ren)"
    and wt: "one_batch 406 fd (en_waits en)"
    using vd unfolding verdict_ok_def by blast
  have fs: "en_fs en (en_path en) = Some data" using ok by (simp add: transfer_ok_def)
  have "rv_report (sy_receiver s) \<noteq> []" using system_exit_0(2) [OF inv ex] one_batch_reads [OF wt] by blast
  from system_reported(2) [OF ok inv this well] have "report_on ren data (((\<lambda>_. [])(fd := rv_report (sy_receiver s))) fd)" by simp
  from report_read [where pend = "(\<lambda>_. [])(fd := rv_report (sy_receiver s))" and fd = fd, OF this fs rd rest(1,2) sm rest(3,4) wt] show ?thesis
    unfolding system_exit_0(1) [OF inv ex] by blast
qed

subsection \<open>A sample system\<close>

text \<open>The sender of \<open>pair_send\<close> and the receiver of \<open>Recv_Main\<close>.\<close>

lemma whole_ok: "transfer_ok (pair_send []) sample_recv (\<lambda>(g, b). g @ b) fst id id (=) [1, 2, 3]"
  using pair_ok [of "[]"] by (simp add: transfer_ok_def pair_recv_def)

lemma whole_header: "header_sent (pair_send []) [1, 2, 3] (length (split_slices (en_flags (pair_send [])) [1, 2, 3]))"
proof -
  have c: "en_connected sample_env" by (simp add: sample_env_def)
  have "SendingFlow_Init zstd_util_start True (en_stale sample_env) 3 1 (en_header_rs sample_env) = Done (0, util_init, [83, 51, 35, 49])"
    using env_init c by (simp add: env_file)
  then show ?thesis unfolding pair_plan
    by (simp add: header_sent_def pair_send_def c file_header_def ascii_S_def ascii_hash_def print_nat.simps)
qed

lemma whole_short: "length (file_header (of_nat (length [1, 2, 3 :: byte])) (of_nat (length (split_slices (en_flags (pair_send [])) [1, 2, 3])))) \<le> 17"
  unfolding pair_plan by (simp add: file_header_def print_nat.simps)

lemma whole_slices: "slices_out (pair_send []) [1, 2, 3]"
proof -
  have "en_slice_connected (pair_send []) 0" by (simp add: pair_send_def sample_env_def)
  then show ?thesis using env_slice_sent unfolding slices_out_def Let_def pair_plan pair_same by auto
qed

lemma whole_verdict: "verdict_ok (pair_send []) 5 sample_recv"
proof -
  have f: "en_fs (pair_send []) = [''in'' \<mapsto> [1, 2, 3]]" "en_path (pair_send []) = ''in''" by (simp_all add: pair_send_def sample_env_def)
  have g: "re_arrow sample_recv = low_arrow" "re_nan sample_recv = []" "sint (re_rows sample_recv) = 2" "re_ws sample_recv = replicate 500 9"
    by (simp_all add: sample_recv_def)
  have rd: "readDataFromFile low_arrow [''in'' \<mapsto> [1, 2, 3]] ''in'' 2
    = Inr \<lparr>cv_total = 2, stringVal1 = replicate 2 (replicate 20 97), intVal = [1, 1], doubles = [dbl_zero, dbl_zero],
        stringVal2 = [[98, 98], [98, 98]]\<rparr>" using low_read [of "[''in'' \<mapsto> [1, 2, 3]]" "''in''"] by simp
  have w: "one_batch 406 5 (en_waits (pair_send []))"
    by (simp add: pair_send_def)
  show ?thesis unfolding verdict_ok_def f g
    by (intro conjI exI [of _ "\<lparr>cv_total = 2, stringVal1 = replicate 2 (replicate 20 97), intVal = [1, 1],
        doubles = [dbl_zero, dbl_zero], stringVal2 = [[98, 98], [98, 98]]\<rparr>"] rd w)
      (simp_all add: samples_def list_all_iff)
qed

lemma whole_jobs: "1 \<le> sint (jobs (en_flags (pair_send [])))" "1 \<le> sint (re_jobs sample_recv)" "re_connected sample_recv"
  by (simp_all add: pair_send_def sample_env_def sample_recv_def)

end
