(* ===== verification/Without_Jobs.thy ===== *)
theory Without_Jobs
  imports Whole_System
begin

section \<open>A sender without jobs\<close>

text \<open>
  With \<open>--jobs=0\<close> and a \<open>--segment_size\<close> the sender has one worker, and its supervisor takes it. The
  supervisor waits for a report, the report waits for the slices, and the slices wait for the worker:
  the two programs wait for each other for ever, unless an \<open>epoll_wait\<close> fails.
\<close>

subsection \<open>The sender\<close>

definition sup_holds :: "sender \<Rightarrow> bool" where
  "sup_holds ss \<longleftrightarrow> one_task SupTask (sd_pool ss) \<and> sd_results ss = (\<lambda>_. None) \<and> sd_verdict ss = None \<and> (\<forall>e. sd_main ss \<noteq> Died e)"

lemma held_main:
  assumes st: "main_step (with_report en fd out) ss = Some ss'" and inv: "send_inv (with_report en fd out) ss" and held: "sup_holds ss"
    and hs: "header_sent en data (length (split_slices (en_flags en) data))" and ef: "en_file en = (data, of_nat (length data))"
    and pl: "plan_ok (en_flags en) data"
  shows "sup_holds ss'"
proof -
  have mi: "main_inv (with_report en fd out) ss" and ui: "util_inv (sd_main ss) (sd_util ss)"
    using inv held by (auto simp: send_inv_def sup_holds_def)
  have nf: "tp_finished (sd_pool ss) = []" using held by (simp add: sup_holds_def one_task_def)
  obtain fl where sp: "SplitFile (en_flags en) data (of_nat (length data)) = Some (Inr (split_slices (en_flags en) data, fl))"
    by (rule plan_split [OF pl])
  show ?thesis
  proof (cases "sd_main ss")
    case AtSplit
    then show ?thesis using st held sp ef by (auto simp: main_step_def with_report_fields sup_holds_def)
  next
    case AtInit
    then have "sd_slices ss = split_slices (en_flags en) data" "sd_util ss = zstd_util_start"
      using mi ui sp ef by (auto simp: main_inv_def Let_def with_report_fields util_inv_def)
    then show ?thesis using st held hs ef AtInit by (auto simp: main_step_def with_report_fields header_sent_def sup_holds_def)
  next
    case (AtEnqueue j)
    then show ?thesis using st held by (auto simp: main_step_def sup_holds_def one_task_client split: if_splits)
  next
    case AtWaitSup
    then show ?thesis using st nf by (simp add: main_step_def)
  next
    case (AtReturn r)
    then show ?thesis using st held by (auto simp: main_step_def sup_holds_def one_task_client)
  qed (use st held in \<open>auto simp: main_step_def sup_holds_def split: if_splits\<close>)
qed

lemma held_step:
  assumes st: "send_step (with_report en fd out) ss ss'" and inv: "send_inv (with_report en fd out) ss" and held: "sup_holds ss"
    and hs: "header_sent en data (length (split_slices (en_flags en) data))" and ef: "en_file en = (data, of_nat (length data))"
    and pl: "plan_ok (en_flags en) data" and v: "sd_verdict ss' = None"
  shows "sup_holds ss'"
  using st
proof cases
  case main
  then show ?thesis by (rule held_main [OF _ inv held hs ef pl])
next
  case (exec t)
  have "pool_inv (sd_pool ss)" using inv held by (auto simp: send_inv_def sup_holds_def main_inv_def Let_def)
  then have "t = SupTask" using one_task_busy [of SupTask "sd_pool ss" t] exec held by (simp add: sup_holds_def)
  then show ?thesis using exec v by (auto simp: exec_supervise_def split: ss_result.splits)
next
  case (work p)
  have "pool_inv (sd_pool ss)" using inv held by (auto simp: send_inv_def sup_holds_def main_inv_def Let_def)
  moreover have "SupTask \<notin> set (tp_finished p)" using work held by (auto simp: list_all_iff sup_holds_def)
  ultimately show ?thesis using one_task_work [of SupTask "sd_pool ss" p] work held by (simp add: sup_holds_def)
next
  case (spurious i)
  then show ?thesis using held by (simp add: sup_holds_def one_task_client)
qed

text \<open>It does not get to its end.\<close>

lemma held_not_ended:
  assumes "send_inv (with_report en fd out) ss" and "sender_ok ss" and "sup_holds ss"
  shows "sd_main ss \<noteq> Ended r"
proof
  assume e: "sd_main ss = Ended r"
  then have "r = 0" "main_inv (with_report en fd out) ss" using assms(1,2) by (auto simp: sender_ok_def send_inv_def)
  then have "SupTask \<in> set (tp_finished (sd_pool ss))" using e by (simp add: main_inv_def Let_def)
  then show False using assms(3) by (simp add: sup_holds_def one_task_def)
qed

subsection \<open>The system\<close>

fun sup_waits :: "recv_sup \<Rightarrow> bool" where
  "sup_waits (SupWait pc) \<longleftrightarrow> pc \<noteq> SupGo"
| "sup_waits _ \<longleftrightarrow> False"

definition stuck :: "nat \<Rightarrow> system \<Rightarrow> bool" where
  "stuck n s \<longleftrightarrow> sup_holds (sy_sender s) \<and> (\<forall>k < length (sy_net s). 0 < k \<longrightarrow> sy_net s ! k = None) \<and>
     rv_report (sy_receiver s) = [] \<and> sup_waits (rv_sup (sy_receiver s)) \<and> (\<forall>e. rv_exit (sy_receiver s) \<noteq> Some (RDied e)) \<and>
     unat (sv_slices_num (rv_server (sy_receiver s))) \<le> n"

text \<open>The only handler there can be is that of the header, and it does not crash.\<close>

lemma header_no_crash:
  assumes "header_start sv" and "k \<noteq> 0"
  shows "conn_round z map_file sv (fresh_conn (Some (file_header n k))) w \<noteq> Some (Inl e)"
proof (cases w)
  case (WakeIn rs)
  note it = recv_iter_header [OF assms(1), of z map_file rs "file_header n k"]
  show ?thesis
  proof (cases "read_loop 17 (file_header n k) [] rs")
    case (ReadDone bs rest rs')
    then have "bs @ rest = file_header n k" using read_loop_conserves by fastforce
    then have "prefix bs (file_header n k)" by (metis prefixI)
    then have "recv_file_header map_file (sv\<lparr>sv_reads_max_bytes := 17\<rparr>) bs \<noteq> Fault e" by (rule header_no_fault [OF _ assms(2)])
    then show ?thesis using it WakeIn ReadDone by (auto simp: conn_round_def fresh_conn_def split: recv_result.splits)
  qed (use it WakeIn in \<open>simp_all add: conn_round_def fresh_conn_def\<close>)
qed (simp_all add: conn_round_def recv_iter_def fresh_conn_def)

lemma stuck_round:
  assumes ok: "transfer_ok en ren taken given fed made frame data" and inv: "system_inv en fd ren data s"
    and stuck: "stuck n s" and busy: "Busy (TRecv (int k)) \<in> set (tp_threads (rv_pool (sy_receiver s)))"
    and live: "cn_result (rv_conns (sy_receiver s) ! k) = None"
  shows "k = 0" and "header_start (rv_server (sy_receiver s))"
    and "rv_conns (sy_receiver s) ! 0 = fresh_conn (Some (file_header (of_nat (length data)) (of_nat (length (split_slices (en_flags en) data)))))"
proof -
  let ?n = "length (split_slices (en_flags en) data)" and ?ren = "with_net ren (sy_net s)" and ?rs = "sy_receiver s"
  let ?h = "file_header (of_nat (length data)) (of_nat ?n)"
  have jb: "0 \<le> sint (re_jobs ?ren)" "sint (re_jobs ?ren) < int_max" using ok by (simp_all add: transfer_ok_def with_net_fields)
  have run: "rtranclp (recv_step ?ren) (recv_init ?ren) ?rs" and net: "net_ok en data (sy_net s)" using inv by (simp_all add: system_inv_def)
  have b: "recv_base ?ren ?rs" using reach_recv_inv [OF run jb] by (simp add: recv_inv_def)
  note made = accepted_made [OF b busy_accepted(1) [OF b busy]]
  show k: "k = 0" using made(2,3) stuck by (auto simp: stuck_def)
  have h: "sy_net s ! 0 = Some ?h" using made(2) net k by (auto simp: net_ok_def Let_def)
  obtain ys where cb: "carried_by ?ren fed made frame (en_flags en) data ys" by (rule system_carried [OF ok net h])
  have "transfer_inv ?ren fed made frame (en_flags en) data ys ?rs" by (rule reach_transfer_inv(2) [OF cb run jb])
  then show "header_start (rv_server ?rs)" and "rv_conns ?rs ! 0 = fresh_conn (Some ?h)"
    using live k h by (auto simp: transfer_inv_def untouched_def failed_result_def with_net_fields)
qed

lemma stuck_count:
  assumes ok: "transfer_ok en ren taken given fed made frame data" and inv: "system_inv en fd ren data s"
    and stuck: "stuck (length (split_slices (en_flags en) data)) s" and st: "recv_step (with_net ren (sy_net s)) (sy_receiver s) rs"
  shows "unat (sv_slices_num (rv_server rs)) \<le> length (split_slices (en_flags en) data)"
  using st
proof cases
  case (round k w sv c)
  let ?n = "length (split_slices (en_flags en) data)" and ?ren = "with_net ren (sy_net s)" and ?rs = "sy_receiver s"
  let ?h = "file_header (of_nat (length data)) (of_nat ?n)"
  note sr = stuck_round [OF ok inv stuck round(3,4)]
  have few: "?n < 2 ^ 16" using ok by (simp add: transfer_ok_def)
  have old: "unat (sv_slices_num (rv_server ?rs)) \<le> ?n" using stuck by (simp add: stuck_def)
  have cr: "conn_round (re_zstd ?ren) (recv_map ?ren) (rv_server ?rs) (fresh_conn (Some ?h)) w = Some (Inr (sv, c))"
    using round(5) sr by simp
  have "(header_start sv \<and> (c = fresh_conn (Some ?h) \<or> failed_result (cn_result c))) \<or>
    (\<exists>bs. cn_pending (fresh_conn (Some ?h)) = bs @ cn_pending c \<and> cn_result c = Some (Returned 0)
        \<and> recv_file_header (recv_map ?ren) ((rv_server ?rs)\<lparr>sv_reads_max_bytes := 17\<rparr>) bs = Return 0 sv)"
    by (rule early_round [OF sr(2) _ _ cr]) (simp_all add: fresh_fields)
  then have "unat (sv_slices_num sv) \<le> ?n"
  proof
    assume "header_start sv \<and> (c = fresh_conn (Some ?h) \<or> failed_result (cn_result c))"
    then have "sv_start sv = MapNull" by (simp add: header_start_def)
    moreover have "counters (rv_server ?rs) sv" by (rule conn_round_counters [OF cr]) (simp add: recv_map_not_null)
    ultimately show ?thesis using old by (auto simp: counters_def)
  next
    assume "\<exists>bs. cn_pending (fresh_conn (Some ?h)) = bs @ cn_pending c \<and> cn_result c = Some (Returned 0)
        \<and> recv_file_header (recv_map ?ren) ((rv_server ?rs)\<lparr>sv_reads_max_bytes := 17\<rparr>) bs = Return 0 sv"
    then obtain bs where bs: "?h = bs @ cn_pending c" "recv_file_header (recv_map ?ren) ((rv_server ?rs)\<lparr>sv_reads_max_bytes := 17\<rparr>) bs = Return 0 sv"
      by (auto simp: fresh_conn_def)
    have "unat (sv_slices_num sv) \<le> unat (of_nat ?n :: u16)" by (rule header_count [OF bs(2)]) (use bs(1) in \<open>auto simp: prefix_def\<close>)
    also have "\<dots> = ?n" using few by (simp add: unat_u16_of_nat)
    finally show ?thesis .
  qed
  then show ?thesis using round(1) by simp
next
  case supervise
  then show ?thesis using sup_next_keeps [OF supervise(3)] stuck by (simp add: stuck_def)
qed (use stuck in \<open>auto simp: stuck_def\<close>)

text \<open>With one connection the condition of the supervisor does not hold.\<close>

lemma one_not_ready:
  assumes "c \<le> 1" and "unat k \<le> 83 * 256"
  shows "\<not> supervise_ready (of_nat c) k"
proof
  assume r: "supervise_ready (of_nat c) k"
  have "c = 0 \<or> c = 1" using assms(1) by auto
  then have "unat (scast (of_nat c :: u16) :: u32) \<le> 1" by auto
  moreover have "unat (k + 1) = unat k + 1" using assms(2) unat_add_lem [of k 1] by simp
  ultimately have "unat k = 0" using r by (simp add: supervise_ready_def word_le_nat_alt)
  then show False using r by (simp add: supervise_ready_def unsigned_eq_0_iff)
qed

lemma stuck_sup_next:
  assumes "sup_waits (rv_sup r)" and "sup_next en (rv_sup r) r = Some r'"
    and "\<not> supervise_ready (sv_slices_th_num (rv_server r)) (sv_slices_num (rv_server r))"
  shows "sup_waits (rv_sup r') \<and> rv_report r' = rv_report r \<and> rv_exit r' = rv_exit r"
proof -
  obtain pc where pc: "rv_sup r = SupWait pc" "pc \<noteq> SupGo" using assms(1) by (cases "rv_sup r") auto
  then show ?thesis using assms(2,3) by (cases pc) auto
qed

lemma stuck_receives:
  assumes ok: "transfer_ok en ren taken given fed made frame data" and inv: "system_inv en fd ren data s"
    and stuck: "stuck (length (split_slices (en_flags en) data)) s" and st: "recv_step (with_net ren (sy_net s)) (sy_receiver s) rs"
  shows "stuck (length (split_slices (en_flags en) data)) (s\<lparr>sy_receiver := rs\<rparr>)"
proof -
  let ?n = "length (split_slices (en_flags en) data)" and ?ren = "with_net ren (sy_net s)" and ?rs = "sy_receiver s"
  have jb: "0 \<le> sint (re_jobs ?ren)" "sint (re_jobs ?ren) < int_max" using ok by (simp_all add: transfer_ok_def with_net_fields)
  have run: "rtranclp (recv_step ?ren) (recv_init ?ren) ?rs" using inv by (simp add: system_inv_def)
  have b: "recv_base ?ren ?rs" using reach_recv_inv [OF run jb] by (simp add: recv_inv_def)
  have few: "?n \<le> 83 * 256" using ok by (simp add: transfer_ok_def)
  have count: "unat (sv_slices_num (rv_server rs)) \<le> ?n" by (rule stuck_count [OF ok inv stuck st])
  have old: "sup_waits (rv_sup ?rs)" "rv_report ?rs = []" "\<forall>e. rv_exit ?rs \<noteq> Some (RDied e)" "unat (sv_slices_num (rv_server ?rs)) \<le> ?n"
    using stuck by (simp_all add: stuck_def)
  have "sup_waits (rv_sup rs) \<and> rv_report rs = [] \<and> (\<forall>e. rv_exit rs \<noteq> Some (RDied e))"
    using st
  proof cases
    case notify
    then show ?thesis using old by (auto simp: recv_notify_def)
  next
    case (crash k w e)
    have "(of_nat ?n :: u16) \<noteq> 0" using ok plan_count(2) by (simp add: transfer_ok_def)
    then show ?thesis using header_no_crash stuck_round [OF ok inv stuck crash(3,4)] crash(5) by metis
  next
    case supervise
    have "k = 0" if "k \<in> set (rv_res ?rs)" for k using accepted_made [OF b that] stuck by (auto simp: stuck_def)
    then have "set (rv_res ?rs) \<subseteq> {0}" by auto
    then have "card (set (rv_res ?rs)) \<le> 1" using card_mono [of "{0}" "set (rv_res ?rs)"] by simp
    moreover have "distinct (rv_res ?rs)" "sv_slices_th_num (rv_server ?rs) = of_nat (counted ?rs)" using b by (simp_all add: recv_base_def)
    ultimately have "\<not> supervise_ready (sv_slices_th_num (rv_server ?rs)) (sv_slices_num (rv_server ?rs))"
      using one_not_ready [of "counted ?rs"] old(4) few by (simp add: distinct_card counted_def)
    from stuck_sup_next [OF old(1) supervise(3) this] old show ?thesis by simp
  qed (use old in auto)
  then show ?thesis using stuck count by (simp add: stuck_def)
qed

lemma stuck_sends:
  assumes ok: "transfer_ok en ren taken given fed made frame data" and hs: "header_sent en data (length (split_slices (en_flags en) data))"
    and inv: "system_inv en fd ren data s" and stuck: "stuck n s" and rn: "\<not> reads_none (en_waits en)"
    and st: "send_step (with_report en fd (rv_report (sy_receiver s))) (sy_sender s) ss"
    and v: "sd_verdict ss = sd_verdict (sy_sender s) \<or> rv_report (sy_receiver s) \<noteq> [] \<or> reads_none (en_waits en)"
  shows "stuck n (system_net (net_grow en ss (sy_net s)) (s\<lparr>sy_sender := ss\<rparr>))"
proof -
  have ef: "en_file en = (data, of_nat (length data))" and pl: "plan_ok (en_flags en) data"
    using ok file_read by (auto simp: transfer_ok_def)
  have "sd_verdict ss = None" using v rn stuck by (auto simp: stuck_def sup_holds_def)
  moreover have "send_inv (with_report en fd (rv_report (sy_receiver s))) (sy_sender s)" using inv by (simp add: system_inv_def)
  ultimately have held: "sup_holds ss" using held_step [OF st _ _ hs ef pl] stuck by (simp add: stuck_def)
  have "offered en ss k = None" if "0 < k" for k
    using that held by (cases k) (simp_all add: offered_def slice_connection_def sup_holds_def)
  then have "net_grow en ss (sy_net s) ! k = None" if "k < length (sy_net s)" "0 < k" for k
    using net_grow_nth [OF that(1), of en ss] stuck that by (simp add: stuck_def)
  then show ?thesis using held stuck by (simp add: stuck_def system_net_def deliver_fields net_grow_def)
qed

lemma stuck_start:
  assumes "jobs (en_flags en) = 0" and "0 \<le> sint (re_jobs ren)" and "sint (re_jobs ren) < int_max"
  shows "stuck n (system_start en ren)"
proof -
  have z: "pool_size 0 = Inr 1" using pool_size_jobs [of 0] by (simp add: int_max_def)
  have "sup_holds (send_start en)" using assms(1)
    by (simp add: sup_holds_def send_start_def z one_task_def enqueue_def make_pool_def)
  moreover have "rv_report (recv_init en') = []" "sv_slices_num (rv_server (recv_init en')) = 0" "sup_waits (rv_sup (recv_init en'))"
    for en' :: "'b recv_env" by (simp_all add: recv_init_def Let_def server_init_def split: sum.split)
  moreover have "rv_exit (recv_init (with_net ren net)) = None" for net
    by (simp add: recv_init_def Let_def with_net_fields pool_size_jobs [OF assms(2,3)])
  ultimately show ?thesis by (simp add: stuck_def system_start_def Let_def del: replicate_Suc)
qed

lemma stuck_always:
  assumes ok: "transfer_ok en ren taken given fed made frame data" and hs: "header_sent en data (length (split_slices (en_flags en) data))"
    and j: "jobs (en_flags en) = 0" and rn: "\<not> reads_none (en_waits en)" and reach: "rtranclp (system_step en fd ren) (system_start en ren) s"
  shows "stuck (length (split_slices (en_flags en) data)) s \<and> system_inv en fd ren data s"
  using reach
proof (induction rule: rtranclp_induct)
  case base
  have "0 \<le> sint (re_jobs ren)" "sint (re_jobs ren) < int_max" using ok by (simp_all add: transfer_ok_def)
  then show ?case using stuck_start [OF j] system_start_inv [OF transfer_system_ok [OF ok hs]] by blast
next
  case (step s t)
  have inv: "system_inv en fd ren data t"
    using whole_system.reach_inv [OF _ rtranclp.rtrancl_into_rtrancl [OF step(1,2)]] transfer_system_ok [OF ok hs] by blast
  from step(2) have "stuck (length (split_slices (en_flags en) data)) t"
  proof cases
    case (sends ss)
    then show ?thesis using stuck_sends [OF ok hs _ _ rn] step(3) by blast
  next
    case (breaks e j full out)
    then show ?thesis using step(3) by (simp add: stuck_def sup_holds_def)
  next
    case (receives rs)
    then show ?thesis using stuck_receives [OF ok] step(3) by blast
  qed
  then show ?case using inv by simp
qed

subsection \<open>Properties\<close>

text \<open>(C38) With no jobs the sender's supervisor occupies the only worker. Let the header go out whole, and let the
  supervisor's waits not fail before there is a connection to read from. In no state that the two programs can reach
  has a slice been compressed or a slice connection been made. The sender neither exits nor dies. The receiver
  never reports and its supervisor stays in its wait; it does not die either, and the only end it can come to is
  that its own \<open>epoll_wait\<close> fails.\<close>

theorem system_without_jobs:
  assumes "transfer_ok en ren taken given fed made frame data" and "header_sent en data (length (split_slices (en_flags en) data))"
    and "jobs (en_flags en) = 0" and "\<not> reads_none (en_waits en)" and "rtranclp (system_step en fd ren) (system_start en ren) s"
  shows "alive (sd_main (sy_sender s)) \<and> sd_results (sy_sender s) = (\<lambda>_. None) \<and> list_all (\<lambda>c. c = None) (tl (sy_net s)) \<and>
    rv_report (sy_receiver s) = [] \<and> sup_waits (rv_sup (sy_receiver s)) \<and> rv_exit (sy_receiver s) \<in> {None, Some RExited}"
proof -
  have st: "stuck (length (split_slices (en_flags en) data)) s" and inv: "system_inv en fd ren data s"
    using stuck_always [OF assms] by simp_all
  have "sd_main (sy_sender s) \<noteq> Ended r" for r
    by (rule held_not_ended [of en fd "rv_report (sy_receiver s)"]) (use st inv in \<open>simp_all add: stuck_def system_inv_def\<close>)
  then have "alive (sd_main (sy_sender s))" using st by (cases "sd_main (sy_sender s)") (auto simp: stuck_def sup_holds_def)
  moreover have "list_all (\<lambda>c. c = None) (tl (sy_net s))" using st by (auto simp: stuck_def list_all_length nth_tl)
  moreover have "rv_exit (sy_receiver s) \<in> {None, Some RExited}"
  proof (cases "rv_exit (sy_receiver s)")
    case (Some x)
    then show ?thesis using st by (cases x) (auto simp: stuck_def)
  qed simp
  ultimately show ?thesis using st by (simp add: stuck_def sup_holds_def)
qed

definition lazy_send :: "(byte list \<times> byte list) send_env" where
  "lazy_send = (pair_send [])\<lparr>en_flags := \<lparr>segment_size = 3, jobs = 0\<rparr>\<rparr>"

lemma lazy_split: "SplitFile (en_flags lazy_send) [1, 2, 3] 3 = Some (Inr ([FileSlice [1, 2, 3] 0 3 3], \<lparr>segment_size = 3, jobs = 0\<rparr>))"
  by (simp add: lazy_send_def SplitFile_def split_flags_def int_max_def split_loop.simps)

lemma lazy_plan:
  "split_slices (en_flags lazy_send) [1, 2, 3] = [FileSlice [1, 2, 3] 0 3 3]" "plan_ok (en_flags lazy_send) [1, 2, 3]"
proof -
  show sl: "split_slices (en_flags lazy_send) [1, 2, 3] = [FileSlice [1, 2, 3] 0 3 3]" using lazy_split by (simp add: split_slices_def)
  have "split_ok (en_flags lazy_send, [1, 2, 3])" by (simp add: split_ok_def split_flags_def int_max_def lazy_send_def)
  then show "plan_ok (en_flags lazy_send) [1, 2, 3]" using sl by (simp add: plan_ok_def FileSlice_def)
qed

lemma lazy_ok: "transfer_ok lazy_send sample_recv (\<lambda>(g, b). g @ b) fst id id (=) [1, 2, 3]"
proof -
  have "length (split_slices (en_flags lazy_send) [1, 2, 3]) \<le> 83 * 256" by (simp add: lazy_plan)
  moreover have "0 \<le> sint (jobs (en_flags lazy_send))" "sint (jobs (en_flags lazy_send)) < int_max" by (simp_all add: lazy_send_def int_max_def)
  ultimately show ?thesis using whole_ok lazy_plan(2) unfolding transfer_ok_def by (simp add: lazy_send_def)
qed

lemma lazy_header: "header_sent lazy_send [1, 2, 3] (length (split_slices (en_flags lazy_send) [1, 2, 3]))"
  using whole_header unfolding lazy_plan pair_plan by (simp add: header_sent_def lazy_send_def)

theorem system_without_jobs_witness:
  "\<exists>s. rtranclp (system_step lazy_send 5 sample_recv) (system_start lazy_send sample_recv) s \<and> sd_main (sy_sender s) = AtInit \<and>
    alive (sd_main (sy_sender s)) \<and> rv_report (sy_receiver s) = []"
proof -
  let ?s = "system_start lazy_send sample_recv"
  have f: "en_file lazy_send = ([1, 2, 3], 3)" using pair_same(1) [of "[]"] by (simp add: lazy_send_def en_file_def)
  have z: "pool_size 0 = Inr 1" using pool_size_jobs [of 0] by (simp add: int_max_def)
  have m: "sd_main (send_start lazy_send) = AtSplit" "sd_verdict (send_start lazy_send) = None" by (simp_all add: send_start_def lazy_send_def z)
  let ?ss = "(send_start lazy_send)\<lparr>sd_main := AtInit, sd_slices := [FileSlice [1, 2, 3] 0 3 3]\<rparr>"
  have "main_step (with_report lazy_send 5 (rv_report (sy_receiver ?s))) (send_start lazy_send) = Some ?ss"
    using lazy_split by (simp add: main_step_def m with_report_fields f)
  then have "send_step (with_report lazy_send 5 (rv_report (sy_receiver ?s))) (sy_sender ?s) ?ss"
    by (intro send_step.main) (simp add: system_start_def Let_def)
  then have "system_step lazy_send 5 sample_recv ?s (system_net (net_grow lazy_send ?ss (sy_net ?s)) (?s\<lparr>sy_sender := ?ss\<rparr>))"
    by (rule system_step.sends) (simp add: system_start_def Let_def)
  then have r: "rtranclp (system_step lazy_send 5 sample_recv) ?s (system_net (net_grow lazy_send ?ss (sy_net ?s)) (?s\<lparr>sy_sender := ?ss\<rparr>))"
    (is "rtranclp _ _ ?t") by (rule r_into_rtranclp)
  have "\<not> reads_none (en_waits lazy_send)" "jobs (en_flags lazy_send) = 0" by (simp_all add: lazy_send_def pair_send_def)
  from system_without_jobs [OF lazy_ok lazy_header this(2,1) r] have "alive (sd_main (sy_sender ?t))" "rv_report (sy_receiver ?t) = []" by blast+
  moreover have "sd_main (sy_sender ?t) = AtInit" by (simp add: system_net_def)
  ultimately show ?thesis using r by blast
qed

end
