(* ===== verification/Slice_Memory.thy ===== *)
theory Slice_Memory
  imports Zstd_Compress "HOL-Library.Sublist"
begin

section \<open>The memory of a slice\<close>

text \<open>
  The other theories keep the bytes of a chunk in the chunk. Here chunks hold pointers, into a heap of
  blocks that are allocated and freed: the constructors that move, the destructor, and who owns the
  output buffer while a slice is compressed. The pointer version is shown to do what \<open>Compress\<close> of
  \<open>Zstd_Compress\<close> does, without a bad access and without a double free; and it loses a buffer.
\<close>

subsection \<open>The heap\<close>

text \<open>The live blocks by address, the next address, and what fresh memory holds.\<close>

record heap =
  hp_block :: "nat \<Rightarrow> byte list option"
  hp_next :: nat
  hp_garbage :: "nat \<Rightarrow> nat \<Rightarrow> byte"

definition c_malloc :: "nat \<Rightarrow> heap \<Rightarrow> nat \<times> heap" where
  "c_malloc n h = (hp_next h, h\<lparr>hp_block := (hp_block h)(hp_next h \<mapsto> map (hp_garbage h (hp_next h)) [0..<n]), hp_next := Suc (hp_next h)\<rparr>)"

text \<open>\<open>free\<close> of a null pointer does nothing.\<close>

fun c_free :: "nat option \<Rightarrow> heap \<Rightarrow> c_error + heap" where
  "c_free None h = Inr h"
| "c_free (Some a) h = (if hp_block h a = None then Inl BadFree else Inr (h\<lparr>hp_block := (hp_block h)(a := None)\<rparr>))"

fun heap_write :: "nat option \<Rightarrow> nat \<Rightarrow> byte list \<Rightarrow> heap \<Rightarrow> c_error + heap" where
  "heap_write None off bs h = Inl NullDeref"
| "heap_write (Some a) off bs h =
     (case hp_block h a of
        None \<Rightarrow> Inl UseAfterFree
      | Some m \<Rightarrow> map_sum id (\<lambda>m'. h\<lparr>hp_block := (hp_block h)(a \<mapsto> m')\<rparr>) (mem_write m off bs))"

subsection \<open>Chunks and slices with pointers\<close>

record chunk_obj =
  co_c :: "nat option"
  co_len :: u64

text \<open>The move constructor of \<open>Chunk\<close>: the new chunk and what is left of the old one.\<close>

definition Chunk_move :: "chunk_obj \<Rightarrow> chunk_obj \<times> chunk_obj" where
  "Chunk_move c = (c, c\<lparr>co_c := None\<rparr>)"

text \<open>\<open>slice_\<close> is a null pointer after a move.\<close>

record slice_obj =
  so_slice :: "byte list option"
  so_index :: u16
  so_len :: u64
  so_split_len :: u64
  so_c_len :: u64
  so_buf :: "chunk_obj list"

definition FileSlice_new :: "byte list \<Rightarrow> u16 \<Rightarrow> u64 \<Rightarrow> u64 \<Rightarrow> slice_obj" where
  "FileSlice_new buf index len split_len =
     \<lparr>so_slice = Some buf, so_index = index, so_len = len, so_split_len = split_len, so_c_len = 0, so_buf = []\<rparr>"

text \<open>The move constructor of \<open>FileSlice\<close>. A list that was moved from is empty.\<close>

definition FileSlice_move :: "slice_obj \<Rightarrow> slice_obj \<times> slice_obj" where
  "FileSlice_move f = (f, f\<lparr>so_slice := None, so_buf := []\<rparr>)"

text \<open>The destructor.\<close>

fun free_chunks :: "chunk_obj list \<Rightarrow> heap \<Rightarrow> c_error + heap" where
  "free_chunks [] h = Inr h"
| "free_chunks (c # cs) h = (case c_free (co_c c) h of Inl e \<Rightarrow> Inl e | Inr h' \<Rightarrow> free_chunks cs h')"

definition FileSlice_destroy :: "slice_obj \<Rightarrow> heap \<Rightarrow> c_error + heap" where
  "FileSlice_destroy f h = free_chunks (so_buf f) h"

definition write_all :: "nat option \<Rightarrow> (nat \<times> byte list) list \<Rightarrow> heap \<Rightarrow> c_error + heap" where
  "write_all p ws h = fold (\<lambda>(off, bs) r. case r of Inl e \<Rightarrow> Inl e | Inr h' \<Rightarrow> heap_write p off bs h') ws (Inr h)"

definition LinkCompressChunk_obj :: "slice_obj \<Rightarrow> chunk_obj \<Rightarrow> heap \<Rightarrow> c_error + heap \<times> slice_obj" where
  "LinkCompressChunk_obj f c h =
     (case (if so_buf f = []
            then (case c_malloc slice_header_len h of (b, h1) \<Rightarrow>
                   map_sum id (\<lambda>h2. (h2, [\<lparr>co_c = Some b, co_len = of_nat slice_header_len\<rparr>]))
                     (write_all (Some b) [(0, replicate slice_header_len 0), (0, put_u16 (so_index f)), (2, put_u32 (ucast (so_len f)))] h1))
            else Inr (h, so_buf f)) of
        Inl e \<Rightarrow> Inl e
      | Inr (h', buf) \<Rightarrow> Inr (h', f\<lparr>so_buf := buf @ [fst (Chunk_move c)]\<rparr>))"

definition SetChunkLinksHeader_obj :: "slice_obj \<Rightarrow> u64 \<Rightarrow> heap \<Rightarrow> c_error + heap \<times> slice_obj" where
  "SetChunkLinksHeader_obj f compressed_size h =
     (case so_buf f of
        [] \<Rightarrow> Inl BadMemory
      | c # cs \<Rightarrow>
          map_sum id (\<lambda>h'. (h', f\<lparr>so_c_len := compressed_size\<rparr>))
            (heap_write (co_c c) 6 (put_u32 (ucast compressed_size)) h))"

subsection \<open>Compressing with pointers\<close>

text \<open>One round: the library fills the buffer, the buffer goes to the slice, and there is a new one.\<close>

definition link_round :: "u64 \<Rightarrow> byte list \<Rightarrow> nat \<Rightarrow> slice_obj \<Rightarrow> heap \<Rightarrow> c_error + heap \<times> slice_obj \<times> nat" where
  "link_round buff_out_size out buff_out f h =
     (case heap_write (Some buff_out) 0 out h of
        Inl e \<Rightarrow> Inl e
      | Inr h1 \<Rightarrow>
          (case LinkCompressChunk_obj f \<lparr>co_c = Some buff_out, co_len = of_nat (length out)\<rparr> h1 of
             Inl e \<Rightarrow> Inl e
           | Inr (h2, f') \<Rightarrow> (case c_malloc (unat buff_out_size) h2 of (b, h3) \<Rightarrow> Inr (h3, f', b))))"

partial_function (option) compress_piece_obj ::
    "'c zstd_c \<Rightarrow> u64 \<Rightarrow> bool \<Rightarrow> byte list \<Rightarrow> 'c \<Rightarrow> nat \<Rightarrow> slice_obj \<Rightarrow> u64 \<Rightarrow> nat \<Rightarrow> heap \<Rightarrow>
     (c_error + heap \<times> slice_obj \<times> ('c \<times> u64 \<times> nat) option) option" where
  "compress_piece_obj z buff_out_size last_chunk input cctx pos f compressed_size buff_out h =
     (case ZSTD_compressStream2 z cctx (unat buff_out_size) (drop pos input)
             (if last_chunk then ZSTD_e_end else ZSTD_e_continue) of
        None \<Rightarrow> Some (map_sum id (\<lambda>h'. (h', f, None)) (c_free (Some buff_out) h))
      | Some (cctx', consumed, out, remaining) \<Rightarrow>
          (case link_round buff_out_size out buff_out f h of
             Inl e \<Rightarrow> Some (Inl e)
           | Inr (h', f', buff_out') \<Rightarrow>
               (let pos' = pos + consumed;
                    compressed_size' = compressed_size + of_nat (length out);
                    finished = (if last_chunk then remaining = 0 else pos' = length input)
                in if finished then Some (Inr (h', f', Some (cctx', compressed_size', buff_out')))
                   else compress_piece_obj z buff_out_size last_chunk input cctx' pos' f' compressed_size' buff_out' h')))"

definition GetBuf_obj :: "slice_obj \<Rightarrow> u64" where
  "GetBuf_obj f = ucast (so_index f) * so_split_len f"

fun slice_read :: "byte list option \<Rightarrow> nat \<Rightarrow> nat \<Rightarrow> c_error + byte list" where
  "slice_read None off n = Inl NullDeref"
| "slice_read (Some mem) off n = mem_read mem off n"

partial_function (option) compress_loop_obj ::
    "'c zstd_c \<Rightarrow> u64 \<Rightarrow> u64 \<Rightarrow> 'c \<Rightarrow> u64 \<Rightarrow> slice_obj \<Rightarrow> u64 \<Rightarrow> nat \<Rightarrow> heap \<Rightarrow> (c_error + heap \<times> slice_obj \<times> nat option) option" where
  "compress_loop_obj z buff_in_size buff_out_size cctx index f compressed_size buff_out h =
     (let last_chunk = (index + buff_in_size \<ge> so_len f);
          act_buff_in_size = (if last_chunk then so_len f - index else buff_in_size)
      in case slice_read (so_slice f) (unat (GetBuf_obj f) + unat index) (unat act_buff_in_size) of
           Inl e \<Rightarrow> Some (Inl e)
         | Inr input \<Rightarrow>
             Option.bind (compress_piece_obj z buff_out_size last_chunk input cctx 0 f compressed_size buff_out h)
               (\<lambda>r. case r of
                  Inl e \<Rightarrow> Some (Inl e)
                | Inr (h', f', None) \<Rightarrow> Some (Inr (h', f', None))
                | Inr (h', f', Some (cctx', compressed_size', buff_out')) \<Rightarrow>
                    (if last_chunk
                     then Some (map_sum id (\<lambda>(h2, f2). (h2, f2, Some buff_out')) (SetChunkLinksHeader_obj f' compressed_size' h'))
                     else compress_loop_obj z buff_in_size buff_out_size cctx' (index + act_buff_in_size)
                            f' compressed_size' buff_out' h')))"

text \<open>\<open>Compress\<close> returns the pointer, null on failure.\<close>

definition Compress_obj :: "'c zstd_c \<Rightarrow> zstd_util \<Rightarrow> slice_obj \<Rightarrow> heap \<Rightarrow> (c_error + heap \<times> slice_obj \<times> nat option) option" where
  "Compress_obj z u f h =
     (let small = so_len f < 1024 * 1024;
          buff_in_size = (if small then ZSTD_CStreamInSize z else 6815744);
          buff_out_size = (if small then ZSTD_CStreamOutSize z else 4 * 1024 * 1024)
      in case c_malloc (unat buff_out_size) h of (buff_out, h1) \<Rightarrow>
        (let failed = map_sum id (\<lambda>h'. (h', f, None)) (c_free (Some buff_out) h1)
         in case ZSTD_createCCtx z of
              None \<Rightarrow> Some failed
            | Some cctx \<Rightarrow>
                (case args u of
                   None \<Rightarrow> Some (Inl UseAfterFree)
                 | Some a \<Rightarrow>
                     (case ZSTD_CCtx_setParameter z cctx ZSTD_c_compressionLevel (c_level a) of
                        None \<Rightarrow> Some failed
                      | Some cctx1 \<Rightarrow>
                          (case ZSTD_CCtx_setParameter z cctx1 ZSTD_c_checksumFlag 0 of
                             None \<Rightarrow> Some failed
                           | Some cctx2 \<Rightarrow> compress_loop_obj z buff_in_size buff_out_size cctx2 0 f 0 buff_out h1)))))"

subsection \<open>Heap lemmas\<close>

definition heap_ok :: "heap \<Rightarrow> bool" where
  "heap_ok h \<longleftrightarrow> (\<forall>a. hp_block h a \<noteq> None \<longrightarrow> a < hp_next h)"

text \<open>Since \<open>h0\<close> the blocks \<open>as\<close>, and no others, have been added.\<close>

definition added :: "heap \<Rightarrow> heap \<Rightarrow> nat list \<Rightarrow> bool" where
  "added h0 h as \<longleftrightarrow> distinct as \<and> heap_ok h \<and> (\<forall>a \<in> set as. hp_block h0 a = None \<and> hp_block h a \<noteq> None) \<and>
     (\<forall>a. a \<notin> set as \<longrightarrow> hp_block h a = hp_block h0 a)"

lemma write_block:
  "hp_block h a = Some m \<Longrightarrow> off + length bs \<le> length m \<Longrightarrow>
    heap_write (Some a) off bs h = Inr (h\<lparr>hp_block := (hp_block h)(a \<mapsto> put_bytes m off bs)\<rparr>)"
  by (simp add: mem_write_def)

lemma added_block:
  assumes "added h0 h as" and "a \<in> set as"
  shows "added h0 (h\<lparr>hp_block := (hp_block h)(a \<mapsto> m)\<rparr>) as"
  using assms by (auto simp: added_def heap_ok_def)

lemma added_malloc:
  assumes "added h0 h as" and "c_malloc n h = (b, h')" and "heap_ok h0"
  shows "added h0 h' (b # as)" and "b \<notin> set as" and "\<And>a. a \<noteq> b \<Longrightarrow> hp_block h' a = hp_block h a"
    and "\<exists>m. hp_block h' b = Some m \<and> length m = n"
proof -
  have b: "b = hp_next h" and h': "h' = h\<lparr>hp_block := (hp_block h)(b \<mapsto> map (hp_garbage h b) [0..<n]), hp_next := Suc b\<rparr>"
    using assms(2) by (auto simp: c_malloc_def)
  have fresh: "hp_block h b = None" using assms(1) b by (auto simp: added_def heap_ok_def)
  then show nb: "b \<notin> set as" using assms(1) by (auto simp: added_def)
  then have "hp_block h0 b = None" using assms(1) fresh by (auto simp: added_def)
  then show "added h0 h' (b # as)" using assms(1) nb h' b by (auto simp: added_def heap_ok_def less_SucI)
  show "\<exists>m. hp_block h' b = Some m \<and> length m = n" using h' by simp
  show "hp_block h' a = hp_block h a" if "a \<noteq> b" for a using h' that by simp
qed

lemma added_free:
  assumes "added h0 h (a # as)"
  shows "\<exists>h'. c_free (Some a) h = Inr h' \<and> added h0 h' as"
  using assms by (auto simp: added_def heap_ok_def)

lemma added_perm: "added h0 h as \<Longrightarrow> set as = set bs \<Longrightarrow> distinct bs \<Longrightarrow> added h0 h bs"
  by (simp add: added_def)

subsection \<open>What a slice with pointers stands for\<close>

definition chunk_at :: "heap \<Rightarrow> chunk_obj \<Rightarrow> chunk \<Rightarrow> bool" where
  "chunk_at h c d \<longleftrightarrow> (\<exists>a m. co_c c = Some a \<and> hp_block h a = Some m \<and> prefix (c_mem d) m) \<and> co_len c = c_size d"

definition slice_at :: "heap \<Rightarrow> slice_obj \<Rightarrow> file_slice \<Rightarrow> bool" where
  "slice_at h f fs \<longleftrightarrow> so_slice f = Some (fs_slice fs) \<and> so_index f = fs_index fs \<and> so_len f = fs_len fs \<and>
     so_split_len f = fs_split_len fs \<and> so_c_len f = fs_c_len fs \<and> list_all2 (chunk_at h) (so_buf f) (fs_compress_buf fs) \<and>
     (fs_compress_buf fs \<noteq> [] \<longrightarrow> length (c_mem (hd (fs_compress_buf fs))) = 10)"

definition addrs :: "slice_obj \<Rightarrow> nat list" where
  "addrs f = map (the \<circ> co_c) (so_buf f)"

lemma chunk_at_cong: "chunk_at h c d \<Longrightarrow> hp_block h' (the (co_c c)) = hp_block h (the (co_c c)) \<Longrightarrow> chunk_at h' c d"
  by (auto simp: chunk_at_def)

lemma slice_at_cong:
  assumes "slice_at h f fs" and "\<And>a. a \<in> set (addrs f) \<Longrightarrow> hp_block h' a = hp_block h a"
  shows "slice_at h' f fs"
proof -
  have "list_all2 (chunk_at h') (so_buf f) (fs_compress_buf fs)"
    by (rule list.rel_mono_strong [of "chunk_at h"]) (use assms in \<open>auto simp: slice_at_def addrs_def intro: chunk_at_cong\<close>)
  then show ?thesis using assms(1) by (simp add: slice_at_def)
qed

text \<open>A slice that has nothing to do with its compression any more.\<close>

definition holds :: "heap \<Rightarrow> heap \<Rightarrow> slice_obj \<Rightarrow> bool" where
  "holds h0 h f \<longleftrightarrow> added h0 h (addrs f) \<and> (\<forall>c \<in> set (so_buf f). co_c c \<noteq> None)"

lemma slice_at_pointers: "slice_at h f fs \<Longrightarrow> \<forall>c \<in> set (so_buf f). co_c c \<noteq> None"
  by (auto simp: slice_at_def chunk_at_def list_all2_conv_all_nth in_set_conv_nth) blast

text \<open>A slice that is being compressed: it owns its chunks, and there is an output buffer besides.\<close>

definition working :: "heap \<Rightarrow> u64 \<Rightarrow> heap \<Rightarrow> slice_obj \<Rightarrow> file_slice \<Rightarrow> nat \<Rightarrow> bool" where
  "working h0 osz h f fs b \<longleftrightarrow> slice_at h f fs \<and> added h0 h (b # addrs f) \<and> (\<exists>m. hp_block h b = Some m \<and> length m = unat osz)"

lemma put_all: "length src = length m \<Longrightarrow> put_bytes m 0 src = src"
  by (simp add: put_bytes_def)

lemma header_obj:
  assumes "slice_at h f fs" and "added h0 h (b # addrs f)" and "heap_ok h0" and "so_buf f = []"
  shows "\<exists>h2 a. (case c_malloc slice_header_len h of (b, h1) \<Rightarrow>
      map_sum id (\<lambda>h2. (h2, [\<lparr>co_c = Some b, co_len = of_nat slice_header_len\<rparr>]))
        (write_all (Some b) [(0, replicate slice_header_len 0), (0, put_u16 (so_index f)), (2, put_u32 (ucast (so_len f)))] h1))
      = Inr (h2, [\<lparr>co_c = Some a, co_len = 10\<rparr>]) \<and> added h0 h2 [a, b] \<and> hp_block h2 b = hp_block h b \<and>
      hp_block h2 a = Some (c_mem (link_header fs))"
proof -
  obtain a h1 where m: "c_malloc slice_header_len h = (a, h1)" by (cases "c_malloc slice_header_len h")
  have ad: "added h0 h [b]" using assms(2,4) by (simp add: addrs_def)
  note ml = added_malloc [OF ad m assms(3)]
  obtain g where g: "hp_block h1 a = Some g" "length g = 10" using ml(4) by (auto simp: slice_header_len_def)
  let ?m1 = "replicate 10 0 :: byte list" and ?m2 = "put_bytes (replicate 10 0) 0 (put_u16 (fs_index fs))"
  let ?h = "\<lambda>x. h1\<lparr>hp_block := (hp_block h1)(a \<mapsto> x)\<rparr>"
  have l: "length (put_u16 i) = 2" "length (put_u32 j) = 4" for i j by (simp_all add: wire16.length_enc wire32.length_enc)
  have w1: "heap_write (Some a) 0 ?m1 h1 = Inr (?h ?m1)" using write_block [OF g(1), of 0 ?m1] g(2) by (simp add: put_all)
  have w2: "heap_write (Some a) 0 (put_u16 (fs_index fs)) (?h ?m1) = Inr (?h ?m2)"
    using write_block [of "?h ?m1" a ?m1 0 "put_u16 (fs_index fs)"] l by simp
  have l2: "length ?m2 = 10" using length_put_bytes [of 0 "put_u16 (fs_index fs)" ?m1] l by simp
  have w3: "heap_write (Some a) 2 (put_u32 (ucast (fs_len fs))) (?h ?m2) = Inr (?h (c_mem (link_header fs)))"
    using write_block [of "?h ?m2" a ?m2 2 "put_u32 (ucast (fs_len fs))"] l l2 by (simp add: link_header_def slice_header_len_def Let_def)
  have f: "so_index f = fs_index fs" "so_len f = fs_len fs" using assms(1) by (simp_all add: slice_at_def)
  have w: "write_all (Some a) [(0, replicate slice_header_len 0), (0, put_u16 (so_index f)), (2, put_u32 (ucast (so_len f)))] h1
      = Inr (?h (c_mem (link_header fs)))"
    unfolding write_all_def f using w1 w2 w3 by (simp add: slice_header_len_def del: heap_write.simps)
  have "added h0 (?h (c_mem (link_header fs))) [a, b]" by (rule added_block [OF ml(1)]) simp
  moreover have "a \<noteq> b" using ml(2) by simp
  ultimately show ?thesis using m w ml(3) [of b]
    by (intro exI [of _ "?h (c_mem (link_header fs))"] exI [of _ a]) (auto simp: slice_header_len_def)
qed

lemma link_obj:
  assumes sl: "slice_at h f fs" and ad: "added h0 h (b # addrs f)" and ok: "heap_ok h0"
    and c: "co_c c = Some b" "chunk_at h c d"
  shows "\<exists>h' f'. LinkCompressChunk_obj f c h = Inr (h', f') \<and> slice_at h' f' (LinkCompressChunk fs d) \<and> added h0 h' (addrs f')"
proof (cases "so_buf f = []")
  case True
  have e: "fs_compress_buf fs = []" using sl True by (simp add: slice_at_def)
  from header_obj [OF sl ad ok True] obtain h2 a where
    w: "(case c_malloc slice_header_len h of (b, h1) \<Rightarrow>
        map_sum id (\<lambda>h2. (h2, [\<lparr>co_c = Some b, co_len = of_nat slice_header_len\<rparr>]))
          (write_all (Some b) [(0, replicate slice_header_len 0), (0, put_u16 (so_index f)), (2, put_u32 (ucast (so_len f)))] h1))
        = Inr (h2, [\<lparr>co_c = Some a, co_len = 10\<rparr>])"
    and a: "added h0 h2 [a, b]" "hp_block h2 b = hp_block h b" "hp_block h2 a = Some (c_mem (link_header fs))" by blast
  let ?f = "f\<lparr>so_buf := [\<lparr>co_c = Some a, co_len = 10\<rparr>, c]\<rparr>"
  have l: "LinkCompressChunk_obj f c h = Inr (h2, ?f)"
    unfolding LinkCompressChunk_obj_def using True w by (simp add: Chunk_move_def)
  have "chunk_at h2 c d" by (rule chunk_at_cong [OF c(2)]) (use c(1) a(2) in simp)
  moreover have "chunk_at h2 \<lparr>co_c = Some a, co_len = 10\<rparr> (link_header fs)"
    using a(3) by (simp add: chunk_at_def) (simp add: link_header_def slice_header_len_def Let_def)
  moreover have "length (c_mem (link_header fs)) = 10" by (simp add: link_header_bytes)
  ultimately have "slice_at h2 ?f (LinkCompressChunk fs d)" using sl e by (simp add: slice_at_def LinkCompressChunk_def)
  moreover have "added h0 h2 (addrs ?f)" using a(1) c(1) by (simp add: addrs_def)
  ultimately show ?thesis using l by blast
next
  case False
  let ?f = "f\<lparr>so_buf := so_buf f @ [c]\<rparr>"
  have ne: "fs_compress_buf fs \<noteq> []" using sl False by (auto simp: slice_at_def)
  have "LinkCompressChunk_obj f c h = Inr (h, ?f)" using False by (simp add: LinkCompressChunk_obj_def Chunk_move_def)
  moreover have "slice_at h ?f (LinkCompressChunk fs d)"
    using sl ne c(2) by (simp add: slice_at_def LinkCompressChunk_def list_all2_appendI)
  moreover have "added h0 h (addrs ?f)" by (rule added_perm [OF ad]) (use c(1) ad in \<open>auto simp: addrs_def added_def\<close>)
  ultimately show ?thesis by blast
qed

lemma link_round_ok:
  assumes w: "working h0 osz h f fs b" and ok: "heap_ok h0" and len: "length out \<le> unat osz"
  shows "\<exists>h' f' b'. link_round osz out b f h = Inr (h', f', b') \<and>
    working h0 osz h' f' (LinkCompressChunk fs \<lparr>c_mem = out, c_size = of_nat (length out)\<rparr>) b'"
proof -
  let ?c = "\<lparr>co_c = Some b, co_len = of_nat (length out)\<rparr>" and ?d = "\<lparr>c_mem = out, c_size = of_nat (length out)\<rparr>"
  obtain m where m: "hp_block h b = Some m" "length m = unat osz" using w by (auto simp: working_def)
  have sl: "slice_at h f fs" and ad: "added h0 h (b # addrs f)" using w by (simp_all add: working_def)
  let ?h = "h\<lparr>hp_block := (hp_block h)(b \<mapsto> put_bytes m 0 out)\<rparr>"
  have wr: "heap_write (Some b) 0 out h = Inr ?h" by (rule write_block [OF m(1)]) (use m(2) len in simp)
  have "slice_at ?h f fs" by (rule slice_at_cong [OF sl]) (use ad in \<open>auto simp: added_def\<close>)
  moreover have "added h0 ?h (b # addrs f)" by (rule added_block [OF ad]) simp
  moreover have "chunk_at ?h ?c ?d" by (simp add: chunk_at_def put_bytes_def)
  ultimately obtain h2 f' where l: "LinkCompressChunk_obj f ?c ?h = Inr (h2, f')" "slice_at h2 f' (LinkCompressChunk fs ?d)"
    "added h0 h2 (addrs f')" using link_obj [OF _ _ ok, of ?h f fs b ?c ?d] by auto
  obtain b' h3 where ma: "c_malloc (unat osz) h2 = (b', h3)" by (cases "c_malloc (unat osz) h2")
  note ml = added_malloc [OF l(3) ma ok]
  have "slice_at h3 f' (LinkCompressChunk fs ?d)" by (rule slice_at_cong [OF l(2)]) (use ml(2,3) in metis)
  then have "working h0 osz h3 f' (LinkCompressChunk fs ?d) b'" using ml(1,4) by (simp add: working_def)
  then show ?thesis using wr l(1) ma by (simp add: link_round_def)
qed

lemma set_header_obj:
  assumes w: "working h0 osz h f fs b" and st: "SetChunkLinksHeader fs n = Inr fs'"
  shows "\<exists>h' f'. SetChunkLinksHeader_obj f n h = Inr (h', f') \<and> working h0 osz h' f' fs' b"
proof -
  have sl: "slice_at h f fs" and ad: "added h0 h (b # addrs f)" using w by (simp_all add: working_def)
  obtain d ds where d: "fs_compress_buf fs = d # ds" using st by (cases "fs_compress_buf fs") (simp_all add: SetChunkLinksHeader_def)
  then obtain c cs where c: "so_buf f = c # cs" "chunk_at h c d" "list_all2 (chunk_at h) cs ds" and len: "length (c_mem d) = 10"
    using sl by (auto simp: slice_at_def list_all2_Cons2)
  let ?u = "put_u32 (ucast n)"
  have ul: "length ?u = 4" by (simp add: wire32.length_enc)
  have fs': "fs' = fs\<lparr>fs_c_len := n, fs_compress_buf := d\<lparr>c_mem := put_bytes (c_mem d) 6 ?u\<rparr> # ds\<rparr>"
    using st d len ul by (simp add: SetChunkLinksHeader_def mem_write_def)
  obtain a m r where a: "co_c c = Some a" "hp_block h a = Some m" and r: "m = c_mem d @ r" and cl: "co_len c = c_size d"
    using c(2) by (auto simp: chunk_at_def prefix_def)
  have pb: "put_bytes m 6 ?u = put_bytes (c_mem d) 6 ?u @ r" using r len ul by (simp add: put_bytes_def)
  let ?h = "h\<lparr>hp_block := (hp_block h)(a \<mapsto> put_bytes m 6 ?u)\<rparr>" and ?f = "f\<lparr>so_c_len := n\<rparr>"
  have "SetChunkLinksHeader_obj f n h = Inr (?h, ?f)"
    unfolding SetChunkLinksHeader_obj_def c(1) using write_block [OF a(2), of 6 ?u] a(1) r len ul by (simp del: heap_write.simps)
  moreover have ab: "a \<noteq> b" "a \<notin> (the \<circ> co_c) ` set cs" using ad c(1) a(1) by (auto simp: added_def addrs_def)
  have "added h0 ?h (b # addrs f)" by (rule added_block [OF ad]) (use c(1) a(1) in \<open>simp add: addrs_def\<close>)
  moreover have "chunk_at ?h c (d\<lparr>c_mem := put_bytes (c_mem d) 6 ?u\<rparr>)"
    using a(1) cl pb by (simp add: chunk_at_def)
  moreover have "list_all2 (chunk_at ?h) cs ds"
  proof (rule list.rel_mono_strong [OF c(3)])
    fix x y assume x: "x \<in> set cs" "chunk_at h x y"
    have "the (co_c x) \<noteq> a" using ab(2) x(1) by auto
    then show "chunk_at ?h x y" by (intro chunk_at_cong [OF x(2)]) simp
  qed
  moreover have "length (put_bytes (c_mem d) 6 ?u) = 10" using length_put_bytes [of 6 ?u "c_mem d"] len ul by simp
  ultimately have "working h0 osz ?h ?f fs' b"
    using w sl d c(1) ab(1) by (simp add: working_def slice_at_def fs' addrs_def)
  then show ?thesis using \<open>SetChunkLinksHeader_obj f n h = Inr (?h, ?f)\<close> by blast
qed

lemma set_header_fail:
  assumes "working h0 osz h f fs b" and "SetChunkLinksHeader fs n = Inl e"
  shows "SetChunkLinksHeader_obj f n h = Inl e"
proof (cases "fs_compress_buf fs")
  case Nil
  then show ?thesis using assms by (simp add: working_def slice_at_def SetChunkLinksHeader_def SetChunkLinksHeader_obj_def)
next
  case (Cons d ds)
  then have "length (c_mem d) = 10" using assms(1) by (simp add: working_def slice_at_def)
  then show ?thesis using assms(2) Cons by (simp add: SetChunkLinksHeader_def mem_write_def wire32.length_enc)
qed

subsection \<open>Compressing with pointers is compressing\<close>

definition piece_same where
  "piece_same h0 z (osz :: u64) lst input cctx pos fs (cs :: u64) r \<longleftrightarrow>
     (\<forall>h f b. working h0 osz h f fs b \<longrightarrow>
        (case r of
           None \<Rightarrow> \<exists>h' f'. compress_piece_obj z osz lst input cctx pos f cs b h = Some (Inr (h', f', None)) \<and> holds h0 h' f'
         | Some (c', fs', cs') \<Rightarrow>
             \<exists>h' f' b'. compress_piece_obj z osz lst input cctx pos f cs b h = Some (Inr (h', f', Some (c', cs', b'))) \<and>
               working h0 osz h' f' fs' b'))"

lemma piece_same_error:
  assumes "ZSTD_compressStream2 z cctx (unat osz) (drop pos input) (if lst then ZSTD_e_end else ZSTD_e_continue) = None"
  shows "piece_same h0 z osz lst input cctx pos fs cs None"
  unfolding piece_same_def option.case
proof (intro allI impI)
  fix h f b assume w: "working h0 osz h f fs b"
  then obtain h' where "c_free (Some b) h = Inr h'" "added h0 h' (addrs f)" using added_free unfolding working_def by blast
  then have "c_free (Some b) h = Inr h'" "holds h0 h' f" using w slice_at_pointers by (auto simp: holds_def working_def)
  then show "\<exists>h' f'. compress_piece_obj z osz lst input cctx pos f cs b h = Some (Inr (h', f', None)) \<and> holds h0 h' f'"
    using assms by (subst compress_piece_obj.simps) (simp del: c_free.simps)
qed

lemma piece_same_round:
  assumes ct: "compressor_contract z taken given frame" and ok: "heap_ok h0"
    and st: "ZSTD_compressStream2 z cctx (unat osz) (drop pos input) (if lst then ZSTD_e_end else ZSTD_e_continue) = Some (c1, k, out, rem)"
    and nxt: "if (if lst then rem = 0 else pos + k = length input)
      then r = Some (c1, LinkCompressChunk fs \<lparr>c_mem = out, c_size = of_nat (length out)\<rparr>, cs + of_nat (length out))
      else piece_same h0 z osz lst input c1 (pos + k) (LinkCompressChunk fs \<lparr>c_mem = out, c_size = of_nat (length out)\<rparr>) (cs + of_nat (length out)) r"
  shows "piece_same h0 z osz lst input cctx pos fs cs r"
  unfolding piece_same_def
proof (intro allI impI)
  let ?fs = "LinkCompressChunk fs \<lparr>c_mem = out, c_size = of_nat (length out)\<rparr>"
  fix h f b assume w: "working h0 osz h f fs b"
  have "length out \<le> unat osz" by (rule compressor_step(2) [OF ct st])
  from link_round_ok [OF w ok this] obtain h1 f1 b1 where l: "link_round osz out b f h = Inr (h1, f1, b1)" "working h0 osz h1 f1 ?fs b1" by blast
  have u: "compress_piece_obj z osz lst input cctx pos f cs b h =
      (if (if lst then rem = 0 else pos + k = length input) then Some (Inr (h1, f1, Some (c1, cs + of_nat (length out), b1)))
       else compress_piece_obj z osz lst input c1 (pos + k) f1 (cs + of_nat (length out)) b1 h1)"
    by (subst compress_piece_obj.simps) (simp add: st l(1) Let_def)
  show "case r of
           None \<Rightarrow> \<exists>h' f'. compress_piece_obj z osz lst input cctx pos f cs b h = Some (Inr (h', f', None)) \<and> holds h0 h' f'
         | Some (c', fs', cs') \<Rightarrow>
             \<exists>h' f' b'. compress_piece_obj z osz lst input cctx pos f cs b h = Some (Inr (h', f', Some (c', cs', b'))) \<and>
               working h0 osz h' f' fs' b'"
  proof (cases "if lst then rem = 0 else pos + k = length input")
    case True
    then show ?thesis using nxt u l(2) by simp
  next
    case False
    then have eq: "compress_piece_obj z osz lst input cctx pos f cs b h
        = compress_piece_obj z osz lst input c1 (pos + k) f1 (cs + of_nat (length out)) b1 h1" using u by simp
    have "piece_same h0 z osz lst input c1 (pos + k) ?fs (cs + of_nat (length out)) r" using nxt False by simp
    then show ?thesis unfolding eq using l(2) unfolding piece_same_def by blast
  qed
qed

lemma compress_piece_same:
  assumes ct: "compressor_contract z taken given frame" and ok: "heap_ok h0"
    and ret: "compress_piece z osz lst input cctx pos fs cs = Some r"
  shows "piece_same h0 z osz lst input cctx pos fs cs r"
proof -
  have "compressor_contract z taken given frame \<longrightarrow> piece_same h0 z osz lst input cctx pos fs cs r"
  proof (rule compress_piece.raw_induct [where P = "\<lambda>z osz lst input cctx pos fs cs r.
      compressor_contract z taken given frame \<longrightarrow> piece_same h0 z osz lst input cctx pos fs cs r", OF _ ret], rule impI, goal_cases)
    case (1 f z osz lst input cctx pos fs cs r)
    show ?case
    proof (cases "ZSTD_compressStream2 z cctx (unat osz) (drop pos input) (if lst then ZSTD_e_end else ZSTD_e_continue)")
      case None
      then show ?thesis using 1(2) piece_same_error [OF None] by auto
    next
      case (Some t)
      obtain c1 k out rem where t: "t = (c1, k, out, rem)" by (cases t)
      show ?thesis by (rule piece_same_round [OF 1(3) ok Some [unfolded t]])
          (use 1(1,2,3) Some t in \<open>auto simp: Let_def split: if_splits\<close>)
    qed
  qed
  with ct show ?thesis by blast
qed

text \<open>What the pointer version returns, for a result of the other.\<close>

definition same_result :: "heap \<Rightarrow> u64 \<Rightarrow> c_error + file_slice option \<Rightarrow> (c_error + heap \<times> slice_obj \<times> nat option) option \<Rightarrow> bool" where
  "same_result h0 osz r r' \<longleftrightarrow>
     (case r of
        Inl e \<Rightarrow> r' = Some (Inl e)
      | Inr None \<Rightarrow> \<exists>h f. r' = Some (Inr (h, f, None)) \<and> holds h0 h f
      | Inr (Some fs) \<Rightarrow> \<exists>h f b. r' = Some (Inr (h, f, Some b)) \<and> working h0 osz h f fs b)"

definition loop_same where
  "loop_same h0 z insz osz cctx index fs cs r \<longleftrightarrow>
     (\<forall>h f b. working h0 osz h f fs b \<longrightarrow> same_result h0 osz r (compress_loop_obj z insz osz cctx index f cs b h))"

lemma loop_same_step:
  assumes ct: "compressor_contract z taken given frame" and ok: "heap_ok h0"
    and lst: "lst \<longleftrightarrow> index + insz \<ge> fs_len fs" and act: "act = (if lst then fs_len fs - index else insz)"
    and rd: "mem_read (fs_slice fs) (unat (GetBuf fs) + unat index) (unat act) = Inr input"
    and pc: "compress_piece z osz lst input cctx 0 fs cs = Some p"
    and nxt: "case p of None \<Rightarrow> r = Inr None
      | Some (c1, fs1, cs1) \<Rightarrow> if lst then r = map_sum id Some (SetChunkLinksHeader fs1 cs1) else loop_same h0 z insz osz c1 (index + act) fs1 cs1 r"
  shows "loop_same h0 z insz osz cctx index fs cs r"
  unfolding loop_same_def
proof (intro allI impI)
  fix h f b assume w: "working h0 osz h f fs b"
  have f: "so_len f = fs_len fs" "GetBuf_obj f = GetBuf fs" "so_slice f = Some (fs_slice fs)"
    using w by (simp_all add: working_def slice_at_def GetBuf_obj_def GetBuf_def)
  note same = compress_piece_same [OF ct ok pc, unfolded piece_same_def, rule_format, OF w]
  note u = compress_loop_obj.simps [of z insz osz cctx index f cs b h, unfolded f Let_def, folded lst, folded act, unfolded slice_read.simps rd sum.case]
  show "same_result h0 osz r (compress_loop_obj z insz osz cctx index f cs b h)"
  proof (cases p)
    case None
    then show ?thesis using same nxt by (auto simp: u same_result_def)
  next
    case (Some t)
    obtain c1 fs1 cs1 where t: "p = Some (c1, fs1, cs1)" using Some by (cases t) simp
    obtain h1 f1 b1 where o: "compress_piece_obj z osz lst input cctx 0 f cs b h = Some (Inr (h1, f1, Some (c1, cs1, b1)))"
      and w1: "working h0 osz h1 f1 fs1 b1" using same t by auto
    show ?thesis
    proof (cases lst)
      case True
      have r: "r = map_sum id Some (SetChunkLinksHeader fs1 cs1)" using nxt t True by simp
      show ?thesis
      proof (cases "SetChunkLinksHeader fs1 cs1")
        case (Inl e)
        then show ?thesis using r o True set_header_fail [OF w1 Inl] by (simp add: u same_result_def)
      next
        case (Inr fs')
        from set_header_obj [OF w1 Inr] obtain h2 f2 where "SetChunkLinksHeader_obj f1 cs1 h1 = Inr (h2, f2)" "working h0 osz h2 f2 fs' b1" by blast
        then show ?thesis using r o True Inr by (simp add: u same_result_def)
      qed
    next
      case False
      then have "loop_same h0 z insz osz c1 (index + act) fs1 cs1 r" using nxt t by simp
      then show ?thesis using o False w1 by (simp add: u loop_same_def)
    qed
  qed
qed

lemma compress_loop_same:
  assumes ct: "compressor_contract z taken given frame" and ok: "heap_ok h0"
    and ret: "compress_loop z insz osz cctx index fs cs = Some r"
  shows "loop_same h0 z insz osz cctx index fs cs r"
proof -
  have "compressor_contract z taken given frame \<longrightarrow> loop_same h0 z insz osz cctx index fs cs r"
  proof (rule compress_loop.raw_induct [where P = "\<lambda>z insz osz cctx index fs cs r.
      compressor_contract z taken given frame \<longrightarrow> loop_same h0 z insz osz cctx index fs cs r", OF _ ret], rule impI, goal_cases)
    case (1 f z insz osz cctx index fs cs r)
    let ?lst = "index + insz \<ge> fs_len fs"
    let ?act = "if ?lst then fs_len fs - index else insz"
    show ?case
    proof (cases "mem_read (fs_slice fs) (unat (GetBuf fs) + unat index) (unat ?act)")
      case (Inl e)
      then have r: "r = Inl e" using 1(2) by (simp add: Let_def)
      show ?thesis
        unfolding loop_same_def
      proof (intro allI impI)
        fix h f b assume "working h0 osz h f fs b"
        then have f: "so_len f = fs_len fs" "GetBuf_obj f = GetBuf fs" "so_slice f = Some (fs_slice fs)"
          by (simp_all add: working_def slice_at_def GetBuf_obj_def GetBuf_def)
        note u = compress_loop_obj.simps [of z insz osz cctx index f cs b h, unfolded f Let_def slice_read.simps Inl sum.case]
        show "same_result h0 osz r (compress_loop_obj z insz osz cctx index f cs b h)" by (simp add: u r same_result_def)
      qed
    next
      case (Inr input)
      with 1(2) obtain p where p: "compress_piece z osz ?lst input cctx 0 fs cs = Some p"
        by (auto simp: Let_def bind_eq_Some_conv)
      show ?thesis
        by (rule loop_same_step [OF 1(3) ok refl refl Inr p])
          (use 1(1,2,3) Inr p in \<open>auto simp: Let_def split: option.splits if_splits\<close>)
    qed
  qed
  with ct show ?thesis by blast
qed

lemma Compress_same:
  assumes ct: "compressor_contract z taken given frame" and ok: "heap_ok h" and ret: "Compress z u fs = Some r"
    and sl: "slice_at h f fs" and e: "so_buf f = []"
  shows "same_result h (if fs_len fs < 1024 * 1024 then ZSTD_CStreamOutSize z else 4 * 1024 * 1024) r (Compress_obj z u f h)"
proof -
  let ?insz = "if fs_len fs < 1024 * 1024 then ZSTD_CStreamInSize z else 6815744"
  let ?osz = "if fs_len fs < 1024 * 1024 then ZSTD_CStreamOutSize z else 4 * 1024 * 1024"
  obtain b h1 where m: "c_malloc (unat ?osz) h = (b, h1)" by (cases "c_malloc (unat ?osz) h")
  have "added h h []" using ok by (simp add: added_def)
  note ml = added_malloc [OF this m ok]
  have len: "so_len f = fs_len fs" using sl by (simp add: slice_at_def)
  have ad: "addrs f = []" using e by (simp add: addrs_def)
  have "slice_at h1 f fs" by (rule slice_at_cong [OF sl]) (simp add: ad)
  then have w: "working h ?osz h1 f fs b" using ml(1,4) ad by (simp add: working_def)
  obtain h2 where fr: "c_free (Some b) h1 = Inr h2" "added h h2 []" using added_free [OF ml(1)] by auto
  have failed: "same_result h ?osz (Inr None) (Some (map_sum id (\<lambda>h'. (h', f, None)) (c_free (Some b) h1)))"
    using fr ad e by (simp add: same_result_def holds_def)
  note obj = Compress_obj_def [of z u f h, unfolded Let_def len m prod.case]
  note abs = ret [unfolded Compress_def Let_def]
  show ?thesis
  proof (cases "ZSTD_createCCtx z")
    case None
    then show ?thesis using abs failed by (simp add: obj del: c_free.simps)
  next
    case (Some cctx)
    note c = Some
    show ?thesis
    proof (cases "args u")
      case None
      then show ?thesis using abs c by (auto simp: obj same_result_def)
    next
      case (Some a)
      note a = Some
      show ?thesis
      proof (cases "ZSTD_CCtx_setParameter z cctx ZSTD_c_compressionLevel (c_level a)")
        case None
        then show ?thesis using abs c a failed by (simp add: obj del: c_free.simps)
      next
        case (Some cctx1)
        note c1 = Some
        show ?thesis
        proof (cases "ZSTD_CCtx_setParameter z cctx1 ZSTD_c_checksumFlag 0")
          case None
          then show ?thesis using abs c a c1 failed by (simp add: obj del: c_free.simps)
        next
          case (Some cctx2)
          then have "compress_loop z ?insz ?osz cctx2 0 fs 0 = Some r" using abs c a c1 by simp
          from compress_loop_same [OF ct ok this, unfolded loop_same_def, rule_format, OF w] show ?thesis
            using c a c1 Some by (simp add: obj)
        qed
      qed
    qed
  qed
qed

subsection \<open>The destructor\<close>

lemma free_chunks_ok:
  "added h0 h (map (the \<circ> co_c) cs @ as) \<Longrightarrow> \<forall>c \<in> set cs. co_c c \<noteq> None \<Longrightarrow> \<exists>h'. free_chunks cs h = Inr h' \<and> added h0 h' as"
proof (induction cs arbitrary: h)
  case (Cons c cs)
  obtain a where a: "co_c c = Some a" using Cons.prems(2) by auto
  then obtain h1 where h1: "c_free (Some a) h = Inr h1" "added h0 h1 (map (the \<circ> co_c) cs @ as)"
    using added_free [of h0 h a "map (the \<circ> co_c) cs @ as"] Cons.prems(1) by (auto simp: comp_def simp del: c_free.simps)
  then show ?case using Cons.IH [OF h1(2)] h1(1) Cons.prems(2) a by (simp del: c_free.simps)
qed simp

lemma free_chunks_others: "free_chunks cs h = Inr h' \<Longrightarrow> a \<notin> set (map (the \<circ> co_c) cs) \<Longrightarrow> hp_block h' a = hp_block h a"
proof (induction cs arbitrary: h)
  case (Cons c cs)
  then obtain h1 where h1: "c_free (co_c c) h = Inr h1" "free_chunks cs h1 = Inr h'" by (auto split: sum.splits)
  have "hp_block h1 a = hp_block h a" using h1(1) Cons.prems(2) by (cases "co_c c") (auto split: if_splits)
  then show ?case using Cons.IH [OF h1(2)] Cons.prems(2) by simp
qed simp

text \<open>Only the new owner frees anything after a move.\<close>

lemma moved_destroy:
  assumes "FileSlice_move f = (g, f')"
  shows "FileSlice_destroy f' h = Inr h" and "FileSlice_destroy g h = FileSlice_destroy f h" and "slice_at h g fs = slice_at h f fs"
  using assms by (auto simp: FileSlice_move_def FileSlice_destroy_def)

lemma new_slice_at: "slice_at h (FileSlice_new buf i len sl) (FileSlice buf i len sl)"
  by (simp add: slice_at_def FileSlice_new_def FileSlice_def)

subsection \<open>Properties\<close>

text \<open>(C28) \<open>Compress\<close> on pointers refines \<open>Compress\<close>: whenever the version on values returns, so does the one on
  pointers, with the same error, null for null, or a slice with the same chunks, each in a live block of
  its own; nothing else in the heap has changed, but for one new block of the size of the output
  buffer. There is no access outside a block, to a freed block or through a null pointer, and no
  double free.\<close>

theorem Compress_obj_refines:
  assumes "compressor_contract z taken given frame" and "heap_ok h"
    and "Compress z u (FileSlice buf index len split_len) = Some r"
  shows "same_result h (if len < 1024 * 1024 then ZSTD_CStreamOutSize z else 4 * 1024 * 1024) r
    (Compress_obj z u (FileSlice_new buf index len split_len) h)"
  using Compress_same [OF assms new_slice_at] by (simp add: FileSlice_new_def FileSlice_def)

definition empty_heap :: heap where
  "empty_heap = \<lparr>hp_block = (\<lambda>_. None), hp_next = 0, hp_garbage = (\<lambda>_ _. 170)\<rparr>"

lemma empty_heap_ok: "heap_ok empty_heap"
  by (simp add: heap_ok_def empty_heap_def)

theorem Compress_obj_refines_witness:
  "same_result empty_heap 3 (Inr (Some (compressed_slice (FileSlice [1, 2, 3, 4, 5, 6] 1 5 1) [[], [2, 3, 4], [5, 6]])))
    (Compress_obj store_c (snd (ZSTDCompressUtil_Init zstd_util_start)) (FileSlice_new [1, 2, 3, 4, 5, 6] 1 5 1) empty_heap)"
  using Compress_obj_refines [OF store_c_contract empty_heap_ok store_c_run] by (simp add: store_c_def)

text \<open>(C29) A leak for each slice: \<open>Compress\<close> returns the output buffer it has allocated last, and \<open>Run\<close> only looks
  whether it is null. When the slice has been compressed and its destructor has run, all that is left
  of it is that buffer, 4 MiB for a slice of 1 MiB or more. A failed compression leaves nothing.\<close>

theorem Compress_leaks:
  assumes "compressor_contract z taken given frame" and "heap_ok h"
    and "Compress z u (FileSlice buf index len split_len) = Some (Inr r)"
  shows "\<exists>h1 f h2 p. Compress_obj z u (FileSlice_new buf index len split_len) h = Some (Inr (h1, f, p)) \<and>
    FileSlice_destroy f h1 = Inr h2 \<and> (p = None \<longleftrightarrow> r = None) \<and>
    (\<forall>a. Some a \<noteq> p \<longrightarrow> hp_block h2 a = hp_block h a) \<and>
    (\<forall>a. Some a = p \<longrightarrow> hp_block h a = None \<and>
       (\<exists>m. hp_block h2 a = Some m \<and> length m = unat (if len < 1024 * 1024 then ZSTD_CStreamOutSize z else 4 * 1024 * 1024)))"
proof -
  let ?osz = "if len < 1024 * 1024 then ZSTD_CStreamOutSize z else 4 * 1024 * 1024"
  let ?o = "Compress_obj z u (FileSlice_new buf index len split_len) h"
  have same: "same_result h ?osz (Inr r) ?o"
    using Compress_same [OF assms new_slice_at] by (simp add: FileSlice_new_def FileSlice_def)
  show ?thesis
  proof (cases r)
    case None
    then obtain h1 f where o: "?o = Some (Inr (h1, f, None))" "holds h h1 f" using same by (auto simp: same_result_def)
    then obtain h2 where "free_chunks (so_buf f) h1 = Inr h2" "added h h2 []"
      using free_chunks_ok [of h h1 "so_buf f" "[]"] by (auto simp: holds_def addrs_def)
    then show ?thesis using o(1) None by (simp add: FileSlice_destroy_def added_def)
  next
    case (Some fs)
    then obtain h1 f b where o: "?o = Some (Inr (h1, f, Some b))" and w: "working h ?osz h1 f fs b" using same by (auto simp: same_result_def)
    have ad: "added h h1 (map (the \<circ> co_c) (so_buf f) @ [b])"
      by (rule added_perm [of _ _ "b # addrs f"]) (use w in \<open>auto simp: working_def added_def addrs_def\<close>)
    obtain h2 where d: "free_chunks (so_buf f) h1 = Inr h2" "added h h2 [b]"
      using free_chunks_ok [OF ad slice_at_pointers] w by (auto simp: working_def)
    have "hp_block h2 b = hp_block h1 b" using free_chunks_others [OF d(1)] ad by (simp add: added_def)
    then show ?thesis using o d w Some by (simp add: FileSlice_destroy_def added_def working_def)
  qed
qed

theorem Compress_leaks_witness:
  "\<exists>h1 f h2 a m. Compress_obj store_c (snd (ZSTDCompressUtil_Init zstd_util_start)) (FileSlice_new [1, 2, 3, 4, 5, 6] 1 5 1) empty_heap
      = Some (Inr (h1, f, Some a)) \<and>
    FileSlice_destroy f h1 = Inr h2 \<and> hp_block h2 a = Some m \<and> length m = 3"
proof -
  from Compress_leaks [OF store_c_contract empty_heap_ok store_c_run] obtain h1 f h2 p where
    o: "Compress_obj store_c (snd (ZSTDCompressUtil_Init zstd_util_start)) (FileSlice_new [1, 2, 3, 4, 5, 6] 1 5 1) empty_heap = Some (Inr (h1, f, p))"
      "FileSlice_destroy f h1 = Inr h2" "p \<noteq> None"
    and l: "\<forall>a. Some a = p \<longrightarrow> (\<exists>m. hp_block h2 a = Some m \<and> length m = 3)"
    by (auto simp: store_c_def)
  then obtain a where "p = Some a" by auto
  then show ?thesis using o l by auto
qed

end
