(* ===== verification/Multi_Listen.thy ===== *)
theory Multi_Listen
  imports Send_Supervise Thread_Pool
begin

unbundle bit_operations_syntax

section \<open>The listening experiment (demos/multi_listen)\<close>

text \<open>
  The experiment from which the receiver grew: a server that listens on two ports and runs a job for
  every connection on a pool of four workers (its threadpool.h is the pool of \<open>Thread_Pool\<close>), and a
  client that sends records of 30 bytes. A job reads what is there into a buffer on its stack and
  ends when it finds \<open>quit\<close> in it. This theory holds the parts; \<open>Listen_Program\<close> runs the server on its
  pool, \<open>Listen_Client\<close> the client.
\<close>

subsection \<open>A job\<close>

text \<open>\<open>setnonblocking\<close>: \<open>None\<close> when it returns, otherwise the status the process exits with.\<close>

definition setnonblocking :: "s32 sys \<Rightarrow> (s32 \<Rightarrow> s32 sys) \<Rightarrow> int option" where
  "setnonblocking f_getfl f_setfl =
     (case f_getfl of
        Err _ \<Rightarrow> Some 1
      | Ok opts \<Rightarrow>
          (if sint opts < 0 then Some 1
           else (case f_setfl (opts OR O_NONBLOCK) of Err _ \<Rightarrow> Some 1 | Ok r \<Rightarrow> if sint r < 0 then Some 1 else None)))"

definition BUFF_SIZE :: nat where
  "BUFF_SIZE = 1024"

text \<open>The read loop, over the results of \<open>read\<close>: each asks for \<open>BUFF_SIZE\<close> bytes, to a place behind what
  has been read. It ends with an error or, at the end of the stream, with 0.\<close>

datatype job_reads = JRMore | JROverrun | JREnd "byte list" "byte list" "errno option"

fun job_read_loop :: "byte list \<Rightarrow> byte list \<Rightarrow> nat sys list \<Rightarrow> job_reads" where
  "job_read_loop got pend [] = JRMore"
| "job_read_loop got pend (Err e # rs) = JREnd got pend (Some e)"
| "job_read_loop got pend (Ok n # rs) =
     (let n_reads = min n (min BUFF_SIZE (length pend))
      in if n_reads = 0 then JREnd got pend None
         else if BUFF_SIZE < length got + n_reads then JROverrun
         else job_read_loop (got @ take n_reads pend) (drop n_reads pend) rs)"

text \<open>What \<open>epoll_wait\<close> brings: an error, \<open>EPOLLIN\<close> with the results of the reads, or another event.\<close>

datatype job_event = JWaitErr | JIn "nat sys list" | JOther

text \<open>\<open>EWOULDBLOCK\<close> is another name of \<open>EAGAIN\<close> on this platform. A job goes on with the bytes that are left, has closed its connection, has ended the process, has
  written outside its buffer, or is still reading.\<close>

datatype job_result = JobLoop "byte list" | JobClosed | JobExit | JobCrash c_error | JobReading

definition quit_text :: "byte list" where
  "quit_text = [113, 117, 105, 116]"

definition job_data :: "byte list \<Rightarrow> byte list \<Rightarrow> byte list \<Rightarrow> job_result" where
  "job_data opr got rest = (if contains quit_text (opr @ [58, 32] @ got) then JobClosed else JobLoop rest)"

definition job_round :: "byte list \<Rightarrow> job_event \<Rightarrow> byte list \<Rightarrow> job_result" where
  "job_round opr ev pend =
     (case ev of
        JWaitErr \<Rightarrow> JobExit
      | JOther \<Rightarrow> job_data opr [] pend
      | JIn rs \<Rightarrow>
          (case job_read_loop [] pend rs of
             JRMore \<Rightarrow> JobReading
           | JROverrun \<Rightarrow> JobCrash BadMemory
           | JREnd got rest None \<Rightarrow> JobClosed
           | JREnd got rest (Some e) \<Rightarrow>
               (if e \<noteq> EAGAIN \<and> e \<noteq> EWOULDBLOCK then JobClosed else job_data opr got rest)))"

text \<open>The loop; before each event the client may have sent more.\<close>

fun job :: "byte list \<Rightarrow> (byte list \<times> job_event) list \<Rightarrow> byte list \<Rightarrow> job_result" where
  "job opr [] pend = JobLoop pend"
| "job opr ((sent, ev) # evs) pend =
     (case job_round opr ev (pend @ sent) of JobLoop rest \<Rightarrow> job opr evs rest | r \<Rightarrow> r)"

text \<open>The beginning of a job, which makes an \<open>epoll\<close> descriptor of its own, registers the connection and
  makes it non-blocking: \<open>None\<close>, or the status the whole process exits with. A failed
  \<open>epoll_create1\<close> shows in \<open>epoll_ctl\<close>.\<close>

record job_env =
  je_epoll_ctl :: int
  je_getfl :: "s32 sys"
  je_setfl :: "s32 \<Rightarrow> s32 sys"

definition job_setup :: "job_env \<Rightarrow> int option" where
  "job_setup je = (if je_epoll_ctl je = -1 then Some 1 else setnonblocking (je_getfl je) (je_setfl je))"

definition job_run :: "byte list \<Rightarrow> job_env \<Rightarrow> (byte list \<times> job_event) list \<Rightarrow> job_result" where
  "job_run opr je evs = (case job_setup je of Some q \<Rightarrow> JobExit | None \<Rightarrow> job opr evs [])"

subsection \<open>The server\<close>

definition MAX_EVENTS :: int where
  "MAX_EVENTS = 100"

text \<open>The two listening sockets, ports 8070 and 8071: what the kernel answers, and the calls in their order,
  with the status of the process if it exits. Neither \<open>socket\<close> nor \<open>bind\<close> nor \<open>listen\<close> is checked.\<close>

record demo_env =
  de_listenfd1 :: int
  de_listenfd2 :: int
  de_epoll_fd :: int
  de_ctl1 :: int
  de_ctl2 :: int
  de_getfl :: "int \<Rightarrow> s32 sys"
  de_setfl :: "int \<Rightarrow> s32 \<Rightarrow> s32 sys"

definition demo_listen :: "demo_env \<Rightarrow> int option \<times> net_call list" where
  "demo_listen de =
     (let l1 = de_listenfd1 de; l2 = de_listenfd2 de; ep = de_epoll_fd de;
          t1 = [CSocket, CBind l1 (htons 8070), CSocket, CBind l2 (htons 8071), CEpollCreate]
      in if ep = -1 then (Some 1, t1)
         else let t2 = t1 @ [CEpollAdd ep l1]
         in if de_ctl1 de = -1 then (Some 1, t2)
         else let t3 = t2 @ [CFcntl l1]
         in case setnonblocking (de_getfl de l1) (de_setfl de l1) of
              Some q \<Rightarrow> (Some q, t3)
            | None \<Rightarrow>
                let t4 = t3 @ [CEpollAdd ep l2]
                in if de_ctl2 de = -1 then (Some 1, t4)
                   else let t5 = t4 @ [CFcntl l2]
                   in case setnonblocking (de_getfl de l2) (de_setfl de l2) of
                        Some q \<Rightarrow> (Some q, t5)
                      | None \<Rightarrow> (None, t5 @ [CListen l1 MAX_EVENTS, CListen l2 MAX_EVENTS]))"

datatype listener = Listen1 | Listen2

definition job_op :: "listener \<Rightarrow> byte list" where
  "job_op l = (case l of Listen1 \<Rightarrow> [115, 104, 111, 117, 116] | Listen2 \<Rightarrow> [119, 104, 105, 115, 112, 101, 114])"

fun demo_accept :: "listener \<Rightarrow> int list \<Rightarrow> (int \<times> byte list) ThreadPool \<Rightarrow> (int \<times> byte list) ThreadPool option" where
  "demo_accept l [] p = None"
| "demo_accept l (conn_fd # fds) p = (if 0 < conn_fd then demo_accept l fds (enqueue (conn_fd, job_op l) p) else Some p)"

text \<open>The events of one \<open>epoll_wait\<close>: a listener, if the event is for one, and what \<open>accept\<close> returns then.\<close>

fun demo_events :: "(listener option \<times> int list) list \<Rightarrow> (int \<times> byte list) ThreadPool \<Rightarrow> (int \<times> byte list) ThreadPool option" where
  "demo_events [] p = Some p"
| "demo_events ((None, fds) # evs) p = demo_events evs p"
| "demo_events ((Some l, fds) # evs) p = (case demo_accept l fds p of None \<Rightarrow> None | Some p' \<Rightarrow> demo_events evs p')"

text \<open>The main loop: \<open>None\<close> for a wait that failed, which ends the process. The result is the pool and
  whether the process has ended.\<close>

fun demo_loop :: "(listener option \<times> int list) list option list \<Rightarrow> (int \<times> byte list) ThreadPool \<Rightarrow> (int \<times> byte list) ThreadPool \<times> bool" where
  "demo_loop [] p = (p, False)"
| "demo_loop (None # ws) p = (p, True)"
| "demo_loop (Some evs # ws) p = (case demo_events evs p of None \<Rightarrow> (p, False) | Some p' \<Rightarrow> demo_loop ws p')"

text \<open>The program: the status it exits with before it has a pool, or the pool and whether it has ended.\<close>

definition demo_main :: "demo_env \<Rightarrow> (listener option \<times> int list) list option list \<Rightarrow> int + (int \<times> byte list) ThreadPool \<times> bool" where
  "demo_main de ws = (case fst (demo_listen de) of Some q \<Rightarrow> Inl q | None \<Rightarrow> Inr (demo_loop ws (make_pool 4)))"

subsection \<open>Lemmas\<close>

lemma job_reads_pieces:
  assumes "list_all (\<lambda>part. part \<noteq> [] \<and> length part \<le> BUFF_SIZE) parts" and "length got \<le> BUFF_SIZE"
  shows "job_read_loop got (concat parts) (map (\<lambda>part. Ok (length part)) parts @ [Err e])
    = (if BUFF_SIZE < length (got @ concat parts) then JROverrun else JREnd (got @ concat parts) [] (Some e))"
  using assms
proof (induction parts arbitrary: got)
  case (Cons part parts)
  then have n: "min (length part) (min BUFF_SIZE (length (part @ concat parts))) = length part" "length part \<noteq> 0" by simp_all
  show ?case
  proof (cases "BUFF_SIZE < length got + length part")
    case True
    then show ?thesis using n by (simp add: Let_def)
  next
    case False
    then show ?thesis using n Cons.IH [of "got @ part"] Cons.prems by (simp add: Let_def add.assoc)
  qed
qed simp

lemma demo_accept_all:
  "list_all ((<) 0) fds \<Longrightarrow> e \<le> 0 \<Longrightarrow> demo_accept l (fds @ [e]) p = Some (fold (\<lambda>fd. enqueue (fd, job_op l)) fds p)"
  by (induction fds arbitrary: p) simp_all

subsection \<open>Properties\<close>

text \<open>One round of a job, completely: what the client has sent comes in any pieces, and then nothing
  for now. A batch that fits the buffer is searched for the keyword; a longer one is written past the
  end of the buffer.\<close>

theorem job_round_batch:
  assumes "list_all (\<lambda>part. part \<noteq> [] \<and> length part \<le> BUFF_SIZE) parts"
  shows "job_round opr (JIn (map (\<lambda>part. Ok (length part)) parts @ [Err EAGAIN])) (concat parts)
    = (if BUFF_SIZE < length (concat parts) then JobCrash BadMemory
       else if contains quit_text (opr @ [58, 32] @ concat parts) then JobClosed
       else JobLoop [])"
  using job_reads_pieces [OF assms, of "[]" EAGAIN] by (simp add: job_round_def job_data_def)

theorem job_round_batch_witness:
  "job_round (job_op Listen1) (JIn (map (\<lambda>part. Ok (length part)) [[113, 117], [105, 116 :: byte]] @ [Err EAGAIN]))
    (concat [[113, 117], [105, 116]]) = JobClosed \<and>
   job_round (job_op Listen1) (JIn (map (\<lambda>part. Ok (length part)) [replicate 1024 7, [8 :: byte]] @ [Err EAGAIN]))
    (concat [replicate 1024 7, [8]]) = JobCrash BadMemory"
  using job_round_batch [of "[[113, 117], [105, 116]]" "job_op Listen1"]
    job_round_batch [of "[replicate 1024 7, [8]]" "job_op Listen1"]
  by (simp add: BUFF_SIZE_def quit_text_def job_op_def)

text \<open>The experiment and the receiver set sockets up alike, but for what they do when it fails.\<close>

lemma setnonblocking_SetNonBlocking: "setnonblocking g f = None \<longleftrightarrow> SetNonBlocking g f = 0"
  by (simp add: setnonblocking_def SetNonBlocking_def split: sys.splits)

text \<open>A keyword that comes in two rounds is not seen.\<close>

lemma job_split_keyword:
  "job (job_op Listen2) [([113, 117], JIn [Ok 2, Err EAGAIN]), ([105, 116], JIn [Ok 2, Err EAGAIN])] [] = JobLoop []"
  by (simp add: job_round_def job_data_def quit_text_def job_op_def BUFF_SIZE_def Let_def)

text \<open>Two events in one wait, the second for the other port: the jobs are enqueued in order.\<close>

lemma demo_main_enqueues:
  assumes "list_all ((<) 0) fds1" and "list_all ((<) 0) fds2" and "fst (demo_listen de) = None"
  shows "\<exists>p. demo_main de [Some [(Some Listen1, fds1 @ [-1]), (Some Listen2, fds2 @ [-1])], None] = Inr (p, True) \<and>
    tp_enqueued p = map (\<lambda>fd. (fd, job_op Listen1)) fds1 @ map (\<lambda>fd. (fd, job_op Listen2)) fds2"
proof -
  have "tp_enqueued (fold (\<lambda>fd. enqueue (fd, job_op l)) fds p) = tp_enqueued p @ map (\<lambda>fd. (fd, job_op l)) fds"
    for l p and fds :: "int list"
    by (induction fds arbitrary: p) (simp_all add: enqueue_def)
  then show ?thesis using assms by (simp add: demo_main_def demo_accept_all make_pool_def)
qed

text \<open>When the server listens, both sockets were registered and made non-blocking before.\<close>

lemma demo_listens:
  assumes "fst (demo_listen de) = None"
  shows "snd (demo_listen de) = [CSocket, CBind (de_listenfd1 de) (htons 8070), CSocket, CBind (de_listenfd2 de) (htons 8071), CEpollCreate,
      CEpollAdd (de_epoll_fd de) (de_listenfd1 de), CFcntl (de_listenfd1 de), CEpollAdd (de_epoll_fd de) (de_listenfd2 de),
      CFcntl (de_listenfd2 de), CListen (de_listenfd1 de) MAX_EVENTS, CListen (de_listenfd2 de) MAX_EVENTS]"
  using assms by (auto simp: demo_listen_def Let_def split: if_splits option.splits)

end
