(* ===== verification/Listen_Client.thy ===== *)
theory Listen_Client
  imports Multi_Listen
begin

section \<open>The client of the experiment (demos/multi_listen/client.cc)\<close>

text \<open>
  The client sends every word that is typed as a record of 30 bytes, padded with zeros; a second thread
  prints the records that come back. The two threads share the socket and the process: an error in
  either ends both.
\<close>

subsection \<open>Records\<close>

text \<open>\<open>scanf("%s", name)\<close> into an array of 30 characters, with a terminating zero; the whole array is sent.\<close>

definition client_record :: "byte list \<Rightarrow> c_error + byte list" where
  "client_record name = (if 30 \<le> length name then Inl BadMemory else Inr (name @ replicate (30 - length name) 0))"

text \<open>\<open>printf("%s", name)\<close>: up to the first zero, which may be missing.\<close>

definition printed :: "byte list \<Rightarrow> c_error + byte list" where
  "printed name = (if 0 \<in> set name then Inr (takeWhile (\<lambda>b. b \<noteq> 0) name) else Inl BadMemory)"

subsection \<open>The process\<close>

datatype client_end = ClientExit int | ClientCrash c_error

text \<open>What was sent, what has arrived and is not received yet, and what was printed.\<close>

record client =
  cl_out :: "byte list"
  cl_in :: "byte list"
  cl_names :: "byte list list"
  cl_end :: "client_end option"

text \<open>\<open>print_err\<close> ends the process with \<open>_exit(-1)\<close>.\<close>

definition print_err :: "client \<Rightarrow> client" where
  "print_err cl = cl\<lparr>cl_end := Some (ClientExit 255)\<rparr>"

text \<open>One turn of the loop of \<open>main\<close>: at the end of the input \<open>scanf\<close> leaves the zeros in the record.\<close>

definition client_send :: "byte list option \<Rightarrow> nat sys \<Rightarrow> client \<Rightarrow> client" where
  "client_send word r cl =
     (case client_record (case word of None \<Rightarrow> [] | Some name \<Rightarrow> name) of
        Inl e \<Rightarrow> cl\<lparr>cl_end := Some (ClientCrash e)\<rparr>
      | Inr std_data \<Rightarrow>
          (case r of
             Err _ \<Rightarrow> print_err cl
           | Ok n \<Rightarrow> cl\<lparr>cl_out := cl_out cl @ take n std_data\<rparr>))"

text \<open>One turn of the loop of \<open>receive\<close>; a result of 0 is ignored.\<close>

definition client_receive :: "nat sys \<Rightarrow> client \<Rightarrow> client" where
  "client_receive r cl =
     (case r of
        Err _ \<Rightarrow> print_err cl
      | Ok n \<Rightarrow>
          (let ret = min n (min 30 (length (cl_in cl)));
               stu_data = take ret (cl_in cl) @ replicate (30 - ret) 0;
               cl' = cl\<lparr>cl_in := drop ret (cl_in cl)\<rparr>
           in if 0 < ret
              then (case printed stu_data of
                      Inl e \<Rightarrow> cl'\<lparr>cl_end := Some (ClientCrash e)\<rparr>
                    | Inr name \<Rightarrow> cl'\<lparr>cl_names := cl_names cl @ [name]\<rparr>)
              else cl'))"

text \<open>\<open>sig_fun\<close>, which nothing installs: SIGINT is 2.\<close>

definition sig_fun :: "int \<Rightarrow> client \<Rightarrow> client" where
  "sig_fun signo cl = (if signo = 2 then cl\<lparr>cl_end := Some (ClientExit 0)\<rparr> else cl)"

text \<open>The beginning of \<open>main\<close>, with the results of \<open>socket\<close> and \<open>connect\<close>; then the two threads.\<close>

definition client_start :: "int \<Rightarrow> int \<Rightarrow> client" where
  "client_start skfd ret =
     (let cl = \<lparr>cl_out = [], cl_in = [], cl_names = [], cl_end = None\<rparr>
      in if skfd = -1 then print_err cl else if ret = -1 then print_err cl else cl)"

inductive client_step :: "client \<Rightarrow> client \<Rightarrow> bool" where
  typed: "cl_end cl = None \<Longrightarrow> client_step cl (client_send word r cl)"
| received: "cl_end cl = None \<Longrightarrow> client_step cl (client_receive r cl)"
| arrived: "client_step cl (cl\<lparr>cl_in := cl_in cl @ bs\<rparr>)"

subsection \<open>Searching records\<close>

lemma contains_sublist: "contains pat bs \<longleftrightarrow> sublist pat bs"
  by (induction bs) (simp_all add: sublist_Cons_right)

lemma contains_separated:
  assumes "s \<notin> set pat"
  shows "contains pat (a @ s # b) \<longleftrightarrow> contains pat a \<or> contains pat b"
proof
  assume "contains pat (a @ s # b)"
  then consider "sublist pat a" | "sublist pat (s # b)"
    | xs ys where "pat = xs @ ys" "suffix xs a" "prefix ys (s # b)"
    unfolding contains_sublist sublist_append by blast
  then show "contains pat a \<or> contains pat b"
  proof cases
    case 2
    then show ?thesis using assms by (cases pat) (auto simp: contains_sublist sublist_Cons_right)
  next
    case (3 xs ys)
    then have "ys = []" using assms by (cases ys) auto
    then show ?thesis using 3 by (simp add: contains_sublist suffix_imp_sublist)
  qed (simp add: contains_sublist)
next
  assume "contains pat a \<or> contains pat b"
  then show "contains pat (a @ s # b)" by (auto simp: contains_sublist sublist_append sublist_Cons_right)
qed

lemma contains_zeros:
  assumes "0 \<notin> set pat" and "pat \<noteq> []"
  shows "contains pat (replicate k 0 @ bs) \<longleftrightarrow> contains pat bs"
proof (induction k)
  case (Suc k)
  have "contains pat ([] @ 0 # (replicate k 0 @ bs)) \<longleftrightarrow> contains pat (replicate k 0 @ bs)"
    unfolding contains_separated [OF assms(1)] using assms(2) by simp
  then show ?case using Suc by simp
qed simp

lemma contains_record:
  assumes "client_record name = Inr r" and "0 \<notin> set pat" and "pat \<noteq> []"
  shows "contains pat (r @ bs) \<longleftrightarrow> contains pat name \<or> contains pat bs"
proof -
  have "length name < 30" and r: "r = name @ replicate (30 - length name) 0" using assms(1) by (auto simp: client_record_def split: if_splits)
  then have "30 - length name = Suc (29 - length name)" by simp
  then have "r @ bs = name @ 0 # replicate (29 - length name) 0 @ bs" using r by simp
  then show ?thesis using contains_separated [OF assms(2)] contains_zeros [OF assms(2,3)] by simp
qed

lemma contains_records:
  assumes "list_all2 (\<lambda>name r. client_record name = Inr r) names rs" and "0 \<notin> set pat" and "pat \<noteq> []"
  shows "contains pat (concat rs) \<longleftrightarrow> list_ex (contains pat) names"
  using assms(1) by (induction names rs) (simp_all add: contains_record [OF _ assms(2,3)] assms(3))

text \<open>What a job searches: the name of its operation, a colon, a blank, and the records.\<close>

lemma job_data_records:
  assumes "list_all2 (\<lambda>name r. client_record name = Inr r) names rs"
  shows "contains quit_text (job_op l @ [58, 32] @ concat rs) \<longleftrightarrow> list_ex (contains quit_text) names"
proof -
  have "contains quit_text ((job_op l @ [58]) @ 32 # concat rs) \<longleftrightarrow> contains quit_text (job_op l @ [58]) \<or> contains quit_text (concat rs)"
    by (rule contains_separated) (simp add: quit_text_def)
  moreover have "\<not> contains quit_text (job_op l @ [58])" by (cases l) (simp_all add: job_op_def quit_text_def)
  ultimately show ?thesis using contains_records [OF assms, of quit_text] by (simp add: quit_text_def)
qed

subsection \<open>Typing to a job\<close>

text \<open>One round of a job: the words that were typed before it, sent as records, and the pieces in which the
  bytes are read. No more than 34 records fit the buffer of the job.\<close>

definition round_records :: "byte list list \<Rightarrow> byte list list \<Rightarrow> byte list list \<Rightarrow> bool" where
  "round_records names rs parts \<longleftrightarrow>
     list_all2 (\<lambda>name r. client_record name = Inr r) names rs \<and> concat parts = concat rs \<and>
     list_all (\<lambda>part. part \<noteq> [] \<and> length part \<le> BUFF_SIZE) parts \<and> length names \<le> 34"

definition typed_round :: "byte list list \<Rightarrow> byte list \<times> job_event" where
  "typed_round parts = (concat parts, JIn (map (\<lambda>part. Ok (length part)) parts @ [Err EAGAIN]))"

lemma records_length: "list_all2 (\<lambda>name r. client_record name = Inr r) names rs \<Longrightarrow> length (concat rs) = 30 * length names"
  by (induction names rs rule: list_all2_induct) (auto simp: client_record_def split: if_splits)

lemma job_round_records:
  assumes "round_records names rs parts"
  shows "job_round (job_op l) (snd (typed_round parts)) (fst (typed_round parts))
    = (if list_ex (contains quit_text) names then JobClosed else JobLoop [])"
proof -
  have parts: "list_all (\<lambda>part. part \<noteq> [] \<and> length part \<le> BUFF_SIZE) parts" using assms by (simp add: round_records_def)
  have "length (concat parts) = 30 * length names" "length names \<le> 34" using assms records_length by (auto simp: round_records_def)
  then have "\<not> BUFF_SIZE < length (concat parts)" by (simp add: BUFF_SIZE_def)
  moreover have "contains quit_text (job_op l @ [58, 32] @ concat parts) \<longleftrightarrow> list_ex (contains quit_text) names"
    using assms job_data_records by (simp add: round_records_def)
  ultimately show ?thesis using job_reads_pieces [OF parts, of "[]" EAGAIN]
    by (simp add: typed_round_def job_round_def job_data_def)
qed

text \<open>(C40) Client and server together. A client types words of less than 30 characters; their records reach a job
  in rounds of at most 34 whole records, each in any pieces. The job ends when one of the words has
  \<open>quit\<close> in it, and goes on otherwise: the padding keeps words apart, and nothing in the text the server
  puts in front can be mistaken for the keyword.\<close>

theorem client_quits:
  assumes "list_all2 (\<lambda>names (rs, parts). round_records names rs parts) words rounds"
  shows "job (job_op l) (map (typed_round \<circ> snd) rounds) []
    = (if list_ex (list_ex (contains quit_text)) words then JobClosed else JobLoop [])"
  using assms
proof (induction words rounds rule: list_all2_induct)
  case (Cons names ns round rounds)
  obtain rs parts where "round = (rs, parts)" by (cases round)
  then have "round_records names rs parts" using Cons.hyps(1) by simp
  from job_round_records [OF this] show ?case using Cons.IH \<open>round = (rs, parts)\<close> by (simp add: typed_round_def)
qed simp

theorem client_quits_witness:
  "job (job_op Listen1) (map (typed_round \<circ> snd) [([[104, 105] @ replicate 28 0], [[104], 105 # replicate 28 0]),
      ([quit_text @ replicate 26 0], [quit_text @ replicate 26 0])]) [] = JobClosed"
proof -
  have "list_all2 (\<lambda>names (rs, parts). round_records names rs parts) [[[104, 105]], [quit_text]]
      [([[104, 105] @ replicate 28 0], [[104], 105 # replicate 28 0]), ([quit_text @ replicate 26 0], [quit_text @ replicate 26 0])]"
    by (simp add: round_records_def client_record_def quit_text_def BUFF_SIZE_def)
  from client_quits [OF this, of Listen1] show ?thesis by (simp add: quit_text_def)
qed

subsection \<open>Sending and receiving\<close>

text \<open>What is typed goes out as records, when \<open>send\<close> takes each whole.\<close>

lemma client_types:
  assumes "list_all2 (\<lambda>name r. client_record name = Inr r) names rs"
  shows "fold (\<lambda>name. client_send (Some name) (Ok 30)) names cl = cl\<lparr>cl_out := cl_out cl @ concat rs\<rparr>"
  using assms
proof (induction names rs arbitrary: cl rule: list_all2_induct)
  case (Cons name names r rs)
  have "length r = 30" using Cons.hyps(1) by (auto simp: client_record_def split: if_splits)
  then show ?case using Cons by (simp add: client_send_def)
qed simp

text \<open>At the end of the input the client does not stop: it sends records of zeros.\<close>

lemma client_floods: "((client_send None (Ok 30)) ^^ n) cl = cl\<lparr>cl_out := cl_out cl @ replicate (30 * n) 0\<rparr>"
proof (induction n)
  case (Suc n)
  have "client_send None (Ok 30) x = x\<lparr>cl_out := cl_out x @ replicate 30 0\<rparr>" for x
    by (simp add: client_send_def client_record_def)
  moreover have "replicate (30 * n) (0 :: byte) @ replicate 30 0 = replicate (30 * Suc n) 0"
    by (simp only: replicate_add [symmetric]) (simp only: mult_Suc_right add.commute)
  ultimately show ?case using Suc by (simp only: funpow.simps comp_apply) (simp add: append_assoc del: replicate_0)
qed simp

text \<open>Records that arrive whole are printed as the words that were typed.\<close>

lemma printed_record: "client_record name = Inr r \<Longrightarrow> 0 \<notin> set name \<Longrightarrow> printed r = Inr name \<and> length r = 30"
  by (auto simp: client_record_def printed_def takeWhile_append takeWhile_eq_all_conv [THEN iffD2] split: if_splits)

lemma client_prints:
  assumes "list_all2 (\<lambda>name r. client_record name = Inr r \<and> 0 \<notin> set name) names rs"
  shows "((client_receive (Ok 30)) ^^ length names) (cl\<lparr>cl_in := concat rs @ bs\<rparr>) = cl\<lparr>cl_in := bs, cl_names := cl_names cl @ names\<rparr>"
  using assms
proof (induction names rs arbitrary: cl rule: list_all2_induct)
  case (Cons name names r rs)
  have "printed r = Inr name" "length r = 30" using printed_record Cons.hyps(1) by blast+
  then have "client_receive (Ok 30) (cl\<lparr>cl_in := concat (r # rs) @ bs\<rparr>)
      = cl\<lparr>cl_names := cl_names cl @ [name]\<rparr>\<lparr>cl_in := concat rs @ bs\<rparr>"
    by (simp add: client_receive_def)
  then show ?case using Cons.IH [of "cl\<lparr>cl_names := cl_names cl @ [name]\<rparr>"]
    by (simp add: funpow_swap1 del: concat.simps)
qed simp

text \<open>When the server has closed the connection \<open>recv\<close> returns 0, and the thread spins.\<close>

lemma client_spins: "((client_receive (Ok 0)) ^^ n) cl = cl"
proof (induction n)
  case (Suc n)
  have "client_receive (Ok 0) cl = cl" by (simp add: client_receive_def)
  then show ?case using Suc by simp
qed simp

text \<open>A record without a zero, which this client cannot send, makes it read past its array.\<close>

lemma client_overread: "cl_in cl = replicate 30 120 \<Longrightarrow> cl_end (client_receive (Ok 30) cl) = Some (ClientCrash BadMemory)"
  by (simp add: client_receive_def printed_def)

text \<open>Whatever comes back, and in whatever pieces, what is printed is zero-free and shorter than a record.\<close>

definition client_inv :: "client \<Rightarrow> bool" where
  "client_inv cl \<longleftrightarrow> list_all (\<lambda>name. length name < 30 \<and> 0 \<notin> set name) (cl_names cl)"

lemma printed_short:
  assumes "printed bs = Inr name"
  shows "length name < length bs \<and> 0 \<notin> set name"
proof -
  have z: "0 \<in> set bs" and n: "name = takeWhile (\<lambda>b. b \<noteq> 0) bs" using assms by (auto simp: printed_def split: if_splits)
  have "name \<noteq> bs" using z n takeWhile_eq_all_conv [of "\<lambda>b. b \<noteq> 0" bs] by auto
  then have "length name < length bs" using n takeWhile_dropWhile_id [of "\<lambda>b. b \<noteq> 0" bs]
    by (metis append_Nil2 length_append length_greater_0_conv less_add_same_cancel1)
  moreover have "0 \<notin> set name" using n set_takeWhileD by metis
  ultimately show ?thesis ..
qed

lemma client_inv_receive: "client_inv cl \<Longrightarrow> client_inv (client_receive r cl)"
  by (auto simp: client_receive_def client_inv_def print_err_def Let_def dest!: printed_short split: sys.splits sum.splits)

interpretation client_names: invariant_system "\<lambda>cl. \<exists>skfd ret. cl = client_start skfd ret" client_step client_inv
proof (unfold_locales, goal_cases)
  case (1 cl)
  then show ?case by (auto simp: client_inv_def client_start_def print_err_def Let_def)
next
  case (2 cl cl')
  then show ?case
    by (elim client_step.cases)
      (auto simp: client_inv_receive, auto simp: client_inv_def client_send_def print_err_def split: sum.splits sys.splits)
qed

end
