(* ===== verification/Listen_Program.thy ===== *)
theory Listen_Program
  imports Listen_Client
begin

section \<open>The server of the experiment as a program (demos/multi_listen/main.cc)\<close>

text \<open>
  The main thread accepts connections on two ports and enqueues a job for each; the four workers of the
  pool run them. A job goes on by its beginning and then one round of its loop at a time. An error in
  any thread ends the process.
\<close>

subsection \<open>State and steps\<close>

datatype job_state = JobQueued | JobOpen | JobOver

text \<open>A connection: what its job puts in front of the data, what has arrived, and how far the job is.\<close>

record job_conn =
  jc_op :: "byte list"
  jc_pend :: "byte list"
  jc_state :: job_state

datatype demo_end = DemoExit int | DemoCrash c_error

text \<open>The task of a connection is its number, in the order of \<open>accept\<close>.\<close>

record demo =
  dm_pool :: "nat ThreadPool"
  dm_conns :: "job_conn list"
  dm_end :: "demo_end option"

definition demo_start :: "demo_env \<Rightarrow> demo" where
  "demo_start de = (case fst (demo_listen de) of
     Some q \<Rightarrow> \<lparr>dm_pool = make_pool 0, dm_conns = [], dm_end = Some (DemoExit q)\<rparr>
   | None \<Rightarrow> \<lparr>dm_pool = make_pool 4, dm_conns = [], dm_end = None\<rparr>)"

definition new_job :: "listener \<Rightarrow> demo \<Rightarrow> demo" where
  "new_job l s = s\<lparr>dm_pool := enqueue (length (dm_conns s)) (dm_pool s),
     dm_conns := dm_conns s @ [\<lparr>jc_op = job_op l, jc_pend = [], jc_state = JobQueued\<rparr>]\<rparr>"

definition open_job :: "nat \<Rightarrow> job_env \<Rightarrow> demo \<Rightarrow> demo" where
  "open_job k je s = (case job_setup je of
     Some q \<Rightarrow> s\<lparr>dm_end := Some (DemoExit q)\<rparr>
   | None \<Rightarrow> s\<lparr>dm_conns := (dm_conns s)[k := (dm_conns s ! k)\<lparr>jc_state := JobOpen\<rparr>]\<rparr>)"

definition job_event_step :: "nat \<Rightarrow> job_event \<Rightarrow> demo \<Rightarrow> demo option" where
  "job_event_step k ev s = (let c = dm_conns s ! k in
     case job_round (jc_op c) ev (jc_pend c) of
       JobLoop rest \<Rightarrow> Some (s\<lparr>dm_conns := (dm_conns s)[k := c\<lparr>jc_pend := rest\<rparr>]\<rparr>)
     | JobClosed \<Rightarrow> Some (s\<lparr>dm_conns := (dm_conns s)[k := c\<lparr>jc_state := JobOver\<rparr>]\<rparr>)
     | JobExit \<Rightarrow> Some (s\<lparr>dm_end := Some (DemoExit 1)\<rparr>)
     | JobCrash e \<Rightarrow> Some (s\<lparr>dm_end := Some (DemoCrash e)\<rparr>)
     | JobReading \<Rightarrow> None)"

definition job_over :: "demo \<Rightarrow> nat \<Rightarrow> bool" where
  "job_over s k \<longleftrightarrow> k < length (dm_conns s) \<and> jc_state (dm_conns s ! k) = JobOver"

inductive demo_step :: "demo \<Rightarrow> demo \<Rightarrow> bool" where
  accept: "dm_end s = None \<Longrightarrow> demo_step s (new_job l s)"
| wait_fails: "dm_end s = None \<Longrightarrow> demo_step s (s\<lparr>dm_end := Some (DemoExit 1)\<rparr>)"
| arrive: "dm_end s = None \<Longrightarrow> k < length (dm_conns s) \<Longrightarrow>
    demo_step s (s\<lparr>dm_conns := (dm_conns s)[k := (dm_conns s ! k)\<lparr>jc_pend := jc_pend (dm_conns s ! k) @ bs\<rparr>]\<rparr>)"
| begins: "dm_end s = None \<Longrightarrow> Busy k \<in> set (tp_threads (dm_pool s)) \<Longrightarrow> jc_state (dm_conns s ! k) = JobQueued \<Longrightarrow>
    demo_step s (open_job k je s)"
| round: "dm_end s = None \<Longrightarrow> Busy k \<in> set (tp_threads (dm_pool s)) \<Longrightarrow> jc_state (dm_conns s ! k) = JobOpen \<Longrightarrow>
    job_event_step k ev s = Some s' \<Longrightarrow> demo_step s s'"
| work: "dm_end s = None \<Longrightarrow> pool_work (dm_pool s) p \<Longrightarrow> list_all (job_over s) (tp_finished p) \<Longrightarrow> demo_step s (s\<lparr>dm_pool := p\<rparr>)"
| spurious: "dm_end s = None \<Longrightarrow> i < length (tp_threads (dm_pool s)) \<Longrightarrow> tp_threads (dm_pool s) ! i = Blocked \<Longrightarrow>
    demo_step s (s\<lparr>dm_pool := worker_wake i (dm_pool s)\<rparr>)"

subsection \<open>The invariant\<close>

text \<open>A job that is open has a worker; one that was never begun is untouched by the pool.\<close>

definition demo_inv :: "demo \<Rightarrow> bool" where
  "demo_inv s \<longleftrightarrow>
     pool_inv (dm_pool s) \<and> \<not> tp_stop (dm_pool s) \<and> length (tp_threads (dm_pool s)) \<le> 4 \<and>
     tp_enqueued (dm_pool s) = [0..<length (dm_conns s)] \<and> list_all (job_over s) (tp_finished (dm_pool s)) \<and>
     (\<forall>k < length (dm_conns s). jc_state (dm_conns s ! k) = JobOpen \<longrightarrow> Busy k \<in> set (tp_threads (dm_pool s)))"

lemma demo_start_inv: "demo_inv (demo_start de)"
proof -
  have "pool_inv (make_pool n :: nat ThreadPool)" for n by (rule reach_pool_inv [OF rtranclp.rtrancl_refl])
  then show ?thesis by (auto simp: demo_start_def demo_inv_def split: option.split) (simp_all add: make_pool_def)
qed

lemma demo_busy: "demo_inv s \<Longrightarrow> Busy k \<in> set (tp_threads (dm_pool s)) \<Longrightarrow> k < length (dm_conns s)"
  using busy_enqueued [of "dm_pool s" k] by (auto simp: demo_inv_def)

text \<open>A change of one connection that leaves the pool alone, and closes no job again.\<close>

lemma demo_inv_conn:
  assumes "demo_inv s" and "k < length (dm_conns s)" and "jc_state (dm_conns s ! k) = JobOver \<longrightarrow> jc_state c = JobOver"
    and "jc_state c = JobOpen \<longrightarrow> Busy k \<in> set (tp_threads (dm_pool s))"
  shows "demo_inv (s\<lparr>dm_conns := (dm_conns s)[k := c]\<rparr>)"
proof -
  have "job_over s j \<Longrightarrow> job_over (s\<lparr>dm_conns := (dm_conns s)[k := c]\<rparr>) j" for j
    using assms(3) by (cases "j = k") (auto simp: job_over_def)
  then have "list_all (job_over (s\<lparr>dm_conns := (dm_conns s)[k := c]\<rparr>)) (tp_finished (dm_pool s))"
    using assms(1) by (auto simp: demo_inv_def list_all_iff)
  then show ?thesis using assms(1,2,4) by (auto simp: demo_inv_def nth_list_update)
qed

lemma demo_inv_end: "demo_inv s \<Longrightarrow> demo_inv (s\<lparr>dm_end := e\<rparr>)"
  by (auto simp: demo_inv_def job_over_def list_all_iff)

lemma demo_inv_pool:
  assumes "demo_inv s" and "pool_inv p" and "tp_stop p = tp_stop (dm_pool s)" and "tp_enqueued p = tp_enqueued (dm_pool s)"
    and "length (tp_threads p) = length (tp_threads (dm_pool s))" and "list_all (job_over s) (tp_finished p)"
    and "\<forall>k. Busy k \<in> set (tp_threads (dm_pool s)) \<longrightarrow> Busy k \<in> set (tp_threads p) \<or> k \<in> set (tp_finished p)"
  shows "demo_inv (s\<lparr>dm_pool := p\<rparr>)"
proof -
  have o: "job_over (s\<lparr>dm_pool := p\<rparr>) = job_over s" by (rule ext) (simp add: job_over_def)
  have "Busy k \<in> set (tp_threads p)" if "k < length (dm_conns s)" "jc_state (dm_conns s ! k) = JobOpen" for k
    using assms(1,6,7) that by (auto simp: demo_inv_def list_all_iff job_over_def)
  then show ?thesis using assms o by (simp add: demo_inv_def)
qed

lemma demo_inv_step:
  assumes "demo_inv s" and "demo_step s s'"
  shows "demo_inv s'"
  using assms(2)
proof cases
  case (accept l)
  have "job_over s k \<Longrightarrow> job_over (new_job l s) k" for k by (simp add: job_over_def new_job_def nth_append)
  then have "list_all (job_over (new_job l s)) (tp_finished (dm_pool s))" using assms(1) by (auto simp: demo_inv_def list_all_iff)
  moreover have "pool_inv (dm_pool (new_job l s))" using assms(1) by (simp add: demo_inv_def new_job_def enqueue_inv)
  ultimately show ?thesis using assms(1) accept
    by (auto simp: demo_inv_def new_job_def nth_append less_Suc_eq) (auto simp: enqueue_def)
next
  case wait_fails
  then show ?thesis using assms(1) by (simp add: demo_inv_end)
next
  case (arrive k bs)
  then have "jc_state (dm_conns s ! k) = JobOpen \<longrightarrow> Busy k \<in> set (tp_threads (dm_pool s))"
    using assms(1) by (simp add: demo_inv_def)
  then show ?thesis using demo_inv_conn [OF assms(1)] arrive by simp
next
  case (begins k je)
  then show ?thesis using demo_busy [OF assms(1)] demo_inv_conn [OF assms(1), of k] demo_inv_end [OF assms(1)]
    by (simp add: open_job_def split: option.split)
next
  case (round k ev)
  then show ?thesis using demo_busy [OF assms(1)] demo_inv_conn [OF assms(1), of k] demo_inv_end [OF assms(1)]
    by (auto simp: job_event_step_def Let_def split: job_result.splits)
next
  case (work p)
  have "pool_inv p" using assms(1) pool_work_inv [OF work(3)] by (simp add: demo_inv_def)
  then show ?thesis using work work_keeps [OF work(3)] work_threads [OF work(3)] busy_kept [OF work(3)] assms(1)
    by (auto intro!: demo_inv_pool)
next
  case (spurious i)
  have "pool_step (dm_pool s) (worker_wake i (dm_pool s))" using spurious by (intro pool_step.spurious)
  then have "pool_inv (worker_wake i (dm_pool s))" using assms(1) by (auto simp: demo_inv_def intro: pool_step_inv)
  moreover have "Busy k \<in> set (tp_threads (dm_pool s)) \<Longrightarrow> Busy k \<in> set (tp_threads (worker_wake i (dm_pool s)))" for k
    using spurious busy_upd [of k "tp_threads (dm_pool s)" i] by (simp add: worker_wake_def)
  moreover have "list_all (job_over s) (tp_finished (dm_pool s))" using assms(1) by (simp add: demo_inv_def)
  ultimately show ?thesis using spurious assms(1) by (auto intro!: demo_inv_pool) (simp_all add: worker_wake_def)
qed

interpretation listening_program: invariant_system "\<lambda>s. \<exists>de. s = demo_start de" demo_step demo_inv
  by unfold_locales (auto simp: demo_start_inv intro: demo_inv_step)

subsection \<open>Four jobs at a time\<close>

definition open_jobs :: "demo \<Rightarrow> nat set" where
  "open_jobs s = {k. k < length (dm_conns s) \<and> jc_state (dm_conns s ! k) = JobOpen}"

lemma open_jobs_busy:
  assumes "demo_inv s"
  shows "Busy ` open_jobs s \<subseteq> set (tp_threads (dm_pool s))" and "card (open_jobs s) = card (Busy ` open_jobs s)"
proof -
  show "Busy ` open_jobs s \<subseteq> set (tp_threads (dm_pool s))" using assms by (auto simp: demo_inv_def open_jobs_def)
  show "card (open_jobs s) = card (Busy ` open_jobs s)" by (rule card_image [symmetric]) (simp add: inj_on_def)
qed

lemma open_jobs_four:
  assumes "demo_inv s"
  shows "card (open_jobs s) \<le> 4"
proof -
  have "card (open_jobs s) \<le> card (set (tp_threads (dm_pool s)))"
    using open_jobs_busy [OF assms] card_mono [of "set (tp_threads (dm_pool s))"] by simp
  also have "\<dots> \<le> length (tp_threads (dm_pool s))" by (rule card_length)
  finally show ?thesis using assms by (simp add: demo_inv_def)
qed

text \<open>No more than four connections are served at a time, and as long as four jobs stay open no other
  connection is begun, whatever its client sends.\<close>

lemma four_jobs:
  assumes "rtranclp demo_step (demo_start de) s"
  shows "card (open_jobs s) \<le> 4"
    and "card (open_jobs s) = 4 \<Longrightarrow> demo_step s s' \<Longrightarrow> k < length (dm_conns s) \<Longrightarrow> jc_state (dm_conns s ! k) = JobQueued \<Longrightarrow>
      jc_state (dm_conns s' ! k) = JobQueued"
proof -
  have inv: "demo_inv s" using listening_program.reach_inv [OF _ assms] by blast
  show "card (open_jobs s) \<le> 4" by (rule open_jobs_four [OF inv])
  assume four: "card (open_jobs s) = 4" and st: "demo_step s s'" and k: "k < length (dm_conns s)" "jc_state (dm_conns s ! k) = JobQueued"
  have "card (set (tp_threads (dm_pool s))) \<le> 4" using inv card_length [of "tp_threads (dm_pool s)"] by (simp add: demo_inv_def)
  then have "set (tp_threads (dm_pool s)) = Busy ` open_jobs s"
    using open_jobs_busy [OF inv] four by (metis card_seteq List.finite_set)
  then have busy: "Busy j \<in> set (tp_threads (dm_pool s)) \<Longrightarrow> j \<noteq> k \<and> jc_state (dm_conns s ! j) \<noteq> JobQueued" for j
    using k(2) by (auto simp: open_jobs_def)
  show "jc_state (dm_conns s' ! k) = JobQueued" using st
  proof cases
    case (accept l)
    then show ?thesis using k by (simp add: new_job_def nth_append)
  next
    case (arrive j bs)
    then show ?thesis using k by (cases "j = k") simp_all
  next
    case (round j ev)
    then show ?thesis using k busy [of j] by (auto simp: job_event_step_def Let_def split: job_result.splits)
  qed (use k busy in \<open>auto simp: open_job_def split: option.splits\<close>)
qed

end
