(* ===== verification/Mmap_Tests.thy ===== *)
theory Mmap_Tests
  imports Mmap_File File_Slice
begin

section \<open>The experiments with mapped files (demos/mmap_test)\<close>

text \<open>
  Five small programs from which util/mmap_reader.h and util/mmap_writer.h grew: one makes a file by
  seeking and writes to its mapping, one changes a byte of a file in place, two read a file, by \<open>read\<close>
  and by mapping, and one lets a process talk to its child through an anonymous mapping. A program
  returns the status of its process, where it ends.
\<close>

subsection \<open>Making a file (mmap_write.cc)\<close>

text \<open>A write behind the end of a file leaves a hole of zeros.\<close>

definition file_write :: "byte list \<Rightarrow> nat \<Rightarrow> byte list \<Rightarrow> byte list" where
  "file_write content off bs = put_bytes (content @ replicate (off + length bs - length content) 0) off bs"

text \<open>The file is opened, not truncated, made 1200 bytes long at least, mapped, written to, and read again:
  the files afterwards and what was read. When \<open>open\<close> fails so does \<open>mmap\<close>, unnoticed.\<close>

definition mmap_write_main :: "bool \<Rightarrow> file_system \<Rightarrow> c_error + file_system \<times> byte list" where
  "mmap_write_main opened fs =
     (if \<not> opened then Inl BadMemory
      else
        (let old = (case fs ''test_file.dat4'' of None \<Rightarrow> [] | Some content \<Rightarrow> content);
             content = file_write old 1199 [0];
             start = take 1200 content
         in case mem_write start 1024 (label ''hello'') of
              Inl e \<Rightarrow> Inl e
            | Inr mem \<Rightarrow>
                (let new = mem @ drop 1200 content
                 in Inr (fs(''test_file.dat4'' \<mapsto> new), get_bytes new 1024 5))))"

subsection \<open>Changing a byte (main.cc)\<close>

definition page_size :: nat where
  "page_size = 4096"

text \<open>A mapping of a file ends with its last page, the rest of which is zero.\<close>

definition page_rest :: "byte list \<Rightarrow> nat" where
  "page_rest content = (page_size - length content mod page_size) mod page_size"

text \<open>The status, what was printed, and the files. \<open>msync\<close> can fail after the change was made. The index 5
  is within the first page of the mapping, but a file may be shorter.\<close>

definition mmap_change_main :: "bool \<Rightarrow> bool \<Rightarrow> bool \<Rightarrow> file_system \<Rightarrow> string \<Rightarrow> c_error + int \<times> byte list \<times> file_system" where
  "mmap_change_main opened stat_ok sync_ok fs name =
     (case fs name of
        None \<Rightarrow> Inr (255, [], fs)
      | Some content \<Rightarrow>
          if \<not> opened \<or> \<not> stat_ok \<or> content = [] then Inr (255, [], fs)
          else
            (let mmaped = content @ replicate (page_rest content) 0
             in if 0 \<notin> set mmaped then Inl BadMemory
                else Inr (if sync_ok then 0 else 255, takeWhile (\<lambda>b. b \<noteq> 0) mmaped, fs(name \<mapsto> content[5 := 36]))))"

subsection \<open>Reading a file (normal_read.cc, mmap_read.cc)\<close>

text \<open>\<open>normal_read\<close> reads byte by byte until \<open>read\<close> returns 0, which is not the case when it fails; the
  result counts the bytes.\<close>

fun normal_read_loop :: "nat \<Rightarrow> byte list \<Rightarrow> nat sys list \<Rightarrow> nat run" where
  "normal_read_loop k pend [] = Running"
| "normal_read_loop k pend (Err e # rs) = normal_read_loop k pend rs"
| "normal_read_loop k pend (Ok n # rs) =
     (if min n (min 1 (length pend)) = 0 then Done k else normal_read_loop (Suc k) (drop 1 pend) rs)"

text \<open>\<open>mmap_read\<close>: \<open>ret\<close> is an \<open>int\<close>, the size of the file is not.\<close>

function mmap_read_loop :: "byte list \<Rightarrow> nat \<Rightarrow> c_error + nat" where
  "mmap_read_loop start ret =
     (if length start \<le> ret then Inl BadMemory
      else if int ret = int_max then Inl Int_overflow
      else if Suc ret < length start then mmap_read_loop start (Suc ret)
      else Inr (Suc ret))"
  by auto
termination by (relation "measure (\<lambda>(start, ret). length start - ret)") auto

definition mmap_read_main :: "mapping \<Rightarrow> c_error + nat" where
  "mmap_read_main start = (case start of Mapped mem \<Rightarrow> mmap_read_loop mem 0 | _ \<Rightarrow> Inl BadMemory)"

subsection \<open>Father and son (main2.cc)\<close>

text \<open>The two processes share 100 bytes. Each goes through its statements, to which the calls of \<open>sleep\<close>
  give no fixed order: the father writes and prints, the son prints, writes and unmaps.\<close>

record family =
  fa_map :: "byte list"
  fa_father :: nat
  fa_son :: nat
  fa_said :: "byte list option \<times> byte list option"

definition BUF_SIZE :: nat where
  "BUF_SIZE = 100"

definition family_start :: family where
  "family_start = \<lparr>fa_map = replicate BUF_SIZE 0, fa_father = 0, fa_son = 0, fa_said = (None, None)\<rparr>"

definition father_text :: "byte list" where
  "father_text = label ''hi, this is father''"

definition son_text :: "byte list" where
  "son_text = label ''hi, dad, this is son''"

text \<open>\<open>sprintf\<close> of a text, and \<open>printf("%s")\<close>.\<close>

definition put_text :: "byte list \<Rightarrow> byte list \<Rightarrow> byte list" where
  "put_text mem t = put_bytes mem 0 (t @ [0])"

definition get_text :: "byte list \<Rightarrow> byte list" where
  "get_text mem = takeWhile (\<lambda>b. b \<noteq> 0) mem"

inductive family_step :: "family \<Rightarrow> family \<Rightarrow> bool" where
  father_writes: "fa_father f = 0 \<Longrightarrow> family_step f (f\<lparr>fa_map := put_text (fa_map f) father_text, fa_father := 1\<rparr>)"
| father_prints: "fa_father f = 1 \<Longrightarrow> family_step f (f\<lparr>fa_said := (Some (get_text (fa_map f)), snd (fa_said f)), fa_father := 2\<rparr>)"
| son_prints: "fa_son f = 0 \<Longrightarrow> family_step f (f\<lparr>fa_said := (fst (fa_said f), Some (get_text (fa_map f))), fa_son := 1\<rparr>)"
| son_writes: "fa_son f = 1 \<Longrightarrow> family_step f (f\<lparr>fa_map := put_text (fa_map f) son_text, fa_son := 2\<rparr>)"

subsection \<open>What the programs do\<close>

lemma length_file_write: "length (file_write content off bs) = max (length content) (off + length bs)"
  by (simp add: file_write_def length_put_bytes)

lemma file_write_nth:
  assumes "i < length content" and "i < off \<or> off + length bs \<le> i"
  shows "file_write content off bs ! i = content ! i"
  using assms by (auto simp: file_write_def nth_put_bytes nth_append)

text \<open>The test verifies what it wrote, whatever was in the file before; of the old contents it changes those
  five bytes, and the last byte of the size it asks for, which it takes to be the end of the file.\<close>

lemma mmap_write_verifies:
  assumes "old = (case fs ''test_file.dat4'' of None \<Rightarrow> [] | Some content \<Rightarrow> content)"
  obtains new where "mmap_write_main True fs = Inr (fs(''test_file.dat4'' \<mapsto> new), label ''hello'')"
    and "length new = max 1200 (length old)"
    and "\<And>i. i < length old \<Longrightarrow> i \<noteq> 1199 \<Longrightarrow> i < 1024 \<or> 1029 \<le> i \<Longrightarrow> new ! i = old ! i"
proof -
  define content where "content = file_write old 1199 [0]"
  have len: "length content = max (length old) 1200" by (simp add: content_def length_file_write)
  have h: "length (label ''hello'') = 5" by (simp add: label_def)
  define mem where "mem = put_bytes (take 1200 content) 1024 (label ''hello'')"
  have w: "mem_write (take 1200 content) 1024 (label ''hello'') = Inr mem" using len h by (simp add: mem_write_def mem_def)
  have m: "length mem = 1200" using len h by (simp add: mem_def length_put_bytes)
  have "get_bytes (mem @ drop 1200 content) 1024 5 = get_bytes mem 1024 (length (label ''hello''))"
    using m h by (simp add: get_bytes_def)
  also have "\<dots> = label ''hello''" unfolding mem_def by (rule get_put_same) (use len h in simp)
  finally have "mmap_write_main True fs = Inr (fs(''test_file.dat4'' \<mapsto> mem @ drop 1200 content), label ''hello'')"
    using w by (simp add: mmap_write_main_def Let_def assms [symmetric] content_def [symmetric])
  moreover have "length (mem @ drop 1200 content) = max 1200 (length old)" using m len by simp
  moreover have "(mem @ drop 1200 content) ! i = old ! i"
    if i: "i < length old" "i \<noteq> 1199" "i < 1024 \<or> 1029 \<le> i" for i
  proof -
    have "content ! i = old ! i" unfolding content_def by (rule file_write_nth) (use i in auto)
    moreover have "mem ! i = content ! i" if "i < 1200"
      using that i(3) len h by (auto simp: mem_def nth_put_bytes)
    moreover have "1200 + (i - 1200) = i" if "\<not> i < 1200" using that by simp
    ultimately show ?thesis using m len i(1) by (cases "i < 1200") (simp_all add: nth_append)
  qed
  ultimately show ?thesis by (rule that)
qed

text \<open>The change in place keeps the length of the file; a file with less than six bytes is not changed,
  although the program returns 0.\<close>

lemma mmap_change_file:
  assumes "fs name = Some content" and "content \<noteq> []" and "length content mod page_size \<noteq> 0"
  shows "\<exists>out. mmap_change_main True True True fs name = Inr (0, out, fs(name \<mapsto> content[5 := 36])) \<and> out = takeWhile (\<lambda>b. b \<noteq> 0) content"
proof -
  have "0 < page_rest content" using assms(3) by (simp add: page_rest_def page_size_def)
  then have "0 \<in> set (content @ replicate (page_rest content) 0)" by simp
  moreover have "takeWhile (\<lambda>b. b \<noteq> 0) (content @ replicate k 0) = takeWhile (\<lambda>b. b \<noteq> (0 :: byte)) content" for k
    by (cases "0 \<in> set content") (auto simp: takeWhile_append takeWhile_eq_all_conv [THEN iffD2])
  ultimately show ?thesis using assms by (simp add: mmap_change_main_def Let_def del: set_append)
qed

lemma mmap_change_short:
  "fs name = Some content \<Longrightarrow> content \<noteq> [] \<Longrightarrow> length content \<le> 5 \<Longrightarrow>
    \<exists>out. mmap_change_main True True True fs name = Inr (0, out, fs)"
  using mmap_change_file [of fs name content] list_update_beyond [of content 5 36] fun_upd_idem [of fs name "Some content"]
  by (auto simp: page_size_def)

text \<open>A text file that fills its last page and has no zero is printed beyond its end.\<close>

lemma mmap_change_overread:
  "fs name = Some (replicate 4096 65) \<Longrightarrow> mmap_change_main True True sync_ok fs name = Inl BadMemory"
  by (simp add: mmap_change_main_def page_rest_def page_size_def Let_def)

text \<open>Both readers read the whole file; but the first never ends when the file cannot be read, and the second
  overflows its index from 2 GiB on and crashes on an empty file.\<close>

lemma normal_read_all: "normal_read_loop k pend (replicate (length pend) (Ok 1) @ [Ok 1]) = Done (k + length pend)"
  by (induction pend arbitrary: k) simp_all

lemma normal_read_hangs: "list_all (\<lambda>r. \<exists>e. r = Err e) rs \<Longrightarrow> normal_read_loop k pend rs = Running"
  by (induction rs) auto

lemma mmap_read_from:
  assumes "ret < length start" and "int ret \<le> int_max"
  shows "mmap_read_loop start ret = (if int (length start) \<le> int_max then Inr (length start) else Inl Int_overflow)"
  using assms
proof (induction start ret rule: mmap_read_loop.induct)
  case (1 start ret)
  show ?case
  proof (cases "int ret = int_max")
    case False
    show ?thesis
    proof (cases "Suc ret < length start")
      case True
      then show ?thesis using 1 False by (subst mmap_read_loop.simps) simp
    next
      case False
      then have "length start = Suc ret" using 1(2) by simp
      then show ?thesis using 1 \<open>int ret \<noteq> int_max\<close> by (subst mmap_read_loop.simps) simp
    qed
  qed (use 1 in \<open>subst mmap_read_loop.simps, simp\<close>)
qed

lemma mmap_read_file:
  "mmap_read_main (fst (ReadArrowFile garbage [name \<mapsto> content] name))
    = (if content = [] then Inl BadMemory
       else if int (length content) \<le> int_max then Inr (length content) else Inl Int_overflow)"
  using mmap_read_from [of 0 content] by (simp add: mmap_read_main_def ReadArrowFile_def int_max_def)

text \<open>Whatever the order, the son finds nothing or the father's text, and the father his own text or the
  son's, each whole.\<close>

lemma get_put_text: "0 \<notin> set t \<Longrightarrow> get_text (put_text mem t) = t"
  by (simp add: get_text_def put_text_def put_bytes_def takeWhile_append takeWhile_eq_all_conv [THEN iffD2])

definition family_inv :: "family \<Rightarrow> bool" where
  "family_inv f \<longleftrightarrow>
     get_text (fa_map f) \<in> {[], father_text, son_text} \<and>
     (0 < fa_father f \<longrightarrow> get_text (fa_map f) \<noteq> []) \<and> (fa_son f < 2 \<longrightarrow> get_text (fa_map f) \<noteq> son_text) \<and>
     fst (fa_said f) \<in> {None, Some father_text, Some son_text} \<and> snd (fa_said f) \<in> {None, Some [], Some father_text}"

lemma family_texts: "0 \<notin> set father_text" "0 \<notin> set son_text" "father_text \<noteq> []" "son_text \<noteq> []" "father_text \<noteq> son_text"
  by (simp_all add: father_text_def son_text_def label_def)

interpretation family: invariant_system "\<lambda>f. f = family_start" family_step family_inv
proof (unfold_locales, goal_cases)
  case (1 f)
  then show ?case using family_texts by (simp add: family_inv_def family_start_def get_text_def BUF_SIZE_def)
next
  case (2 f f')
  show ?case using 2(2,1) by cases (use family_texts get_put_text in \<open>auto simp: family_inv_def\<close>)
qed

text \<open>In the order that the calls of \<open>sleep\<close> intend, they exchange their texts.\<close>

lemma family_talks:
  "\<exists>f. rtranclp family_step family_start f \<and> fa_said f = (Some son_text, Some father_text)"
proof -
  define f1 where "f1 = family_start\<lparr>fa_map := put_text (fa_map family_start) father_text, fa_father := 1\<rparr>"
  define f2 where "f2 = f1\<lparr>fa_said := (fst (fa_said f1), Some (get_text (fa_map f1))), fa_son := 1\<rparr>"
  define f3 where "f3 = f2\<lparr>fa_map := put_text (fa_map f2) son_text, fa_son := 2\<rparr>"
  define f4 where "f4 = f3\<lparr>fa_said := (Some (get_text (fa_map f3)), snd (fa_said f3)), fa_father := 2\<rparr>"
  have "family_step family_start f1" unfolding f1_def by (rule father_writes) (simp add: family_start_def)
  moreover have "family_step f1 f2" unfolding f2_def by (rule son_prints) (simp add: f1_def family_start_def)
  moreover have "family_step f2 f3" unfolding f3_def by (rule son_writes) (simp add: f2_def)
  moreover have "family_step f3 f4" unfolding f4_def by (rule father_prints) (simp add: f3_def f2_def f1_def)
  ultimately have "rtranclp family_step family_start f4" by (meson rtranclp.rtrancl_into_rtrancl rtranclp.rtrancl_refl)
  moreover have "fa_said f4 = (Some son_text, Some father_text)"
    using get_put_text family_texts by (simp add: f4_def f3_def f2_def f1_def)
  ultimately show ?thesis by blast
qed

end
