(* ===== verification/Spec2Isabelle.thy ===== *)
theory Spec2Isabelle
  imports Recv_Commute Without_Jobs Slice_Memory Listen_Program Mmap_Tests
begin

text \<open>
  \<^bold>\<open>The program.\<close> Two programs move one big Arrow file from a sender (src/main.cc) to a receiver
  (src/main_recv.cc). The sender maps the file (util/mmap_reader.h), cuts it into slices
  (util/file_slice.h), announces file size and number of slices on a first connection, and then,
  on a thread pool (util/thread_pool.h), compresses each slice with zstd (util/zstd_compress.h) and
  sends it on a connection of its own (util/sending_flow.h). The receiver (util/recv_flow.h)
  accepts the connections and runs a handler for each on its pool: the handler of the first takes
  the header and maps the output file (util/mmap_writer.h), the others collect one slice each,
  decompress it (util/zstd_decompress.h) and write it to its place. When all connections are there
  a supervisor collects the results of the handlers, validates the file (util/ValidUtil.h) and
  reports to the supervisor of the sender.

  \<^bold>\<open>Conventions.\<close> Machine integers are words of their width, with the casts and promotions of the
  source written out. An object in memory is a list of bytes and a pointer into it an offset;
  crashes and exceptions are values of \<open>c_error\<close>. The kernel is an environment: the results of
  \<open>read\<close>, \<open>write\<close>, \<open>accept\<close> and \<open>epoll_wait\<close> are lists the code consumes, and theorems quantify over
  them. A loop that depends on such answers returns a value for \<^emph>\<open>not done yet\<close> when they are used
  up; loops that could run for ever on their own are \<open>partial_function (option)\<close>, with theorems
  that they return. The zstd library is a record of functions, with what its documentation
  promises as \<open>compressor_contract\<close>, \<open>compressor_progress\<close> and \<open>decompressor_contract\<close>; a storing
  codec shows that the contracts can be met. The Arrow library is a record of two functions with
  \<open>arrow_contract\<close>, and the draws of the random distributions are parameters. Doubles are modelled
  exactly, with IEEE 754 rounding.

  \<^bold>\<open>The theories.\<close>
  \<^item> \<open>Prelude\<close>: types, raw memory, words, and the interfaces \<open>invariant_system\<close> (a step relation with
    an invariant), \<open>simulation\<close> (a system that implements another), \<open>invariant_refinement\<close> (one that
    implements another thanks to its invariant) and \<open>tiling\<close> (a range cut into pieces).
  \<^item> \<open>Net_Order\<close>: byte order; interface \<open>fixed_codec\<close>, interpreted for 16 and 32 bits.
  \<^item> \<open>Decimal\<close>: decimal text, \<open>ostream\<close> and \<open>std::stoul\<close>.
  \<^item> \<open>File_Slice\<close>: \<open>FileSlice\<close> with its chunk list and slice header, \<open>SplitFile\<close>. The slices tile the
    file (interpretation \<open>slices\<close>); what goes wrong for small files and large segments.
  \<^item> \<open>Sock_IO\<close>: error classes, addresses, listening sockets, the read loop of the receiver.
  \<^item> \<open>Zstd_Compress\<close>, \<open>Zstd_Decompress\<close>: the streaming loops; content, termination, int result.
  \<^item> \<open>Slice_Memory\<close>: slices, chunks and \<open>Compress\<close> again, with pointers into a heap of blocks: the constructors that
    move, the destructor, and who frees what. It refines \<open>Zstd_Compress\<close>, and shows a leak.
  \<^item> \<open>Mmap_File\<close>: input and output mappings.
  \<^item> \<open>Sending_Flow\<close>: \<open>Init\<close>, \<open>Run\<close>, \<open>SendFileSlice\<close>, \<open>SendFileSizeOnly\<close>; interface \<open>prefix_writer\<close> for
    the write loops; success means that the whole message is out.
  \<^item> \<open>Recv_Flow\<close>: \<open>Server::Recv\<close>, one definition per part of the handler. \<open>Recv\<close> is given the results of its
    waits and reads; \<open>Recv_edges\<close> is given what arrives and is woken once per arrival, as \<open>EPOLLET\<close> asks for.
  \<^item> \<open>Header_Exchange\<close>: the file header from sender to receiver, whole, cut off, in parts, and too late; when the
    two sides agree on the split length.
  \<^item> \<open>File_Transfer\<close>: handlers of all slices, interleaved, as the step relation \<open>net_step\<close>. A step is a
    round of one handler; the rounds of different handlers are atomic towards each other, which
    leaves out data races inside a round (on \<open>mmap_\<close>, for instance). \<open>Recv_Commute\<close>: rounds of different
    handlers commute, because each touches its own entry and its own part of the output only.
  \<^item> \<open>Thread_Pool\<close>: workers, queue, condition variable and destructor; the pool implements a work queue
    (interpretation \<open>pool_spec\<close>).
  \<^item> \<open>Recv_Supervise\<close>, \<open>Send_Supervise\<close>: main loop of the receiver and both supervisors.
  \<^item> \<open>Doubles\<close>, \<open>Random_Util\<close>, \<open>Arrow_Util\<close>, \<open>Valid_Util\<close>: double precision numbers and their decimal text;
    random test data (util/RandomUtil.h); columns and Arrow files (protocol/ColValue.h,
    util/ArrowUtil.h): what is written is read, what the generator makes; the validation text
    (util/ValidUtil.h): which rows it looks at, how exact its averages are.
  \<^item> \<open>Send_Program\<close>, \<open>Send_Main\<close>: the main thread of main.cc interleaved with the workers of its pool, as
    the step relation \<open>send_step\<close> with the invariant \<open>send_inv\<close>; what an exit with 0 means, that it can
    be had, and what can go wrong. A slice is sent in one step, at the moment its task reads the
    parameters of the compressor, the only thing it shares.
  \<^item> \<open>Transfer_Plan\<close>: when a file can be transferred at all: a sound split, a header the receiver reads in
    full, and a split length both sides agree on.
  \<^item> \<open>Recv_Program\<close>: the receiver as a program, main thread, supervisor and handlers interleaved, as the step
    relation \<open>recv_step\<close> with the invariant \<open>recv_inv\<close> (interpretation \<open>receiving_program\<close>). Its threads implement
    the wait of \<open>Recv_Supervise\<close> (interpretation \<open>receiver_wait\<close>).
  \<^item> \<open>Recv_Transfer\<close>: what the handlers make of connections that carry a transfer, whole or broken off, in
    any order (interpretation \<open>receiving_transfer\<close>), and what a report says. \<open>Recv_Schedule\<close>: a schedule that
    gets everything done. \<open>Recv_Main\<close>: the properties of the receiver.
  \<^item> \<open>Two_Programs\<close>: what a run of the sender leaves on its connections is such a transfer.
  \<^item> \<open>Whole_System\<close>: sender and receiver at the same time, as the step relation \<open>system_step\<close>. A connection appears
    when the sender's thread has done its part, and the sender's supervisor reads what the receiver's has
    written. The system is a run of each program, tied by what is on the connections (interpretation
    \<open>whole_system\<close>); a schedule of the system gets everything done. \<open>Without_Jobs\<close>: a setting in which they wait
    for each other for ever.
  \<^item> \<open>Multi_Listen\<close>, \<open>Listen_Client\<close>, \<open>Listen_Program\<close>: the server and the client of demos/multi_listen, the experiment
    the receiver grew from: its parts, what a client that types words makes of a job, and the server as a
    program that never serves more than four connections. \<open>Mmap_Tests\<close>: the programs of demos/mmap_test.
  \<^item> this theory: the transfer from file to file and the verdict, first for the handlers alone, then for a sender
    that has exited and a receiver on its connections, then for both programs running at the same time.

  \<^bold>\<open>Bounds.\<close> The count of connections is a 16-bit signed number, so a report is only known to come after
  all handlers with fewer than 32768 connections. \<open>transfer_ok\<close> asks for at most 21248 = 83 * 256 slices:
  up to there no slice header begins with the letter S that marks the header of the file. Validation is
  right up to 2147400000 rows, above which its index overflows. The numbers 407 and 406 in the verdict are
  the longest validation text, 404 bytes, with the two bytes of the end mark and one more write (\<open>one_batch 406\<close>
  is a delivery of all of it).

  \<^bold>\<open>Not modelled.\<close> Logging, flag parsing and timing (no effect on the transfer); data races within a
  round (the receiver's supervisor reads \<open>slices_th_res_\<close> while the main thread may extend it); threads that
  are still running while a process exits; a receiver that reads a connection while the sender's thread is still
  writing on it (a connection is there as soon as its thread is done with it, a reader that finds less sees a
  short read, and a sender that dies may leave any beginning of a message); when a wake-up comes, except in
  \<open>Recv_edges\<close>: the safety properties hold for wake-ups at any time, and the schedules of the liveness
  properties let every connection deliver ten bytes at a time, each read in whole; allocation failures; demos/ctor.cc, demos/packaged_tasks,
  demos/socket_test and demos/multi_listen/test_s.cc, which try out a language feature or a library call
  and print the result.
\<close>

section \<open>From file to file\<close>

subsection \<open>A sample transfer\<close>

text \<open>The sample of \<open>Transfer_Plan\<close>, with its header taken in.\<close>

definition zero_file :: "u64 \<Rightarrow> mapping" where
  "zero_file n = fst (MMapOutputArrowFile True (\<lambda>_. None) ''out'' n)"

definition sample_net :: net where
  "sample_net = \<lparr>nt_server = header_state zero_file server_init 7 2,
     nt_conns = map (\<lambda>j. \<lparr>cn_local = recv_start,
        cn_pending = slice_message (split_slices sample_flags sample_data ! j) (sample_frames ! j),
        cn_result = None\<rparr>) [0..<length sample_frames]\<rparr>"

lemma zero_file_mapped: "0 < n \<Longrightarrow> n < 2 ^ 63 \<Longrightarrow> zero_file (of_nat n) = Mapped (replicate n 0)"
  by (simp add: zero_file_def MMapOutput_zeros)

lemma sample_init: "net_init store_d id id (=) sample_flags sample_data sample_frames sample_net"
proof -
  have ok: "split_ok (sample_flags, sample_data)"
    by (simp add: split_ok_def split_flags_def int_max_def sample_flags_def sample_data_def)
  have "zero_file 7 = Mapped (replicate 7 0)" using zero_file_mapped [of 7] by simp
  then have "ready (nt_server sample_net) (replicate 7 0)"
    by (simp add: sample_net_def ready_def header_state_def reads_max_for_def)
  moreover have "transfer_setup (=) sample_flags sample_data sample_frames (sv_split_len (nt_server sample_net))"
    unfolding transfer_setup_def sample_slices using ok
    by (simp add: sample_frames_def sample_net_def header_state_def FileSlice_def slice_bytes_def GetBuf_def
        get_bytes_def sample_data_def less_Suc_eq all_conj_distrib)
  ultimately show ?thesis
    by (auto simp: net_init_def store_d_contract sample_net_def sample_data_def)
qed

lemma sample_run:
  obtains n where "rtranclp (net_step store_d zero_file) sample_net n"
    and "\<forall>c \<in> set (nt_conns n). cn_result c = Some (Returned 0)"
proof -
  have "list_all conn_well (nt_conns sample_net)" by (auto simp: sample_net_def conn_well_def list_all_iff)
  with net_completes [OF net_init_inv [OF sample_init], of zero_file] that show ?thesis by blast
qed

subsection \<open>Interleaved handlers\<close>

text \<open>(C6) Safety of the transfer: however the handlers of the slice connections are scheduled, and
  whatever events and short reads each of them sees, once all of them have returned 0 the mapped
  output is the sender's file, byte for byte.\<close>

theorem transfer_safe:
  assumes "net_init z fed made frame fl data ys n" and "rtranclp (net_step z map_file) n n'"
    and "\<forall>c \<in> set (nt_conns n'). cn_result c = Some (Returned 0)"
  shows "sv_start (nt_server n') = Mapped data"
  using transfer.reach_inv [OF assms(1,2)] assms(3) by (rule net_inv_done)

theorem transfer_safe_witness:
  "\<exists>n. rtranclp (net_step store_d zero_file) sample_net n \<and> sv_start (nt_server n) = Mapped sample_data"
proof -
  obtain n where "rtranclp (net_step store_d zero_file) sample_net n"
    and "\<forall>c \<in> set (nt_conns n). cn_result c = Some (Returned 0)" by (rule sample_run)
  with transfer_safe [OF sample_init] show ?thesis by blast
qed

text \<open>The transfer can always be finished: from every state the handlers can reach in which
  none of them has failed there is a schedule after which all have returned 0 and the output is
  the file.\<close>

theorem transfer_completes:
  assumes "net_init z fed made frame fl data ys n" and "rtranclp (net_step z map_file) n n'"
    and "list_all conn_well (nt_conns n')"
  shows "\<exists>n''. rtranclp (net_step z map_file) n' n'' \<and>
    (\<forall>c \<in> set (nt_conns n''). cn_result c = Some (Returned 0)) \<and> sv_start (nt_server n'') = Mapped data"
proof -
  have inv: "net_inv z fed made frame fl data ys n'" using transfer.reach_inv [OF assms(1,2)] .
  from net_completes [OF this assms(3)] obtain n'' where st: "rtranclp (net_step z map_file) n' n''"
    and dn: "\<forall>c \<in> set (nt_conns n''). cn_result c = Some (Returned 0)" by blast
  have "net_inv z fed made frame fl data ys n''" by (rule transfer.steps_inv [OF st inv])
  with st dn net_inv_done show ?thesis by blast
qed

theorem transfer_completes_witness:
  "\<exists>n. rtranclp (net_step store_d zero_file) sample_net n \<and>
    (\<forall>c \<in> set (nt_conns n). cn_result c = Some (Returned 0)) \<and> sv_start (nt_server n) = Mapped sample_data"
  by (rule transfer_completes [OF sample_init rtranclp.rtrancl_refl])
    (auto simp: sample_net_def conn_well_def list_all_iff)

subsection \<open>Rounds that commute\<close>

text \<open>(C7) The order of the rounds does not matter: in every state of the transfer, when two handlers that
  have not returned make a round each, with whatever events and reads, the other order is possible as well,
  each handler comes out of it the same, and so does the server.\<close>

theorem rounds_commute:
  assumes "net_init z fed made frame fl data ys n0" and "rtranclp (net_step z map_file) n0 n"
    and "i < length (nt_conns n)" and "j < length (nt_conns n)" and "i \<noteq> j"
    and "cn_result (nt_conns n ! i) = None" and "cn_result (nt_conns n ! j) = None"
    and "conn_round z map_file (nt_server n) (nt_conns n ! i) w = Some (Inr (sv, c))"
    and "conn_round z map_file sv (nt_conns n ! j) w' = Some (Inr (sv2, d))"
  shows "\<exists>sv'. conn_round z map_file (nt_server n) (nt_conns n ! j) w' = Some (Inr (sv', d)) \<and>
    conn_round z map_file sv' (nt_conns n ! i) w = Some (Inr (sv2, c))"
  by (rule net_rounds_commute [OF transfer.reach_inv [OF assms(1,2)] assms(3-9)])

theorem rounds_commute_witness:
  "\<exists>sv sv' sv2 c d.
    conn_round store_d zero_file (nt_server sample_net) (nt_conns sample_net ! 0) (delivers 10) = Some (Inr (sv, c)) \<and>
    conn_round store_d zero_file sv (nt_conns sample_net ! 1) (delivers 10) = Some (Inr (sv2, d)) \<and>
    conn_round store_d zero_file (nt_server sample_net) (nt_conns sample_net ! 1) (delivers 10) = Some (Inr (sv', d)) \<and>
    conn_round store_d zero_file sv' (nt_conns sample_net ! 0) (delivers 10) = Some (Inr (sv2, c))"
proof -
  let ?n = "sample_net"
  note inv = net_init_inv [OF sample_init]
  have l: "length (nt_conns ?n) = 2" and lv: "cn_result (nt_conns ?n ! 0) = None" "cn_result (nt_conns ?n ! 1) = None"
    by (simp_all add: sample_net_def sample_frames_def)
  then have i: "0 < length (nt_conns ?n)" and j: "1 < length (nt_conns ?n)" by simp_all
  obtain sv c where c: "conn_round store_d zero_file (nt_server ?n) (nt_conns ?n ! 0) (delivers 10) = Some (Inr (sv, c))"
    using net_deliver [OF inv i lv(1)] by metis
  define n1 where "n1 = \<lparr>nt_server = sv, nt_conns = (nt_conns ?n)[0 := c]\<rparr>"
  have inv1: "net_inv store_d id id (=) sample_flags sample_data sample_frames n1"
    unfolding n1_def by (rule net_step_inv [OF inv conn_round_net [OF i lv(1) c]])
  have n1: "nt_server n1 = sv" "nt_conns n1 ! 1 = nt_conns ?n ! 1" "1 < length (nt_conns n1)"
    using l by (simp_all add: n1_def)
  obtain sv2 d where d: "conn_round store_d zero_file sv (nt_conns ?n ! 1) (delivers 10) = Some (Inr (sv2, d))"
    by (rule net_deliver [OF inv1 n1(3), of zero_file, unfolded n1, OF lv(2)]) (rule that)
  from rounds_commute [OF sample_init rtranclp.rtrancl_refl i j _ lv c d] c d show ?thesis by auto
qed

subsection \<open>The whole way\<close>

text \<open>The receiver with one new connection per slice.\<close>

definition accepted_net :: "server \<Rightarrow> byte list list \<Rightarrow> net" where
  "accepted_net sv outs = \<lparr>nt_server = sv,
     nt_conns = map (\<lambda>out. \<lparr>cn_local = recv_start, cn_pending = out, cn_result = None\<rparr>) outs\<rparr>"

lemma accepted_init:
  assumes pl: "plan_ok fl data" and cc: "compressor_contract zc taken given frame"
    and dc: "decompressor_contract zd fed made frame" and ne: "\<forall>x y. frame x y \<and> x \<noteq> [] \<longrightarrow> y \<noteq> []"
    and sent: "slices_sent zc u (split_slices fl data) rss outs"
    and sv: "sv = header_state zero_file server_init (of_nat (length data)) (ucast (of_nat (length (split_slices fl data)) :: u16))"
  shows "\<exists>ys. net_init zd fed made frame fl data ys (accepted_net sv outs)"
proof -
  let ?fs = "split_slices fl data"
  have "\<forall>j. \<exists>y. j < length ?fs \<longrightarrow> frame (slice_bytes (?fs ! j)) y \<and> outs ! j = slice_message (?fs ! j) y \<and> length y < 2 ^ 32"
    using sent_frame [OF cc sent] plan_slice_nonempty(2,3) [OF pl] by metis
  then obtain ya where ya: "\<And>j. j < length ?fs \<Longrightarrow>
      frame (slice_bytes (?fs ! j)) (ya j) \<and> outs ! j = slice_message (?fs ! j) (ya j) \<and> length (ya j) < 2 ^ 32"
    by metis
  define ys where "ys = map ya [0..<length ?fs]"
  have "frames_ok frame ?fs ys" using ya ne plan_slice_nonempty(1) [OF pl] by (auto simp: frames_ok_def ys_def)
  moreover have "0 < length data" using pl by (auto simp: plan_ok_def elim: split_okE)
  then have z: "zero_file (of_nat (length data)) = Mapped (replicate (length data) 0)"
    using pl by (intro zero_file_mapped) (simp_all add: plan_ok_def)
  ultimately have "transfer_setup frame fl data ys (sv_split_len sv)" using plan_setup [OF pl _ z sv] by blast
  moreover have "nt_conns (accepted_net sv outs) = map (\<lambda>j. \<lparr>cn_local = recv_start,
        cn_pending = slice_message (?fs ! j) (ys ! j), cn_result = None\<rparr>) [0..<length ys]"
    using ya sent by (auto simp: accepted_net_def ys_def slices_sent_def intro!: nth_equalityI)
  ultimately show ?thesis
    using dc header_ready(1) [OF pl z sv]
    by (intro exI [of _ ys]) (auto simp: net_init_def accepted_net_def)
qed

text \<open>End to end. The sender splits the file, compresses the slices and sends each on a
  connection of its own with \<open>SendFileSlice\<close> reporting success; the receiver has taken in the
  header, in whatever rounds, and mapped an output file. Then, whatever order the handlers run
  in, if they all return 0 the output is the file.\<close>

theorem file_transfer:
  assumes "plan_ok fl data"
    and "compressor_contract zc taken given frame" and "decompressor_contract zd fed made frame"
    and "\<forall>x y. frame x y \<and> x \<noteq> [] \<longrightarrow> y \<noteq> []"
    and "slices_sent zc u (split_slices fl data) rss outs"
    and "Recv zd zero_file True server_init ws
      (file_header (of_nat (length data)) (of_nat (length (split_slices fl data)))) = (Return 0 sv, [])"
    and "rtranclp (net_step zd zero_file) (accepted_net sv outs) n"
    and "\<forall>c \<in> set (nt_conns n). cn_result c = Some (Returned 0)"
  shows "sv_start (nt_server n) = Mapped data"
proof -
  let ?k = "length (split_slices fl data)"
  have "header_start server_init" by (simp add: header_start_def server_init_def)
  then have "sv = header_state zero_file server_init (of_nat (length data)) (ucast (of_nat ?k :: u16))"
    using assms(6) plan_count(2) [OF assms(1)] recv_loop_header by (simp add: Recv_def)
  from accepted_init [OF assms(1-5) this] obtain ys where
    "net_init zd fed made frame fl data ys (accepted_net sv outs)" by blast
  then show ?thesis using transfer.reach_inv assms(7,8) net_inv_done by blast
qed

text \<open>The sample, sent by the code: what the compressor leaves of the two slices.\<close>

lemma sample_compressed:
  "Compress store_c (snd (ZSTDCompressUtil_Init zstd_util_start)) (FileSlice sample_data 0 3 3)
    = Some (Inr (Some (compressed_slice (FileSlice sample_data 0 3 3) [[1, 2, 3]])))"
  "Compress store_c (snd (ZSTDCompressUtil_Init zstd_util_start)) (FileSlice sample_data 1 4 3)
    = Some (Inr (Some (compressed_slice (FileSlice sample_data 1 4 3) [[4, 5, 6], [7]])))"
  by (simp_all add: Compress_def ZSTDCompressUtil_Init_def FileSlice_def store_c_def compress_loop.simps
      compress_piece.simps Let_def mem_read_def get_bytes_def GetBuf_def LinkCompressChunk_def
      SetChunkLinksHeader_def link_header_bytes compressed_slice_def linked_def mem_write_def put_c_len
      wire32.length_enc sample_data_def)
    (simp_all add: link_header_def slice_header_len_def Let_def)

lemma sample_sent:
  "slices_sent store_c (snd (ZSTDCompressUtil_Init zstd_util_start)) (split_slices sample_flags sample_data)
    [Err EAGAIN # replicate 20 (Ok 3), Err EAGAIN # replicate 20 (Ok 3)]
    [slice_message (FileSlice sample_data 0 3 3) [1, 2, 3], slice_message (FileSlice sample_data 1 4 3) [4, 5, 6, 7]]"
proof -
  let ?rs = "Err EAGAIN # replicate 20 (Ok (3 :: nat))"
  have fair: "fair_script ?rs" "20 \<le> accepted ?rs"
    by (simp_all add: fair_script_def accepted_def IsSocketError_def list_all_iff)
  have "SendFileSlice True (compressed_slice (FileSlice sample_data 0 3 3) [[1, 2, 3]]) ?rs
      = Done (0, slice_message (FileSlice sample_data 0 3 3) (concat [[1, 2, 3]]))"
    by (rule send_slice_completes) (use fair in simp_all)
  moreover have "SendFileSlice True (compressed_slice (FileSlice sample_data 1 4 3) [[4, 5, 6], [7]]) ?rs
      = Done (0, slice_message (FileSlice sample_data 1 4 3) (concat [[4, 5, 6], [7]]))"
    by (rule send_slice_completes) (use fair in simp_all)
  ultimately show ?thesis
    using sample_compressed unfolding sample_slices slices_sent_def
    by (simp add: less_Suc_eq all_conj_distrib compressed_slice_chunks slice_message_def)
qed

lemma sample_header:
  "Recv store_d zero_file True server_init [WakeIn (map Ok [2, 2] @ [Err EAGAIN])]
      (file_header (of_nat (length sample_data)) (of_nat (length (split_slices sample_flags sample_data))))
    = (Return 0 (header_state zero_file server_init 7 2), [])"
proof -
  have "Recv store_d zero_file True server_init [WakeIn (map Ok [2, 2] @ [Err EAGAIN])] (file_header 7 2)
      = (Return 0 (header_state zero_file server_init 7 (ucast (2 :: u16))), [])"
    by (rule recv_header_pieces) (simp_all add: header_start_def server_init_def file_header_def print_nat.simps)
  then show ?thesis unfolding sample_slices by (simp add: sample_data_def)
qed

theorem file_transfer_witness:
  "\<exists>n. rtranclp (net_step store_d zero_file) sample_net n \<and>
    (\<forall>c \<in> set (nt_conns n). cn_result c = Some (Returned 0)) \<and> sv_start (nt_server n) = Mapped sample_data"
proof -
  obtain n where n: "rtranclp (net_step store_d zero_file) sample_net n"
    "\<forall>c \<in> set (nt_conns n). cn_result c = Some (Returned 0)" by (rule sample_run)
  have "sample_net = accepted_net (header_state zero_file server_init 7 2)
      [slice_message (FileSlice sample_data 0 3 3) [1, 2, 3], slice_message (FileSlice sample_data 1 4 3) [4, 5, 6, 7]]"
    unfolding sample_net_def sample_slices by (simp add: accepted_net_def sample_frames_def)
  with file_transfer [OF sample_plan store_c_contract store_d_contract _ sample_sent sample_header] n
  show ?thesis by auto
qed

subsection \<open>The verdict\<close>

text \<open>The sender's supervisor returns 0 with the validation text as soon as the report of the receiver's
  comes through, no matter how many handlers failed. A failed transfer is only visible in the
  text.\<close>

lemma collect_zeros: "\<forall>c \<in> set cs. cn_result c = Some (Returned 0) \<Longrightarrow> collect (map (the \<circ> cn_result) cs) = Inr 0"
  by (induction cs) simp_all

text \<open>The verdict. When all handlers have returned 0, the receiver validates its file and reports, and the
  report comes through, then the sender's supervisor returns 0 and logs the text that the sender's own
  file validates to.\<close>

theorem verdict:
  assumes "net_init z fed made frame fl data ys n" and "rtranclp (net_step z map_file) n n'"
    and "\<forall>c \<in> set (nt_conns n'). cn_result c = Some (Returned 0)"
    and "send_fs send_path = Some data" and "sv_start (nt_server n') = Mapped mem" and "recv_fs recv_path = Some mem"
    and "readDataFromFile ar send_fs send_path rows = Inr cv" and "rows \<le> 2147400000" and "length nan_text \<le> 5"
    and "sum_list (map (\<lambda>v. \<bar>sint v\<bar>) (samples (intVal cv) rows)) < 2 ^ 31"
    and "getValidResult_file nan_text ar recv_fs recv_path rows = Inr valid_res"
    and "list_all ((<) 0) ws" and "407 \<le> length ws"
    and "Server_Supervise True (Returned 0 # map (the \<circ> cn_result) (nt_conns n')) valid_res bufs (Mapped mem) ws = Done (r, pend fd)"
    and "list_all ((<) 0) ks" and "406 \<le> sum_list ks"
  shows "SendingFlow_Supervise
      [WaitOk [EvAccept [(fd, True), (-1, True)]], WaitOk [EvRead fd (map Ok ks @ [Err EAGAIN])]] pend
    = SSReturn 0 (Some valid_res) 1 \<and> getValidResult_file nan_text ar send_fs send_path rows = Inr valid_res"
proof -
  have "sv_start (nt_server n') = Mapped data"
    using transfer.reach_inv [OF assms(1,2)] assms(3) by (rule net_inv_done)
  then have "recv_fs recv_path = send_fs send_path" using assms(4-6) by simp
  then have "readDataFromFile ar recv_fs recv_path rows = readDataFromFile ar send_fs send_path rows"
    by (simp only: readDataFromFile_def)
  then have same: "getValidResult_file nan_text ar send_fs send_path rows = Inr valid_res"
    using assms(11) by (simp add: getValidResult_file_def)
  then have "contains strings2 valid_res" "length valid_res \<le> 404" using validated_text [OF assms(7-10)] by simp_all
  moreover have "collect (Returned 0 # map (the \<circ> cn_result) (nt_conns n')) = Inr 0"
    using collect_zeros [OF assms(3)] by simp
  ultimately show ?thesis
    using report_verdict [where pend = pend and fd = fd, OF _ assms(12) _ _ _ assms(14) one_batch_simple [OF assms(15,16)]] assms(13) same
    by simp
qed

theorem verdict_witness:
  "\<exists>msg. SendingFlow_Supervise
      [WaitOk [EvAccept [(5, True), (-1, True)]], WaitOk [EvRead 5 (map Ok [500] @ [Err EAGAIN])]]
      ((\<lambda>_. [])(5 := [69, 0] @ msg)) = SSReturn 0 (Some msg) 1 \<and>
    getValidResult_file [] low_arrow [''f'' \<mapsto> sample_data] ''f'' 2 = Inr msg"
proof -
  obtain n where n: "rtranclp (net_step store_d zero_file) sample_net n"
    "\<forall>c \<in> set (nt_conns n). cn_result c = Some (Returned 0)" by (rule sample_run)
  then have m: "sv_start (nt_server n) = Mapped sample_data"
    using transfer.reach_inv [OF sample_init] net_inv_done by blast
  let ?cv = "\<lparr>cv_total = 2, stringVal1 = replicate 2 (replicate 20 97), intVal = [1, 1], doubles = [dbl_zero, dbl_zero],
        stringVal2 = [[98, 98], [98, 98]]\<rparr> :: ColValue"
  have rd: "readDataFromFile low_arrow [''f'' \<mapsto> sample_data] ''f'' 2 = Inr ?cv" using low_read [of "[''f'' \<mapsto> sample_data]" "''f''"] by simp
  have sm: "sum_list (map (\<lambda>v. \<bar>sint v\<bar>) (samples (intVal ?cv) 2)) < 2 ^ 31" by (simp add: samples_def)
  have ok: "cols_ok ?cv" by (simp add: cols_ok_def)
  have "sum_list (map (\<lambda>v. \<bar>sint v\<bar>) (samples (intVal ?cv) (cv_total ?cv))) < 2 ^ 31" using sm by simp
  from valid_length [OF ok _ _ this, of "[]"] obtain msg where "getValidResult [] ?cv = Inr msg" by auto
  then have t: "getValidResult_file [] low_arrow [''f'' \<mapsto> sample_data] ''f'' 2 = Inr msg"
    using rd by (simp only: getValidResult_file_def sum.case)
  have len: "length msg \<le> 404" using validated_text [OF rd _ _ sm t] by simp
  have "collect (Returned 0 # map (the \<circ> cn_result) (nt_conns n)) = Inr 0" using collect_zeros [OF n(2)] by simp
  from supervise_report_sent [OF this, of "replicate 500 9" msg "[CBuf [5]]" "Mapped sample_data"] len
  have sent: "Server_Supervise True (Returned 0 # map (the \<circ> cn_result) (nt_conns n)) msg [CBuf [5]] (Mapped sample_data) (replicate 500 9)
      = Done (sup_cleanup [CBuf [5]] (Mapped sample_data), ((\<lambda>_. [])(5 := [69, 0] @ msg)) 5)"
    by (simp add: list_all_iff)
  have "SendingFlow_Supervise
      [WaitOk [EvAccept [(5, True), (-1, True)]], WaitOk [EvRead 5 (map Ok [500] @ [Err EAGAIN])]]
      ((\<lambda>_. [])(5 := [69, 0] @ msg)) = SSReturn 0 (Some msg) 1 \<and>
    getValidResult_file [] low_arrow [''f'' \<mapsto> sample_data] ''f'' 2 = Inr msg"
    by (rule verdict [where pend = "(\<lambda>_. [])(5 := [69, 0] @ msg)" and fd = 5, OF sample_init n _ m _ rd _ _ sm t _ _ sent]) (simp_all add: list_all_iff)
  then show ?thesis by blast
qed

subsection \<open>The two programs\<close>

text \<open>From file to file, as programs. The sender has run, with all its threads in any order, and exited with
  0; the receiver runs, with all its threads in any order, on the connections the sender made, which
  may have been broken off anywhere and are accepted in any order. When the receiver's report has
  gone out, no handler has failed and the header was taken in whole, the output is the sender's file,
  byte for byte, and the report is the validation of that file.\<close>

theorem programs_transfer:
  assumes "transfer_ok en ren taken given fed made frame data" and "programs_run en ren ss rs"
    and "rv_report rs \<noteq> []" and "well_run rs"
  shows "sv_start (rv_server rs) = Mapped data \<and> report_on ren data (rv_report rs)"
  using run_reported [OF assms] by simp

theorem programs_transfer_witness:
  "\<exists>ss rs. rtranclp (recv_step (pair_recv ss)) (recv_init (pair_recv ss)) rs \<and> sd_main ss = Ended 0 \<and>
    sv_start (rv_server rs) = Mapped [1, 2, 3] \<and> report_on (pair_recv ss) [1, 2, 3] (rv_report rs)"
proof -
  obtain ss rs msg where r: "programs_run (pair_send ([69, 0] @ msg)) (pair_recv ss) ss rs" "rv_report rs = [69, 0] @ msg" "well_run rs"
    by (rule pair_run)
  have "rv_report rs \<noteq> []" using r(2) by simp
  from programs_transfer [OF pair_ok r(1) this r(3)] r(1) show ?thesis by (auto simp: programs_run_def)
qed

text \<open>The verdict, through both programs: when moreover the report gets to the sender's supervisor, what it
  has returned with when the sender exits is 0 and the text that the sender's own file validates to.\<close>

theorem programs_verdict:
  assumes "transfer_ok en ren taken given fed made frame data" and "programs_run en ren ss rs"
    and "rv_report rs \<noteq> []" and "well_run rs"
    and "readDataFromFile (re_arrow ren) (en_fs en) (en_path en) (sint (re_rows ren)) = Inr cv"
    and "sint (re_rows ren) \<le> 2147400000" and "length (re_nan ren) \<le> 5"
    and "sum_list (map (\<lambda>v. \<bar>sint v\<bar>) (samples (intVal cv) (sint (re_rows ren)))) < 2 ^ 31"
    and "list_all ((<) 0) (re_ws ren)" and "407 \<le> length (re_ws ren)"
    and "one_batch 406 fd (en_waits en)" and "en_pend en fd = rv_report rs"
  shows "\<exists>msg. sd_verdict ss = Some (SSReturn 0 (Some msg) 1) \<and>
    getValidResult_file (re_nan ren) (re_arrow ren) (en_fs en) (en_path en) (sint (re_rows ren)) = Inr msg"
  using assms by (rule run_verdict)

theorem programs_verdict_witness:
  "\<exists>ss rs msg. rtranclp (recv_step (pair_recv ss)) (recv_init (pair_recv ss)) rs \<and> sd_main ss = Ended 0 \<and>
    sd_verdict ss = Some (SSReturn 0 (Some msg) 1) \<and> getValidResult_file [] low_arrow [''in'' \<mapsto> [1, 2, 3]] ''in'' 2 = Inr msg"
proof -
  obtain ss rs msg where r: "programs_run (pair_send ([69, 0] @ msg)) (pair_recv ss) ss rs" "rv_report rs = [69, 0] @ msg" "well_run rs"
    by (rule pair_run)
  let ?en = "pair_send ([69, 0] @ msg)" and ?ren = "pair_recv ss"
  have f: "en_fs (pair_send report) = [''in'' \<mapsto> [1, 2, 3]]" "en_path (pair_send report) = ''in''" for report by (simp_all add: pair_send_def sample_env_def)
  have g: "re_arrow ?ren = low_arrow" "re_nan ?ren = []" "sint (re_rows ?ren) = 2" "re_ws ?ren = replicate 500 9"
    by (simp_all add: pair_recv_def sample_recv_def)
  have rd: "readDataFromFile (re_arrow ?ren) (en_fs ?en) (en_path ?en) (sint (re_rows ?ren))
    = Inr \<lparr>cv_total = 2, stringVal1 = replicate 2 (replicate 20 97), intVal = [1, 1], doubles = [dbl_zero, dbl_zero],
        stringVal2 = [[98, 98], [98, 98]]\<rparr>" using low_read [of "[''in'' \<mapsto> [1, 2, 3]]" "''in''"] by (simp add: f g)
  have "rv_report rs \<noteq> []" "en_pend ?en 5 = rv_report rs" using r(2) by (simp_all add: pair_send_def)
  then have "\<exists>m. sd_verdict ss = Some (SSReturn 0 (Some m) 1) \<and>
    getValidResult_file (re_nan ?ren) (re_arrow ?ren) (en_fs ?en) (en_path ?en) (sint (re_rows ?ren)) = Inr m"
    by (intro programs_verdict [where fd = 5, OF pair_ok r(1) _ r(3) rd])
      (simp_all add: g samples_def list_all_iff, simp add: pair_send_def)
  then show ?thesis using r(1) by (auto simp: f g programs_run_def)
qed

subsection \<open>Both programs at the same time\<close>

text \<open>(C1) From file to file, both programs running at the same time, for a file that fits the program
  (\<open>transfer_ok\<close>) and a header that the sender wrote in whole: all their threads in any order, connections
  accepted in any order and broken off anywhere by a sender that dies. When the receiver's report has
  gone out, no handler has failed and the header was taken in whole, the output is the sender's file,
  byte for byte, and the report is the validation of that file.\<close>

theorem system_transfer:
  assumes "transfer_ok en ren taken given fed made frame data" and "header_sent en data (length (split_slices (en_flags en) data))"
    and "rtranclp (system_step en fd ren) (system_start en ren) s"
    and "rv_report (sy_receiver s) \<noteq> []" and "well_run (sy_receiver s)"
  shows "sv_start (rv_server (sy_receiver s)) = Mapped data \<and> report_on ren data (rv_report (sy_receiver s))"
proof -
  have "system_inv en fd ren data s" using whole_system.reach_inv [OF _ assms(3)] transfer_system_ok [OF assms(1,2)] by blast
  from system_reported [OF assms(1) this assms(4,5)] show ?thesis by simp
qed

theorem system_transfer_witness:
  "\<exists>s. rtranclp (system_step (pair_send []) 5 sample_recv) (system_start (pair_send []) sample_recv) s \<and>
    sv_start (rv_server (sy_receiver s)) = Mapped [1, 2, 3] \<and> report_on sample_recv [1, 2, 3] (rv_report (sy_receiver s))"
proof -
  obtain s msg where s: "rtranclp (system_step (pair_send []) 5 sample_recv) (system_start (pair_send []) sample_recv) s"
    "well_run (sy_receiver s)" "rv_report (sy_receiver s) = [69, 0] @ msg"
    using system_run [OF whole_ok whole_header whole_short whole_slices whole_jobs whole_verdict] by blast
  then have "rv_report (sy_receiver s) \<noteq> []" by simp
  from system_transfer [OF whole_ok whole_header s(1) this s(2)] s(1) show ?thesis by blast
qed

text \<open>(C2) The verdict of the two programs. Let the validation of the sender's file be in order, the writes of
  the report be taken, and the report be delivered to the sender's supervisor in one batch, before any of its
  waits or \<open>epoll_ctl\<close> calls has failed (\<open>verdict_ok\<close>). When the sender has exited with 0, no handler of the
  receiver has failed and the header was taken in whole (\<open>well_run\<close>), the sender's supervisor has returned 0
  with the text that the sender's own file validates to. (Without such a delivery an exit with 0 says nothing
  about the report: \<open>sender_ignores_verdict\<close> in \<open>Send_Main\<close>.)\<close>

theorem system_verdict:
  assumes "transfer_ok en ren taken given fed made frame data" and "header_sent en data (length (split_slices (en_flags en) data))"
    and "verdict_ok en fd ren" and "rtranclp (system_step en fd ren) (system_start en ren) s"
    and "sd_main (sy_sender s) = Ended 0" and "well_run (sy_receiver s)"
  shows "\<exists>msg. sd_verdict (sy_sender s) = Some (SSReturn 0 (Some msg) 1) \<and>
    getValidResult_file (re_nan ren) (re_arrow ren) (en_fs en) (en_path en) (sint (re_rows ren)) = Inr msg"
proof -
  have "system_inv en fd ren data s" using whole_system.reach_inv [OF _ assms(4)] transfer_system_ok [OF assms(1,2)] by blast
  from system_validated [OF assms(1) this assms(3,5,6)] show ?thesis .
qed

theorem system_verdict_witness:
  "\<exists>s msg. rtranclp (system_step (pair_send []) 5 sample_recv) (system_start (pair_send []) sample_recv) s \<and>
    sd_verdict (sy_sender s) = Some (SSReturn 0 (Some msg) 1) \<and>
    getValidResult_file (re_nan sample_recv) (re_arrow sample_recv) (en_fs (pair_send [])) (en_path (pair_send [])) (sint (re_rows sample_recv)) = Inr msg"
proof -
  obtain s where s: "rtranclp (system_step (pair_send []) 5 sample_recv) (system_start (pair_send []) sample_recv) s"
    "sd_main (sy_sender s) = Ended 0" "well_run (sy_receiver s)"
    using system_run [OF whole_ok whole_header whole_short whole_slices whole_jobs whole_verdict] by blast
  from system_verdict [OF whole_ok whole_header whole_verdict s] s(1) show ?thesis by blast
qed

text \<open>(C3) The two programs can do it: with at least one job on each side, a header of at most 17 bytes and connections that take
  everything there is a run of both after which the receiver has the file, the report is out, and the
  sender has exited with 0 and has read in the report what its file validates to.\<close>

theorem system_completes:
  assumes "transfer_ok en ren taken given fed made frame data" and "header_sent en data (length (split_slices (en_flags en) data))"
    and "length (file_header (of_nat (length data)) (of_nat (length (split_slices (en_flags en) data)))) \<le> 17"
    and "slices_out en data" and "1 \<le> sint (jobs (en_flags en))" and "1 \<le> sint (re_jobs ren)"
    and "re_connected ren" and "verdict_ok en fd ren"
  shows "\<exists>s msg. rtranclp (system_step en fd ren) (system_start en ren) s \<and> sd_main (sy_sender s) = Ended 0 \<and>
    well_run (sy_receiver s) \<and> rv_report (sy_receiver s) = [69, 0] @ msg \<and> sv_start (rv_server (sy_receiver s)) = Mapped data \<and>
    sd_verdict (sy_sender s) = Some (SSReturn 0 (Some msg) 1) \<and>
    getValidResult_file (re_nan ren) (re_arrow ren) (en_fs en) (en_path en) (sint (re_rows ren)) = Inr msg"
  using assms by (rule system_run)

theorem system_completes_witness:
  "\<exists>s msg. rtranclp (system_step (pair_send []) 5 sample_recv) (system_start (pair_send []) sample_recv) s \<and>
    sd_main (sy_sender s) = Ended 0 \<and> sv_start (rv_server (sy_receiver s)) = Mapped [1, 2, 3] \<and>
    rv_report (sy_receiver s) = [69, 0] @ msg"
  using system_completes [OF whole_ok whole_header whole_short whole_slices whole_jobs whole_verdict] by blast

end
